(* ===== verification/Prelude.thy ===== *)
theory Prelude
  imports Main "HOL-Library.Word"
begin

text \<open>
  Shared vocabulary of the development: machine integers (natural numbers with the
  wrap-around of C's unsigned types written out, or words where the code works bitwise),
  the constants of \<open>src/libfs/src/global/global.h\<close>, the error codes the operations return,
  the named simp collections of the components, and two interfaces used by several
  components: an ordered collection that is walked by successor and predecessor, and a
  state machine given by its initial states and its steps.
\<close>

unbundle bit_operations_syntax

section \<open>Simp collections\<close>

named_theorems order_simps \<open>positions in the order of a collection\<close>
named_theorems wrap_simps \<open>unsigned arithmetic that stays in range\<close>
named_theorems invar_defs \<open>definitions of the components' invariants\<close>

section \<open>Machine integers\<close>

type_synonym u8 = "8 word"
type_synonym u16 = "16 word"
type_synonym u32 = "32 word"
type_synonym u64 = "64 word"

definition uadd64 :: "nat \<Rightarrow> nat \<Rightarrow> nat" where
  "uadd64 a b = (a + b) mod 2 ^ 64"

definition usub64 :: "nat \<Rightarrow> nat \<Rightarrow> nat" where
  "usub64 a b = (a + (2 ^ 64 - b mod 2 ^ 64)) mod 2 ^ 64"

lemma uadd64_small [wrap_simps]: "a + b < 2 ^ 64 \<Longrightarrow> uadd64 a b = a + b"
  by (simp add: uadd64_def)

lemma uadd64_bound: "uadd64 a b < 2 ^ 64"
  by (simp add: uadd64_def)

lemma usub64_bound: "usub64 a b < 2 ^ 64"
  by (simp add: usub64_def)

lemma usub64_small [wrap_simps]:
  assumes "b \<le> a" and "a < 2 ^ 64"
  shows "usub64 a b = a - b"
proof -
  have "a + (2 ^ 64 - b mod 2 ^ 64) = (a - b) + 2 ^ 64"
    using assms by simp
  then have "usub64 a b = (a - b) mod 2 ^ 64"
    unfolding usub64_def by (simp only: mod_add_self2)
  then show ?thesis
    using assms by simp
qed

text \<open>An unsigned subtraction below zero yields a huge value.\<close>

lemma usub64_wrap:
  assumes "a < b" and "b < 2 ^ 64"
  shows "usub64 a b = 2 ^ 64 - (b - a)"
proof -
  have "a + (2 ^ 64 - b mod 2 ^ 64) = 2 ^ 64 - (b - a)"
    using assms by simp
  then show ?thesis
    using assms by (simp add: usub64_def)
qed

section \<open>Constants of global.h\<close>

abbreviation (input) g_block_size_bytes :: nat where "g_block_size_bytes \<equiv> 4096"
abbreviation (input) g_block_size_shift :: nat where "g_block_size_shift \<equiv> 12"
abbreviation (input) g_max_blocks_per_operation :: nat where "g_max_blocks_per_operation \<equiv> 4"
abbreviation (input) g_log_size :: nat where "g_log_size \<equiv> 32768"

section \<open>Return codes\<close>

abbreviation (input) EBUSY :: int where "EBUSY \<equiv> 16"
abbreviation (input) EEXIST :: int where "EEXIST \<equiv> 17"
abbreviation (input) EINVAL :: int where "EINVAL \<equiv> 22"
abbreviation (input) ENOSPC :: int where "ENOSPC \<equiv> 28"
abbreviation (input) ENOMEM :: int where "ENOMEM \<equiv> 12"

text \<open>
  \<open>panic\<close> and a failed \<open>mlfs_assert\<close> stop the process, and so does the use of a null
  pointer; the model returns the reason as a value. \<open>Diverges\<close> is a loop that exceeds the
  bound the model gives it; the lemmas on each loop show that it is not reached. \<open>Beyond\<close> is
  the call of a function, named by the string, at which the model ends.
\<close>

datatype fault = Panic string | Assert string | NullDeref | Diverges | Beyond string

primrec bindF :: "fault + 'a \<Rightarrow> ('a \<Rightarrow> fault + 'b) \<Rightarrow> fault + 'b" where
  "bindF (Inl e) f = Inl e"
| "bindF (Inr x) f = f x"

primrec deref :: "'a option \<Rightarrow> fault + 'a" where
  "deref None = Inl NullDeref"
| "deref (Some x) = Inr x"

lemma bindF_Inr: "bindF m f = Inr y \<longleftrightarrow> (\<exists>x. m = Inr x \<and> f x = Inr y)"
  by (cases m) simp_all

lemma deref_Inr: "deref x = Inr y \<longleftrightarrow> x = Some y"
  by (cases x) simp_all

section \<open>Lists in order\<close>

definition succ_in :: "'a list \<Rightarrow> 'a \<Rightarrow> 'a option" where
  "succ_in xs x = (case dropWhile (\<lambda>y. y \<noteq> x) xs of
     _ # y # _ \<Rightarrow> Some y | _ \<Rightarrow> None)"

definition pred_in :: "'a list \<Rightarrow> 'a \<Rightarrow> 'a option" where
  "pred_in xs x = succ_in (rev xs) x"

lemma succ_in_append [order_simps]:
  "x \<notin> set as \<Longrightarrow>
   succ_in (as @ x # bs) x = (case bs of [] \<Rightarrow> None | b # _ \<Rightarrow> Some b)"
  by (induction as) (auto simp: succ_in_def split: list.splits)

lemma pred_in_append [order_simps]:
  "x \<notin> set bs \<Longrightarrow>
   pred_in (as @ x # bs) x = (if as = [] then None else Some (last as))"
  by (cases as rule: rev_cases) (auto simp: pred_in_def order_simps)

lemma remove1_middle [order_simps]: "x \<notin> set as \<Longrightarrow> remove1 x (as @ x # bs) = as @ bs"
  by (simp add: remove1_append)

section \<open>Ordered collections walked by their successor function\<close>

text \<open>
  The contract between an ordered container and the code that scans it: the container
  has an order (a list without repetitions), the first and last element of that order,
  and the neighbours of an element. The client's scans are stated on the list.
\<close>

locale walk_order =
  fixes elems :: "'t \<Rightarrow> 'a list"
    and valid :: "'t \<Rightarrow> bool"
    and first_of :: "'t \<Rightarrow> 'a option"
    and last_of :: "'t \<Rightarrow> 'a option"
    and next_of :: "'t \<Rightarrow> 'a \<Rightarrow> 'a option"
    and prev_of :: "'t \<Rightarrow> 'a \<Rightarrow> 'a option"
  assumes first_of: "valid t \<Longrightarrow> first_of t = (case elems t of [] \<Rightarrow> None | x # _ \<Rightarrow> Some x)"
    and last_of: "valid t \<Longrightarrow> last_of t = (if elems t = [] then None else Some (last (elems t)))"
    and next_of: "valid t \<Longrightarrow> x \<in> set (elems t) \<Longrightarrow> next_of t x = succ_in (elems t) x"
    and prev_of: "valid t \<Longrightarrow> x \<in> set (elems t) \<Longrightarrow> prev_of t x = pred_in (elems t) x"
    and valid_distinct: "valid t \<Longrightarrow> distinct (elems t)"
begin

text \<open>What remains to be visited from an element on, and the step of a scan.\<close>

lemma next_of_split:
  assumes "valid t" and "elems t = as @ x # bs"
  shows "next_of t x = (case bs of [] \<Rightarrow> None | b # _ \<Rightarrow> Some b)"
  using assms valid_distinct [of t] by (simp add: next_of order_simps)

lemma prev_of_split:
  assumes "valid t" and "elems t = as @ x # bs"
  shows "prev_of t x = (if as = [] then None else Some (last as))"
  using assms valid_distinct [of t] by (simp add: prev_of order_simps)

lemma first_of_None: "valid t \<Longrightarrow> first_of t = None \<longleftrightarrow> elems t = []"
  by (simp add: first_of split: list.split)

lemma first_of_Some: "valid t \<Longrightarrow> first_of t = Some x \<Longrightarrow> \<exists>xs. elems t = x # xs"
  by (simp add: first_of split: list.split_asm)

lemma prev_next:
  assumes "valid t" and "x \<in> set (elems t)" and "next_of t x = Some y"
  shows "y \<in> set (elems t) \<and> prev_of t y = Some x"
proof -
  obtain as bs where split: "elems t = as @ x # bs"
    using assms(2) by (metis split_list)
  with assms obtain cs where "bs = y # cs"
    by (auto simp: next_of_split split: list.split_asm)
  with split have "elems t = (as @ [x]) @ y # cs"
    by simp
  with assms(1) prev_of_split [of t "as @ [x]" y cs] show ?thesis
    by simp
qed

end

section \<open>State machines\<close>

text \<open>
  A component that handles requests one after the other is a set of initial states and a
  step relation; what holds initially and is kept by every step holds in every state the
  component reaches.
\<close>

locale machine =
  fixes initial :: "'s \<Rightarrow> bool"
    and step :: "'s \<Rightarrow> 's \<Rightarrow> bool"
    and good :: "'s \<Rightarrow> bool"
  assumes good_initial: "initial s \<Longrightarrow> good s"
    and good_step: "good s \<Longrightarrow> step s s' \<Longrightarrow> good s'"
begin

lemma good_run: "step\<^sup>*\<^sup>* s s' \<Longrightarrow> good s \<Longrightarrow> good s'"
  by (induction rule: rtranclp_induct) (auto intro: good_step)

lemma good_reachable: "initial s \<Longrightarrow> step\<^sup>*\<^sup>* s s' \<Longrightarrow> good s'"
  using good_initial good_run by blast

end

end
