(* ===== verification/Rbtree.thy ===== *)
theory Rbtree
  imports Prelude
begin

text \<open>
  The red-black trees of \<open>src/libfs/src/ds/rbtree.c\<close>, \<open>rbtree.h\<close> and
  \<open>rbtree_augmented.h\<close>. The C code works on nodes with parent pointers. A position in the
  tree is modelled by the subtree found there and the path up to the root: one frame per
  ancestor, the innermost first, each holding what the ancestor's node stores apart from
  the child the position lies in. Walking to \<open>rb_parent\<close> removes a frame, and the tree
  seen from \<open>rb_root\<close> is the subtree plugged into its path. The elements stand for the
  addresses of the nodes. A null pointer that the code would follow is the result
  \<open>None\<close>; the lemmas show it does not arise in a red-black tree.
\<close>

section \<open>Nodes, positions and walks\<close>

datatype color = RB_RED | RB_BLACK

datatype 'a rb_tree = Leaf | Node color "'a rb_tree" 'a "'a rb_tree"

datatype 'a frame =
    LeftOf color 'a "'a rb_tree"
  | RightOf color "'a rb_tree" 'a

type_synonym 'a path = "'a frame list"

primrec plug1 :: "'a rb_tree \<Rightarrow> 'a frame \<Rightarrow> 'a rb_tree" where
  "plug1 t (LeftOf c p s) = Node c t p s"
| "plug1 t (RightOf c s p) = Node c s p t"

primrec plug :: "'a rb_tree \<Rightarrow> 'a path \<Rightarrow> 'a rb_tree" where
  "plug t [] = t"
| "plug t (f # fs) = plug (plug1 t f) fs"

primrec rb_color :: "'a rb_tree \<Rightarrow> color" where
  "rb_color Leaf = RB_BLACK"
| "rb_color (Node c _ _ _) = c"

text \<open>A non-null pointer to a red node, and a pointer that is null or black.\<close>

abbreviation rb_is_red :: "'a rb_tree \<Rightarrow> bool" where
  "rb_is_red t \<equiv> rb_color t = RB_RED"

primrec set_color :: "color \<Rightarrow> 'a rb_tree \<Rightarrow> 'a rb_tree" where
  "set_color c Leaf = Leaf"
| "set_color c (Node _ l x r) = Node c l x r"

primrec inorder :: "'a rb_tree \<Rightarrow> 'a list" where
  "inorder Leaf = []"
| "inorder (Node _ l x r) = inorder l @ x # inorder r"

primrec leftmost :: "'a rb_tree \<Rightarrow> 'a option" where
  "leftmost Leaf = None"
| "leftmost (Node _ l x _) = (if l = Leaf then Some x else leftmost l)"

primrec rightmost :: "'a rb_tree \<Rightarrow> 'a option" where
  "rightmost Leaf = None"
| "rightmost (Node _ _ x r) = (if r = Leaf then Some x else rightmost r)"

definition rb_first :: "'a rb_tree \<Rightarrow> 'a option" where
  "rb_first root = leftmost root"

definition rb_last :: "'a rb_tree \<Rightarrow> 'a option" where
  "rb_last root = rightmost root"

text \<open>Where a node with a given address lies in the tree.\<close>

fun rb_locate :: "'a \<Rightarrow> 'a rb_tree \<Rightarrow> 'a path \<Rightarrow> ('a rb_tree \<times> 'a path) option" where
  "rb_locate x Leaf fs = None"
| "rb_locate x (Node c l y r) fs =
     (if x = y then Some (Node c l y r, fs)
      else case rb_locate x l (LeftOf c y r # fs) of
             Some pos \<Rightarrow> Some pos
           | None \<Rightarrow> rb_locate x r (RightOf c l y # fs))"

text \<open>The upward loops of \<open>rb_next\<close> and \<open>rb_prev\<close>.\<close>

fun up_next :: "'a path \<Rightarrow> 'a option" where
  "up_next [] = None"
| "up_next (RightOf _ _ _ # fs) = up_next fs"
| "up_next (LeftOf _ p _ # fs) = Some p"

fun up_prev :: "'a path \<Rightarrow> 'a option" where
  "up_prev [] = None"
| "up_prev (LeftOf _ _ _ # fs) = up_prev fs"
| "up_prev (RightOf _ _ p # fs) = Some p"

definition rb_next :: "'a rb_tree \<Rightarrow> 'a \<Rightarrow> 'a option" where
  "rb_next root x =
     (case rb_locate x root [] of
        Some (Node c l y r, fs) \<Rightarrow> (if r \<noteq> Leaf then leftmost r else up_next fs)
      | _ \<Rightarrow> None)"

definition rb_prev :: "'a rb_tree \<Rightarrow> 'a \<Rightarrow> 'a option" where
  "rb_prev root x =
     (case rb_locate x root [] of
        Some (Node c l y r, fs) \<Rightarrow> (if l \<noteq> Leaf then rightmost l else up_prev fs)
      | _ \<Rightarrow> None)"

section \<open>Insertion\<close>

text \<open>
  The loop of \<open>__rb_insert\<close>: \<open>node\<close> is red, \<open>f\<close> is its parent's frame and \<open>g\<close> the
  grandparent's. Case 1 recolours and continues at the grandparent, case 2 rotates at the
  parent and falls into case 3, the rotation at the grandparent.
\<close>

fun rb_insert_loop :: "'a rb_tree \<Rightarrow> 'a path \<Rightarrow> 'a rb_tree option" where
  "rb_insert_loop node [] = Some (set_color RB_BLACK node)"
| "rb_insert_loop node [f] =
     (case f of
        LeftOf RB_BLACK p s \<Rightarrow> Some (plug1 node f)
      | RightOf RB_BLACK s p \<Rightarrow> Some (plug1 node f)
      | _ \<Rightarrow> None)"
| "rb_insert_loop node (f # LeftOf gc g u # fs) =
     (case f of
        LeftOf RB_BLACK p s \<Rightarrow> Some (plug node (f # LeftOf gc g u # fs))
      | RightOf RB_BLACK s p \<Rightarrow> Some (plug node (f # LeftOf gc g u # fs))
      | LeftOf RB_RED p s \<Rightarrow>
          if rb_is_red u
          then rb_insert_loop (Node RB_RED (Node RB_BLACK node p s) g (set_color RB_BLACK u)) fs
          else Some (plug (Node gc node p (Node RB_RED (set_color RB_BLACK s) g u)) fs)
      | RightOf RB_RED s p \<Rightarrow>
          if rb_is_red u
          then rb_insert_loop (Node RB_RED (Node RB_BLACK s p node) g (set_color RB_BLACK u)) fs
          else (case node of
                  Leaf \<Rightarrow> None
                | Node _ nl n nr \<Rightarrow>
                    Some (plug (Node gc (Node RB_RED s p (set_color RB_BLACK nl)) n
                                 (Node RB_RED (set_color RB_BLACK nr) g u)) fs)))"
| "rb_insert_loop node (f # RightOf gc u g # fs) =
     (case f of
        LeftOf RB_BLACK p s \<Rightarrow> Some (plug node (f # RightOf gc u g # fs))
      | RightOf RB_BLACK s p \<Rightarrow> Some (plug node (f # RightOf gc u g # fs))
      | RightOf RB_RED s p \<Rightarrow>
          if rb_is_red u
          then rb_insert_loop (Node RB_RED (set_color RB_BLACK u) g (Node RB_BLACK s p node)) fs
          else Some (plug (Node gc (Node RB_RED u g (set_color RB_BLACK s)) p node) fs)
      | LeftOf RB_RED p s \<Rightarrow>
          if rb_is_red u
          then rb_insert_loop (Node RB_RED (set_color RB_BLACK u) g (Node RB_BLACK node p s)) fs
          else (case node of
                  Leaf \<Rightarrow> None
                | Node _ nl n nr \<Rightarrow>
                    Some (plug (Node gc (Node RB_RED u g (set_color RB_BLACK nl)) n
                                 (Node RB_RED (set_color RB_BLACK nr) p s)) fs)))"

text \<open>\<open>rb_link_node\<close> makes a red node without children; \<open>rb_insert_color\<close> rebalances.\<close>

definition rb_link_insert :: "'a \<Rightarrow> 'a path \<Rightarrow> 'a rb_tree option" where
  "rb_link_insert x fs = rb_insert_loop (Node RB_RED Leaf x Leaf) fs"

text \<open>\<open>rb_insert\<close>: the descent by a comparison function, \<open>Inl\<close> the error code.\<close>

fun rb_insert_pos ::
  "('a \<Rightarrow> 'a \<Rightarrow> int) \<Rightarrow> 'a \<Rightarrow> 'a rb_tree \<Rightarrow> 'a path \<Rightarrow> 'a path option" where
  "rb_insert_pos cmp x Leaf fs = Some fs"
| "rb_insert_pos cmp x (Node c l y r) fs =
     (let result = cmp x y in
      if result < 0 then rb_insert_pos cmp x l (LeftOf c y r # fs)
      else if result > 0 then rb_insert_pos cmp x r (RightOf c l y # fs)
      else None)"

definition rb_insert ::
  "('a \<Rightarrow> 'a \<Rightarrow> int) \<Rightarrow> 'a rb_tree \<Rightarrow> 'a \<Rightarrow> (int + 'a rb_tree) option" where
  "rb_insert cmp root x =
     (case rb_insert_pos cmp x root [] of
        None \<Rightarrow> Some (Inl (- EEXIST))
      | Some fs \<Rightarrow> map_option Inr (rb_link_insert x fs))"

section \<open>Removal\<close>

text \<open>
  One round of \<open>____rb_erase_color\<close> at the frame of \<open>parent\<close>: \<open>node\<close> lacks one black
  node against its sibling. The sibling has no red child in case 2; cases 3 and 4 rotate.
\<close>

primrec nephews_black :: "'a rb_tree \<Rightarrow> bool" where
  "nephews_black Leaf = True"
| "nephews_black (Node _ l _ r) = (\<not> rb_is_red l \<and> \<not> rb_is_red r)"

fun erase_rotate_left :: "'a rb_tree \<Rightarrow> color \<Rightarrow> 'a \<Rightarrow> 'a rb_tree \<Rightarrow> 'a rb_tree option" where
  "erase_rotate_left node pc p (Node sc l s r) =
     (if rb_is_red r
      then Some (Node pc (Node RB_BLACK node p l) s (set_color RB_BLACK r))
      else (case l of
              Leaf \<Rightarrow> None
            | Node _ ll t lr \<Rightarrow>
                Some (Node pc (Node RB_BLACK node p ll) t
                       (Node RB_BLACK (set_color RB_BLACK lr) s r))))"
| "erase_rotate_left node pc p Leaf = None"

fun erase_rotate_right :: "'a rb_tree \<Rightarrow> color \<Rightarrow> 'a \<Rightarrow> 'a rb_tree \<Rightarrow> 'a rb_tree option" where
  "erase_rotate_right node pc p (Node sc l s r) =
     (if rb_is_red l
      then Some (Node pc (set_color RB_BLACK l) s (Node RB_BLACK r p node))
      else (case r of
              Leaf \<Rightarrow> None
            | Node _ rl t rr \<Rightarrow>
                Some (Node pc (Node RB_BLACK l s (set_color RB_BLACK rl)) t
                       (Node RB_BLACK rr p node))))"
| "erase_rotate_right node pc p Leaf = None"

fun rb_erase_loop :: "'a rb_tree \<Rightarrow> 'a path \<Rightarrow> 'a rb_tree option" where
  "rb_erase_loop node [] = Some node"
| "rb_erase_loop node (LeftOf pc p sibling # fs) =
     (case sibling of
        Leaf \<Rightarrow> None
      | Node RB_RED sl s sr \<Rightarrow>
          if sl = Leaf then None
          else let sibling' = set_color RB_BLACK sl in
            if nephews_black sibling'
            then Some (plug (Node RB_BLACK node p (set_color RB_RED sibling'))
                        (LeftOf pc s sr # fs))
            else map_option (\<lambda>t. plug t (LeftOf pc s sr # fs))
                   (erase_rotate_left node RB_RED p sibling')
      | Node RB_BLACK sl s sr \<Rightarrow>
          if nephews_black sibling
          then let t = Node RB_BLACK node p (set_color RB_RED sibling) in
            if pc = RB_RED then Some (plug t fs) else rb_erase_loop t fs
          else map_option (\<lambda>t. plug t fs) (erase_rotate_left node pc p sibling))"
| "rb_erase_loop node (RightOf pc sibling p # fs) =
     (case sibling of
        Leaf \<Rightarrow> None
      | Node RB_RED sl s sr \<Rightarrow>
          if sr = Leaf then None
          else let sibling' = set_color RB_BLACK sr in
            if nephews_black sibling'
            then Some (plug (Node RB_BLACK (set_color RB_RED sibling') p node)
                        (RightOf pc sl s # fs))
            else map_option (\<lambda>t. plug t (RightOf pc sl s # fs))
                   (erase_rotate_right node RB_RED p sibling')
      | Node RB_BLACK sl s sr \<Rightarrow>
          if nephews_black sibling
          then let t = Node RB_BLACK (set_color RB_RED sibling) p node in
            if pc = RB_RED then Some (plug t fs) else rb_erase_loop t fs
          else map_option (\<lambda>t. plug t fs) (erase_rotate_right node pc p sibling))"

text \<open>
  \<open>__rb_erase_augmented\<close>: the successor is the leftmost node of the right subtree, found
  with the frames below the right child.
\<close>

fun successor_pos :: "'a rb_tree \<Rightarrow> 'a path \<Rightarrow> (color \<times> 'a \<times> 'a rb_tree \<times> 'a path) option" where
  "successor_pos Leaf fs = None"
| "successor_pos (Node c l x r) fs =
     (if l = Leaf then Some (c, x, r, fs) else successor_pos l (LeftOf c x r # fs))"

definition rb_erase_at :: "'a rb_tree \<Rightarrow> 'a path \<Rightarrow> 'a rb_tree option" where
  "rb_erase_at node fs =
     (case node of
        Leaf \<Rightarrow> None
      | Node c l x r \<Rightarrow>
          if l = Leaf then
            (if r \<noteq> Leaf then Some (plug (set_color c r) fs)
             else if c = RB_BLACK then rb_erase_loop Leaf fs
             else Some (plug Leaf fs))
          else if r = Leaf then Some (plug (set_color c l) fs)
          else (case successor_pos r [] of
                  None \<Rightarrow> None
                | Some (sc, s, child2, ifs) \<Rightarrow>
                    let path = ifs @ RightOf c l s # fs in
                    if child2 \<noteq> Leaf then Some (plug (set_color RB_BLACK child2) path)
                    else if sc = RB_BLACK then rb_erase_loop Leaf path
                    else Some (plug Leaf path)))"

definition rb_erase :: "'a \<Rightarrow> 'a rb_tree \<Rightarrow> 'a rb_tree option" where
  "rb_erase x root =
     (case rb_locate x root [] of
        None \<Rightarrow> None
      | Some (node, fs) \<Rightarrow> rb_erase_at node fs)"

section \<open>Replacement and the postorder walk\<close>

definition rb_replace_node :: "'a \<Rightarrow> 'a \<Rightarrow> 'a rb_tree \<Rightarrow> 'a rb_tree option" where
  "rb_replace_node victim new root =
     (case rb_locate victim root [] of
        Some (Node c l y r, fs) \<Rightarrow> Some (plug (Node c l new r) fs)
      | _ \<Rightarrow> None)"

fun rb_left_deepest_node :: "'a rb_tree \<Rightarrow> 'a option" where
  "rb_left_deepest_node Leaf = None"
| "rb_left_deepest_node (Node _ l x r) =
     (if l \<noteq> Leaf then rb_left_deepest_node l
      else if r \<noteq> Leaf then rb_left_deepest_node r
      else Some x)"

definition rb_first_postorder :: "'a rb_tree \<Rightarrow> 'a option" where
  "rb_first_postorder root = rb_left_deepest_node root"

fun postorder_up :: "'a path \<Rightarrow> 'a option" where
  "postorder_up [] = None"
| "postorder_up (LeftOf _ p s # _) = (if s \<noteq> Leaf then rb_left_deepest_node s else Some p)"
| "postorder_up (RightOf _ _ p # _) = Some p"

definition rb_next_postorder :: "'a rb_tree \<Rightarrow> 'a \<Rightarrow> 'a option" where
  "rb_next_postorder root x =
     (case rb_locate x root [] of
        Some (_, fs) \<Rightarrow> postorder_up fs
      | None \<Rightarrow> None)"

section \<open>The red-black invariant\<close>

primrec invc :: "'a rb_tree \<Rightarrow> bool" where
  "invc Leaf = True"
| "invc (Node c l _ r) =
     (invc l \<and> invc r \<and> (c = RB_RED \<longrightarrow> rb_color l = RB_BLACK \<and> rb_color r = RB_BLACK))"

primrec bheight :: "'a rb_tree \<Rightarrow> nat" where
  "bheight Leaf = 0"
| "bheight (Node c l _ _) = (if c = RB_BLACK then Suc (bheight l) else bheight l)"

primrec invh :: "'a rb_tree \<Rightarrow> bool" where
  "invh Leaf = True"
| "invh (Node _ l _ r) = (bheight l = bheight r \<and> invh l \<and> invh r)"

definition rb_ok :: "'a rb_tree \<Rightarrow> bool" where
  "rb_ok t \<longleftrightarrow> invc t \<and> invh t \<and> rb_color t = RB_BLACK"

text \<open>What a path requires of the subtree plugged into it: its black height and its colour.\<close>

fun path_ok :: "nat \<Rightarrow> color \<Rightarrow> 'a path \<Rightarrow> bool" where
  "path_ok h c [] = (c = RB_BLACK)"
| "path_ok h c (LeftOf pc p s # fs) =
     (invc s \<and> invh s \<and> bheight s = h \<and>
      (pc = RB_RED \<longrightarrow> c = RB_BLACK \<and> rb_color s = RB_BLACK) \<and>
      path_ok (if pc = RB_BLACK then Suc h else h) pc fs)"
| "path_ok h c (RightOf pc s p # fs) =
     (invc s \<and> invh s \<and> bheight s = h \<and>
      (pc = RB_RED \<longrightarrow> c = RB_BLACK \<and> rb_color s = RB_BLACK) \<and>
      path_ok (if pc = RB_BLACK then Suc h else h) pc fs)"

text \<open>The elements before and after a position.\<close>

primrec frame_before :: "'a frame \<Rightarrow> 'a list" where
  "frame_before (LeftOf _ _ _) = []"
| "frame_before (RightOf _ s p) = inorder s @ [p]"

primrec frame_after :: "'a frame \<Rightarrow> 'a list" where
  "frame_after (LeftOf _ p s) = p # inorder s"
| "frame_after (RightOf _ _ _) = []"

primrec before :: "'a path \<Rightarrow> 'a list" where
  "before [] = []"
| "before (f # fs) = before fs @ frame_before f"

primrec after :: "'a path \<Rightarrow> 'a list" where
  "after [] = []"
| "after (f # fs) = frame_after f @ after fs"

primrec postorder :: "'a rb_tree \<Rightarrow> 'a list" where
  "postorder Leaf = []"
| "postorder (Node _ l x r) = postorder l @ postorder r @ [x]"

primrec frame_postafter :: "'a frame \<Rightarrow> 'a list" where
  "frame_postafter (LeftOf _ p s) = postorder s @ [p]"
| "frame_postafter (RightOf _ _ p) = [p]"

primrec postafter :: "'a path \<Rightarrow> 'a list" where
  "postafter [] = []"
| "postafter (f # fs) = frame_postafter f @ postafter fs"

primrec rb_height :: "'a rb_tree \<Rightarrow> nat" where
  "rb_height Leaf = 0"
| "rb_height (Node _ l _ r) = Suc (max (rb_height l) (rb_height r))"

text \<open>The trees a client can build: linking a fresh node at a null child, erasing, replacing.\<close>

inductive rb_step :: "'a rb_tree \<Rightarrow> 'a rb_tree \<Rightarrow> bool" where
  link: "plug Leaf fs = t \<Longrightarrow> x \<notin> set (inorder t) \<Longrightarrow> rb_link_insert x fs = Some t' \<Longrightarrow> rb_step t t'"
| erase: "rb_erase x t = Some t' \<Longrightarrow> rb_step t t'"
| replace: "y \<notin> set (inorder t) \<Longrightarrow> rb_replace_node x y t = Some t' \<Longrightarrow> rb_step t t'"

section \<open>Positions and plugging\<close>

lemma color_split: "c \<noteq> RB_RED \<longleftrightarrow> c = RB_BLACK" "c \<noteq> RB_BLACK \<longleftrightarrow> c = RB_RED"
  by (cases c; simp)+

lemma inorder_set_color [simp]: "inorder (set_color c t) = inorder t"
  by (cases t) simp_all

lemma inorder_Nil [simp]: "inorder t = [] \<longleftrightarrow> t = Leaf"
  by (cases t) simp_all

lemma invh_set_color [simp]: "invh (set_color c t) = invh t"
  by (cases t) simp_all

lemma invc_blacken [simp]: "invc t \<Longrightarrow> invc (set_color RB_BLACK t)"
  by (cases t) simp_all

lemma color_blacken [simp]: "rb_color (set_color RB_BLACK t) = RB_BLACK"
  by (cases t) simp_all

lemma blacken_black [simp]: "rb_color t = RB_BLACK \<Longrightarrow> set_color RB_BLACK t = t"
  by (cases t) simp_all

lemma set_color_Leaf [simp]: "set_color c t = Leaf \<longleftrightarrow> t = Leaf"
  by (cases t) simp_all

lemma inorder_plug [simp]: "inorder (plug t fs) = before fs @ inorder t @ after fs"
proof (induction fs arbitrary: t)
  case (Cons f fs)
  then show ?case by (cases f) simp_all
qed simp

lemma plug_append: "plug t (as @ bs) = plug (plug t as) bs"
  by (induction as arbitrary: t) simp_all

lemma before_append [simp]: "before (as @ bs) = before bs @ before as"
  by (induction as) simp_all

lemma after_append [simp]: "after (as @ bs) = after as @ after bs"
  by (induction as) simp_all

lemma path_ok_black: "path_ok h c fs \<Longrightarrow> path_ok h RB_BLACK fs"
  by (induction h c fs rule: path_ok.induct) auto

lemma rb_ok_plug:
  "rb_ok (plug t fs) \<longleftrightarrow> invc t \<and> invh t \<and> path_ok (bheight t) (rb_color t) fs"
proof (induction fs arbitrary: t)
  case Nil
  then show ?case by (simp add: rb_ok_def)
next
  case (Cons f fs)
  then show ?case by (cases f) (auto simp: color_split)
qed

lemma rb_locate_Some:
  "rb_locate x t fs = Some (n, gs) \<Longrightarrow>
     plug n gs = plug t fs \<and> (\<exists>c l r. n = Node c l x r)"
  by (induction x t fs arbitrary: n gs rule: rb_locate.induct)
    (auto split: if_splits option.splits)

lemma rb_locate_None: "rb_locate x t fs = None \<longleftrightarrow> x \<notin> set (inorder t)"
  by (induction x t fs rule: rb_locate.induct) (auto split: option.splits)

lemma rb_locate_cases:
  assumes "x \<in> set (inorder t)"
  obtains c l r fs where "rb_locate x t [] = Some (Node c l x r, fs)"
    and "t = plug (Node c l x r) fs"
  using assms rb_locate_None [of x t "[]"] rb_locate_Some [of x t "[]"] that
  by (metis not_None_eq plug.simps(1) surj_pair)

section \<open>Insertion keeps the invariant\<close>

lemma rb_insert_loop_ok:
  "invc n \<Longrightarrow> invh n \<Longrightarrow> rb_is_red n \<Longrightarrow> path_ok (bheight n) RB_BLACK fs \<Longrightarrow>
   \<exists>t. rb_insert_loop n fs = Some t \<and> rb_ok t \<and> inorder t = before fs @ inorder n @ after fs"
proof (induction n fs rule: rb_insert_loop.induct)
  case (1 node)
  then show ?case by (cases node) (auto simp: rb_ok_def)
next
  case (2 node f)
  then show ?case by (cases f) (auto simp: rb_ok_def split: color.splits)
next
  case (3 node f gc g u fs)
  obtain nl x nr where node: "node = Node RB_RED nl x nr"
    using "3.prems" by (cases node) auto
  show ?case
  proof (cases f)
    case (LeftOf pc p s)
    with 3 node show ?thesis
      by (cases pc; cases u) (auto simp: rb_ok_plug color_split dest: path_ok_black)
  next
    case (RightOf pc s p)
    with 3 node show ?thesis
      by (cases pc; cases u) (auto simp: rb_ok_plug color_split dest: path_ok_black)
  qed
next
  case (4 node f gc u g fs)
  obtain nl x nr where node: "node = Node RB_RED nl x nr"
    using "4.prems" by (cases node) auto
  show ?case
  proof (cases f)
    case (LeftOf pc p s)
    with 4 node show ?thesis
      by (cases pc; cases u) (auto simp: rb_ok_plug color_split dest: path_ok_black)
  next
    case (RightOf pc s p)
    with 4 node show ?thesis
      by (cases pc; cases u) (auto simp: rb_ok_plug color_split dest: path_ok_black)
  qed
qed

section \<open>Removal keeps the invariant\<close>

lemma erase_rotate_left_ok:
  assumes "invc n" "invh n" "invc s" "invh s" "rb_color s = RB_BLACK"
    and "bheight s = Suc (bheight n)" "\<not> nephews_black s"
  shows "\<exists>t. erase_rotate_left n pc p s = Some t \<and> invc t \<and> invh t \<and> rb_color t = pc \<and>
    bheight t = bheight (Node pc n p s) + 1 \<and> inorder t = inorder n @ p # inorder s"
proof (cases s)
  case (Node sc l x r)
  with assms show ?thesis
    by (cases l; cases r) (auto simp: color_split)
qed (use assms in simp)

lemma erase_rotate_right_ok:
  assumes "invc n" "invh n" "invc s" "invh s" "rb_color s = RB_BLACK"
    and "bheight s = Suc (bheight n)" "\<not> nephews_black s"
  shows "\<exists>t. erase_rotate_right n pc p s = Some t \<and> invc t \<and> invh t \<and> rb_color t = pc \<and>
    bheight t = bheight (Node pc s p n) \<and> inorder t = inorder s @ p # inorder n"
proof (cases s)
  case (Node sc l x r)
  with assms show ?thesis
    by (cases l; cases r) (auto simp: color_split)
qed (use assms in simp)

lemma redden_ok:
  assumes "invc s" "rb_color s = RB_BLACK" "nephews_black s" "bheight s = Suc h"
  shows "invc (set_color RB_RED s)" "bheight (set_color RB_RED s) = h"
  using assms by (cases s; simp add: color_split)+

lemma rb_erase_loop_ok:
  "invc n \<Longrightarrow> invh n \<Longrightarrow> rb_color n = RB_BLACK \<Longrightarrow> path_ok (Suc (bheight n)) RB_BLACK fs \<Longrightarrow>
   \<exists>t. rb_erase_loop n fs = Some t \<and> rb_ok t \<and> inorder t = before fs @ inorder n @ after fs"
proof (induction n fs rule: rb_erase_loop.induct)
  case (1 node)
  then show ?case by (simp add: rb_ok_def)
next
  case (2 node pc p sibling fs)
  then obtain sc sl s sr where s: "sibling = Node sc sl s sr"
    by (cases sibling) auto
  show ?case
  proof (cases sc)
    case RB_RED
    with "2.prems" s have near: "invc sl" "invh sl" "rb_color sl = RB_BLACK"
        "bheight sl = Suc (bheight node)" "sl \<noteq> Leaf"
      by auto
    show ?thesis
      using "2.prems" s RB_RED near redden_ok [OF near(1,3) _ near(4)]
        erase_rotate_left_ok [OF "2.prems"(1,2) near(1-4), of RB_RED p]
      by (cases "nephews_black sl") (auto simp: rb_ok_plug color_split)
  next
    case RB_BLACK
    with "2.prems" s have sib: "invc sibling" "invh sibling" "rb_color sibling = RB_BLACK"
        "bheight sibling = Suc (bheight node)"
      by auto
    show ?thesis
    proof (cases "nephews_black sibling")
      case True
      note red = redden_ok [OF sib(1,3) True sib(4)]
      show ?thesis
        using "2.prems" "2.IH" [OF s _ True refl] s RB_BLACK sib True red
        by (cases pc) (auto simp: rb_ok_plug dest: path_ok_black)
    next
      case False
      show ?thesis
        using "2.prems" s RB_BLACK sib False
          erase_rotate_left_ok [OF "2.prems"(1,2) sib False, of pc p]
        by (auto simp: rb_ok_plug simp del: erase_rotate_left.simps split: if_splits)
    qed
  qed
next
  case (3 node pc sibling p fs)
  then obtain sc sl s sr where s: "sibling = Node sc sl s sr"
    by (cases sibling) auto
  show ?case
  proof (cases sc)
    case RB_RED
    with "3.prems" s have near: "invc sr" "invh sr" "rb_color sr = RB_BLACK"
        "bheight sr = Suc (bheight node)" "sr \<noteq> Leaf"
      by auto
    show ?thesis
      using "3.prems" s RB_RED near redden_ok [OF near(1,3) _ near(4)]
        erase_rotate_right_ok [OF "3.prems"(1,2) near(1-4), of RB_RED p]
      by (cases "nephews_black sr") (auto simp: rb_ok_plug color_split)
  next
    case RB_BLACK
    with "3.prems" s have sib: "invc sibling" "invh sibling" "rb_color sibling = RB_BLACK"
        "bheight sibling = Suc (bheight node)"
      by auto
    show ?thesis
    proof (cases "nephews_black sibling")
      case True
      note red = redden_ok [OF sib(1,3) True sib(4)]
      show ?thesis
        using "3.prems" "3.IH" [OF s _ True refl] s RB_BLACK sib True red
        by (cases pc) (auto simp: rb_ok_plug dest: path_ok_black)
    next
      case False
      show ?thesis
        using "3.prems" s RB_BLACK sib False
          erase_rotate_right_ok [OF "3.prems"(1,2) sib False, of pc p]
        by (auto simp: rb_ok_plug simp del: erase_rotate_right.simps split: if_splits)
    qed
  qed
qed

lemma successor_pos_Some:
  "r \<noteq> Leaf \<Longrightarrow> \<exists>sc s child2 ifs. successor_pos r fs = Some (sc, s, child2, ifs) \<and>
     plug (Node sc Leaf s child2) ifs = plug r fs \<and>
     inorder r @ after fs = s # inorder child2 @ after ifs \<and>
     (\<exists>js. ifs = js @ fs \<and> before js = [])"
  by (induction r fs rule: successor_pos.induct) auto

text \<open>The two colourings of a node that is spliced out together with the child that replaces it.\<close>

lemma single_child:
  assumes "invc (Node c l x r)" "invh (Node c l x r)"
  shows "l = Leaf \<Longrightarrow> r \<noteq> Leaf \<Longrightarrow>
      c = RB_BLACK \<and> invc (set_color RB_BLACK r) \<and> invh r \<and> bheight (set_color RB_BLACK r) = 1"
    and "r = Leaf \<Longrightarrow> l \<noteq> Leaf \<Longrightarrow>
      c = RB_BLACK \<and> invc (set_color RB_BLACK l) \<and> invh l \<and> bheight (set_color RB_BLACK l) = 1"
  using assms by (cases r; cases l; auto simp: color_split split: if_splits)+

lemma unlink_ok:
  assumes "rb_ok (plug (Node c Leaf x child) fs)"
  shows "\<exists>t. (if child \<noteq> Leaf then Some (plug (set_color RB_BLACK child) fs)
              else if c = RB_BLACK then rb_erase_loop Leaf fs else Some (plug Leaf fs)) = Some t \<and>
    rb_ok t \<and> inorder t = before fs @ inorder child @ after fs"
proof (cases "child = Leaf")
  case True
  with assms show ?thesis
    using rb_erase_loop_ok [of Leaf fs]
    by (cases c) (auto simp: rb_ok_plug dest: path_ok_black)
next
  case False
  with assms single_child(1) [of c Leaf x child] show ?thesis
    by (auto simp: rb_ok_plug)
qed

lemma path_ok_rename:
  "path_ok h k (ifs @ RightOf c l x # fs) = path_ok h k (ifs @ RightOf c l y # fs)"
  by (induction h k ifs rule: path_ok.induct) auto

lemma rb_erase_at_ok:
  assumes ok: "rb_ok (plug (Node c l x r) fs)"
  shows "\<exists>t. rb_erase_at (Node c l x r) fs = Some t \<and> rb_ok t \<and>
    inorder t = before fs @ inorder l @ inorder r @ after fs"
proof (cases "l = Leaf \<or> r = Leaf")
  case True
  with ok single_child [of c l x r] unlink_ok [of c x r fs] show ?thesis
    by (auto simp: rb_erase_at_def rb_ok_plug)
next
  case False
  then obtain sc s child2 ifs where
    pos: "successor_pos r [] = Some (sc, s, child2, ifs)"
      "plug (Node sc Leaf s child2) ifs = r"
      "inorder r = s # inorder child2 @ after ifs" "before ifs = []"
    using successor_pos_Some [of r "[]"] by auto
  have "rb_ok (plug (Node sc Leaf s child2) (ifs @ RightOf c l x # fs))"
    using ok pos(2) by (simp add: plug_append)
  then have "rb_ok (plug (Node sc Leaf s child2) (ifs @ RightOf c l s # fs))"
    by (simp only: rb_ok_plug path_ok_rename [of _ _ _ _ _ x _ s])
  from unlink_ok [OF this] False pos show ?thesis
    by (simp add: rb_erase_at_def Let_def)
qed

lemma rb_link_insert_ok:
  assumes "rb_ok (plug Leaf fs)"
  shows "\<exists>t. rb_link_insert x fs = Some t \<and> rb_ok t \<and> inorder t = before fs @ x # after fs"
  using assms rb_insert_loop_ok [of "Node RB_RED Leaf x Leaf" fs]
  by (simp add: rb_link_insert_def rb_ok_plug)

lemma rb_erase_ok:
  assumes "rb_ok root" and "distinct (inorder root)" and "x \<in> set (inorder root)"
  shows "\<exists>t. rb_erase x root = Some t \<and> rb_ok t \<and> inorder t = remove1 x (inorder root)"
proof -
  obtain c l r fs where pos: "rb_locate x root [] = Some (Node c l x r, fs)"
    "root = plug (Node c l x r) fs"
    using rb_locate_cases assms(3) by metis
  have "inorder root = (before fs @ inorder l) @ x # inorder r @ after fs"
    using pos(2) by simp
  then have "remove1 x (inorder root) = before fs @ inorder l @ inorder r @ after fs"
    using assms(2) by (simp add: remove1_append)
  with rb_erase_at_ok [of c l x r fs] assms(1) pos show ?thesis
    by (simp add: rb_erase_def)
qed

section \<open>Walks visit the elements in order\<close>

lemma leftmost_inorder: "leftmost t = (case inorder t of [] \<Rightarrow> None | x # _ \<Rightarrow> Some x)"
proof (induction t)
  case (Node c l x r)
  then show ?case by (cases "inorder l") auto
qed simp

lemma rightmost_inorder:
  "rightmost t = (if inorder t = [] then None else Some (last (inorder t)))"
proof (induction t)
  case (Node c l x r)
  then show ?case by (cases r) auto
qed simp

lemma up_next_after: "up_next fs = (case after fs of [] \<Rightarrow> None | x # _ \<Rightarrow> Some x)"
  by (induction fs rule: up_next.induct) simp_all

lemma up_prev_before: "up_prev fs = (if before fs = [] then None else Some (last (before fs)))"
  by (induction fs rule: up_prev.induct) simp_all

lemma rb_next_inorder:
  assumes "distinct (inorder t)" and "x \<in> set (inorder t)"
  shows "rb_next t x = succ_in (inorder t) x"
proof -
  obtain c l r fs where pos: "rb_locate x t [] = Some (Node c l x r, fs)"
    and t: "t = plug (Node c l x r) fs"
    using rb_locate_cases assms(2) by metis
  have "inorder t = (before fs @ inorder l) @ x # inorder r @ after fs"
    using t by simp
  with assms(1) succ_in_append [of x "before fs @ inorder l" "inorder r @ after fs"] pos
  show ?thesis
    by (cases "inorder r") (auto simp: rb_next_def leftmost_inorder up_next_after)
qed

lemma rb_prev_inorder:
  assumes "distinct (inorder t)" and "x \<in> set (inorder t)"
  shows "rb_prev t x = pred_in (inorder t) x"
proof -
  obtain c l r fs where pos: "rb_locate x t [] = Some (Node c l x r, fs)"
    and t: "t = plug (Node c l x r) fs"
    using rb_locate_cases assms(2) by metis
  have "inorder t = (before fs @ inorder l) @ x # inorder r @ after fs"
    using t by simp
  with assms(1) pred_in_append [of x "inorder r @ after fs" "before fs @ inorder l"] pos
  show ?thesis
    by (auto simp: rb_prev_def rightmost_inorder up_prev_before)
qed

interpretation rb_walk: walk_order inorder "\<lambda>t. distinct (inorder t)" rb_first rb_last rb_next rb_prev
  by unfold_locales
    (simp_all add: rb_first_def rb_last_def leftmost_inorder rightmost_inorder
      rb_next_inorder rb_prev_inorder)

section \<open>The height is logarithmic\<close>

lemma size_bheight: "invh t \<Longrightarrow> 2 ^ bheight t \<le> length (inorder t) + 1"
proof (induction t)
  case (Node c l x r)
  then have "2 ^ bheight l + 2 ^ bheight r \<le> length (inorder l) + length (inorder r) + 2"
    by simp
  with Node.prems show ?case by (cases c) simp_all
qed simp

lemma height_bheight:
  "invc t \<Longrightarrow> invh t \<Longrightarrow>
   rb_height t \<le> 2 * bheight t + (if rb_color t = RB_RED then 1 else 0)"
  by (induction t) (auto simp: color_split split: if_splits)

lemma rb_height_bound:
  assumes "rb_ok t"
  shows "2 ^ rb_height t \<le> (length (inorder t) + 1) ^ 2"
proof -
  have "(2::nat) ^ rb_height t \<le> 2 ^ (2 * bheight t)"
    using assms height_bheight [of t] by (intro power_increasing) (auto simp: rb_ok_def)
  also have "\<dots> = (2 ^ bheight t) ^ 2"
    by (simp add: power_mult mult.commute [of 2])
  also have "\<dots> \<le> (length (inorder t) + 1) ^ 2"
    using assms size_bheight [of t] by (intro power_mono) (auto simp: rb_ok_def)
  finally show ?thesis .
qed

section \<open>Replacement and the postorder walk\<close>

lemma rb_replace_node_ok:
  assumes "rb_ok t" and "x \<in> set (inorder t)"
  obtains t' as bs where "rb_replace_node x y t = Some t'" and "rb_ok t'"
    and "inorder t = as @ x # bs" and "inorder t' = as @ y # bs"
proof -
  obtain c l r fs where pos: "rb_locate x t [] = Some (Node c l x r, fs)"
    and t: "t = plug (Node c l x r) fs"
    using rb_locate_cases assms(2) by metis
  show ?thesis
  proof (rule that)
    show "rb_replace_node x y t = Some (plug (Node c l y r) fs)"
      using pos by (simp add: rb_replace_node_def)
    show "rb_ok (plug (Node c l y r) fs)"
      using assms(1) t by (simp add: rb_ok_plug)
    show "inorder t = (before fs @ inorder l) @ x # inorder r @ after fs"
      using t by simp
  qed simp
qed

lemma rb_replace_node_None: "x \<notin> set (inorder t) \<Longrightarrow> rb_replace_node x y t = None"
  using rb_locate_None [of x t "[]"] by (simp add: rb_replace_node_def)

lemma rb_erase_None: "x \<notin> set (inorder t) \<Longrightarrow> rb_erase x t = None"
  using rb_locate_None [of x t "[]"] by (simp add: rb_erase_def)

lemma postorder_Nil [simp]: "postorder t = [] \<longleftrightarrow> t = Leaf"
  by (cases t) simp_all

lemma set_postorder [simp]: "set (postorder t) = set (inorder t)"
  by (induction t) auto

lemma left_deepest_postorder:
  "rb_left_deepest_node t = (case postorder t of [] \<Rightarrow> None | x # _ \<Rightarrow> Some x)"
  by (induction t rule: rb_left_deepest_node.induct)
    (auto split: list.splits simp: Cons_eq_append_conv)

lemma postorder_plug: "\<exists>as. postorder (plug t fs) = as @ postorder t @ postafter fs"
proof (induction fs arbitrary: t)
  case (Cons f fs)
  obtain as where "postorder (plug (plug1 t f) fs) = as @ postorder (plug1 t f) @ postafter fs"
    using Cons by blast
  then show ?case by (cases f) auto
qed simp

lemma postorder_up_after: "postorder_up fs = (case postafter fs of [] \<Rightarrow> None | x # _ \<Rightarrow> Some x)"
  by (cases fs rule: postorder_up.cases)
    (auto simp: left_deepest_postorder split: list.splits)

lemma distinct_postorder: "distinct (postorder t) \<longleftrightarrow> distinct (inorder t)"
  by (induction t) auto

lemma rb_next_postorder_succ:
  assumes "distinct (inorder t)" and "x \<in> set (inorder t)"
  shows "rb_next_postorder t x = succ_in (postorder t) x"
proof -
  obtain c l r fs where pos: "rb_locate x t [] = Some (Node c l x r, fs)"
    and t: "t = plug (Node c l x r) fs"
    using rb_locate_cases assms(2) by metis
  obtain as where post: "postorder t = (as @ postorder l @ postorder r) @ x # postafter fs"
    using postorder_plug [of "Node c l x r" fs] t by auto
  with assms(1) have "x \<notin> set (as @ postorder l @ postorder r)"
    by (metis distinct_postorder distinct_append disjoint_iff list.set_intros(1))
  with post pos show ?thesis
    using succ_in_append [of x "as @ postorder l @ postorder r" "postafter fs"]
    by (simp add: rb_next_postorder_def postorder_up_after)
qed

section \<open>The trees a client can build\<close>

interpretation rb_machine: machine "\<lambda>t. t = Leaf" rb_step "\<lambda>t. rb_ok t \<and> distinct (inorder t)"
proof unfold_locales
  fix t t' :: "'a rb_tree"
  assume "rb_ok t \<and> distinct (inorder t)" "rb_step t t'"
  from this(2,1) show "rb_ok t' \<and> distinct (inorder t')"
  proof (induction rule: rb_step.induct)
    case (link fs t x t')
    then show ?case using rb_link_insert_ok [of fs x] by auto
  next
    case (erase x t t')
    then show ?case
      using rb_erase_ok [of t x] rb_erase_None [of x t] by fastforce
  next
    case (replace y t x t')
    then have x: "x \<in> set (inorder t)" using rb_replace_node_None by fastforce
    with replace show ?case by (auto elim: rb_replace_node_ok [of t x y])
  qed
qed (simp add: rb_ok_def)

section \<open>Descent by a comparison function\<close>

definition ordered_by :: "('a \<Rightarrow> 'a \<Rightarrow> int) \<Rightarrow> ('a \<Rightarrow> bool) \<Rightarrow> 'a rb_tree \<Rightarrow> bool" where
  "ordered_by cmp valid t \<longleftrightarrow> sorted_wrt (\<lambda>a b. cmp a b < 0) (inorder t) \<and> (\<forall>x\<in>set (inorder t). valid x)"

lemma sorted_wrt_remove1_any: "sorted_wrt R xs \<Longrightarrow> sorted_wrt R (remove1 x xs)"
  by (induction xs) (auto dest: notin_set_remove1)

text \<open>
  The contract of the comparison callback that \<open>rb_insert\<close> takes: on the nodes that are
  \<open>valid\<close>, the sign of the result orders them.
\<close>

locale comparator =
  fixes cmp :: "'a \<Rightarrow> 'a \<Rightarrow> int"
    and valid :: "'a \<Rightarrow> bool"
  assumes cmp_swap: "valid a \<Longrightarrow> valid b \<Longrightarrow> cmp a b < 0 \<longleftrightarrow> cmp b a > 0"
    and cmp_trans: "valid a \<Longrightarrow> valid b \<Longrightarrow> valid c \<Longrightarrow> cmp a b < 0 \<Longrightarrow> cmp b c < 0 \<Longrightarrow> cmp a c < 0"
    and cmp_zero: "valid a \<Longrightarrow> valid b \<Longrightarrow> cmp a b = 0 \<longleftrightarrow> a = b"
begin

lemma ordered_Leaf [simp]: "ordered_by cmp valid Leaf"
  by (simp add: ordered_by_def)

lemma ordered_Node: "ordered_by cmp valid (Node c l y r) \<longleftrightarrow> ordered_by cmp valid l \<and> ordered_by cmp valid r \<and> valid y \<and>
    (\<forall>z\<in>set (inorder l). cmp z y < 0) \<and> (\<forall>z\<in>set (inorder r). cmp y z < 0)"
proof
  assume o: "ordered_by cmp valid l \<and> ordered_by cmp valid r \<and> valid y \<and> (\<forall>z\<in>set (inorder l). cmp z y < 0) \<and> (\<forall>z\<in>set (inorder r). cmp y z < 0)"
  then have "cmp a b < 0" if "a \<in> set (inorder l)" "b \<in> set (inorder r)" for a b
    using that cmp_trans [of a y b] by (auto simp: ordered_by_def)
  with o show "ordered_by cmp valid (Node c l y r)" by (auto simp: ordered_by_def sorted_wrt_append)
qed (auto simp: ordered_by_def sorted_wrt_append)

lemma ordered_distinct: "ordered_by cmp valid t \<Longrightarrow> distinct (inorder t)"
proof (induction t)
  case (Node c l y r)
  then have *: "\<forall>z\<in>set (inorder l). cmp z y < 0 \<and> valid z" "\<forall>z\<in>set (inorder r). cmp y z < 0 \<and> valid z" "valid y"
    by (auto simp: ordered_Node) (auto simp: ordered_by_def)
  have "y \<notin> set (inorder l)" "y \<notin> set (inorder r)" using * cmp_zero [of y y] by auto
  moreover have "set (inorder l) \<inter> set (inorder r) = {}"
    using * cmp_swap by fastforce
  ultimately show ?case using Node by (auto simp: ordered_Node)
qed simp

lemma ordered_remove1: "ordered_by cmp valid t \<Longrightarrow> inorder t' = remove1 x (inorder t) \<Longrightarrow> ordered_by cmp valid t'"
  unfolding ordered_by_def by (auto intro: sorted_wrt_remove1_any dest: notin_set_remove1)

lemma insert_pos_ok:
  "ordered_by cmp valid t \<Longrightarrow> valid x \<Longrightarrow>
   (case rb_insert_pos cmp x t fs of
      None \<Rightarrow> x \<in> set (inorder t)
    | Some gs \<Rightarrow> x \<notin> set (inorder t) \<and> plug Leaf gs = plug t fs \<and>
        (\<exists>as bs. inorder t = as @ bs \<and> before gs = before fs @ as \<and> after gs = bs @ after fs \<and>
          (\<forall>a\<in>set as. cmp a x < 0) \<and> (\<forall>b\<in>set bs. cmp x b < 0)))"
proof (induction t arbitrary: fs)
  case (Node c l y r)
  then have *: "\<forall>z\<in>set (inorder l). cmp z y < 0 \<and> valid z" "\<forall>z\<in>set (inorder r). cmp y z < 0 \<and> valid z" "valid y"
    by (auto simp: ordered_Node) (auto simp: ordered_by_def)
  consider "cmp x y < 0" | "cmp x y > 0" | "x = y" using cmp_zero Node.prems(2) *(3) by force
  then show ?case
  proof cases
    case 1
    have gt: "\<forall>z\<in>set (y # inorder r). cmp x z < 0" using 1 * cmp_trans [of x y] Node.prems(2) by auto
    then have "x \<notin> set (y # inorder r)" using cmp_zero [of x x] Node.prems(2) by auto
    with Node.IH(1) [of "LeftOf c y r # fs"] Node.prems 1 gt show ?thesis
      by (auto simp: ordered_Node split: option.splits)
  next
    case 2
    then have "cmp y x < 0" using cmp_swap Node.prems(2) *(3) by blast
    then have lt: "\<forall>z\<in>set (inorder l @ [y]). cmp z x < 0" using * cmp_trans [of _ y x] Node.prems(2) by auto
    then have "x \<notin> set (inorder l @ [y])" using cmp_zero [of x x] Node.prems(2) by auto
    with Node.IH(2) [of "RightOf c l y # fs"] Node.prems 2 lt show ?thesis
      by (auto simp: ordered_Node split: option.splits)
  next
    case 3
    then show ?thesis using cmp_zero [of y y] *(3) by simp
  qed
qed simp

lemma insert_ok:
  assumes "rb_ok t" "ordered_by cmp valid t" "valid x"
  shows "if x \<in> set (inorder t) then rb_insert cmp t x = Some (Inl (- EEXIST))
    else \<exists>t'. rb_insert cmp t x = Some (Inr t') \<and> rb_ok t' \<and> ordered_by cmp valid t' \<and> set (inorder t') = insert x (set (inorder t))"
proof (cases "rb_insert_pos cmp x t []")
  case None
  with insert_pos_ok [OF assms(2,3), of "[]"] show ?thesis by (simp add: rb_insert_def)
next
  case (Some gs)
  obtain as bs where split: "inorder t = as @ bs" "before gs = as" "after gs = bs" "x \<notin> set (inorder t)"
    "\<forall>a\<in>set as. cmp a x < 0" "\<forall>b\<in>set bs. cmp x b < 0" "plug Leaf gs = t"
    using insert_pos_ok [OF assms(2,3), of "[]"] Some by auto
  obtain t' where t': "rb_link_insert x gs = Some t'" "rb_ok t'" "inorder t' = as @ x # bs"
    using rb_link_insert_ok [of gs x] assms(1) split by auto
  have "ordered_by cmp valid t'" using assms(2,3) split t'(3) by (auto simp: ordered_by_def sorted_wrt_append)
  then show ?thesis using Some split t' by (auto simp: rb_insert_def)
qed

end

section \<open>Correctness of the tree operations\<close>

text \<open>
  C5: every tree built from the empty root by linking fresh nodes (\<open>rb_link_node\<close> and
  \<open>rb_insert_color\<close>), by \<open>rb_erase\<close> and by \<open>rb_replace_node\<close> is a red-black tree: the
  root is black, a red node has no red child, all paths to a null child have the same
  number of black nodes; its height is at most twice the binary logarithm of the number of
  nodes plus one.
\<close>

theorem rb_reachable_balanced:
  assumes "rb_step\<^sup>*\<^sup>* Leaf t"
  shows "rb_ok t \<and> distinct (inorder t) \<and> 2 ^ rb_height t \<le> (length (inorder t) + 1) ^ 2"
  using rb_machine.good_reachable [OF refl assms] rb_height_bound by blast

theorem rb_reachable_balanced_witness:
  "\<exists>t :: nat rb_tree. rb_step\<^sup>*\<^sup>* Leaf t \<and> inorder t = [1, 2] \<and> rb_ok t \<and>
     2 ^ rb_height t \<le> (length (inorder t) + 1) ^ 2"
proof -
  let ?t1 = "Node RB_BLACK Leaf (1::nat) Leaf"
  let ?t2 = "Node RB_BLACK Leaf (1::nat) (Node RB_RED Leaf 2 Leaf)"
  have "rb_step Leaf ?t1"
    by (rule rb_step.link [of "[]" _ 1]) (simp_all add: rb_link_insert_def)
  moreover have "rb_step ?t1 ?t2"
    by (rule rb_step.link [of "[RightOf RB_BLACK Leaf 1]" _ 2]) (simp_all add: rb_link_insert_def)
  ultimately have reach: "rb_step\<^sup>*\<^sup>* Leaf ?t2"
    by (metis rtranclp.rtrancl_into_rtrancl rtranclp.rtrancl_refl)
  with rb_reachable_balanced [OF reach] show ?thesis
    by (intro exI [of _ ?t2]) simp
qed

text \<open>
  C6: \<open>rb_erase\<close> of a node of a red-black tree follows no null pointer, unlinks exactly
  that node, keeps the order of the others, and leaves a red-black tree.
\<close>

theorem rb_erase_correct:
  assumes "rb_ok root" and "distinct (inorder root)" and "x \<in> set (inorder root)"
  shows "\<exists>t. rb_erase x root = Some t \<and> rb_ok t \<and> inorder t = remove1 x (inorder root) \<and>
    x \<notin> set (inorder t)"
  using rb_erase_ok [OF assms] assms(2) by auto

theorem rb_erase_correct_witness:
  "\<exists>t. rb_erase 2 (Node RB_BLACK (Node RB_BLACK Leaf (1::nat) Leaf) 2
         (Node RB_BLACK Leaf 3 (Node RB_RED Leaf 4 Leaf))) = Some t \<and> rb_ok t \<and>
       inorder t = [1, 3, 4]"
  using rb_erase_correct [of "Node RB_BLACK (Node RB_BLACK Leaf (1::nat) Leaf) 2
         (Node RB_BLACK Leaf 3 (Node RB_RED Leaf 4 Leaf))" 2]
  by (auto simp: rb_ok_def)

text \<open>
  C9: the walks. In a tree of distinct nodes \<open>rb_first\<close> and \<open>rb_last\<close> are the ends of
  the in-order sequence, \<open>rb_next\<close> and \<open>rb_prev\<close> are the neighbours in it and inverse to
  each other, and \<open>rb_next_postorder\<close> is the neighbour in the postorder sequence.
\<close>

theorem rb_walk_correct:
  assumes "distinct (inorder t)" and "x \<in> set (inorder t)"
  shows "rb_first t = Some (hd (inorder t)) \<and> rb_last t = Some (last (inorder t)) \<and>
    rb_next t x = succ_in (inorder t) x \<and> rb_prev t x = pred_in (inorder t) x \<and>
    (\<forall>y. rb_next t x = Some y \<longrightarrow> rb_prev t y = Some x) \<and>
    rb_first_postorder t = Some (hd (postorder t)) \<and>
    rb_next_postorder t x = succ_in (postorder t) x"
proof -
  have "t \<noteq> Leaf" using assms(2) by auto
  then show ?thesis
    using assms rb_walk.prev_next [of t x]
    by (auto simp: rb_walk.first_of rb_walk.last_of rb_next_inorder rb_prev_inorder
        rb_next_postorder_succ rb_first_postorder_def left_deepest_postorder split: list.split)
qed

theorem rb_walk_correct_witness:
  "rb_next (Node RB_BLACK (Node RB_RED Leaf (1::nat) Leaf) 2 (Node RB_RED Leaf 3 Leaf)) 1 = Some 2 \<and>
   rb_next_postorder (Node RB_BLACK (Node RB_RED Leaf (1::nat) Leaf) 2 (Node RB_RED Leaf 3 Leaf)) 1
     = Some 3"
  using rb_walk_correct [of "Node RB_BLACK (Node RB_RED Leaf (1::nat) Leaf) 2 (Node RB_RED Leaf 3 Leaf)" 1]
  by (simp add: succ_in_def)

end
