(* ===== verification/Balloc.thy ===== *)
theory Balloc
  imports Rbtree
begin

text \<open>
  The free lists of the block allocator, \<open>src/libfs/src/io/balloc.c\<close>: each partition keeps
  its free blocks as range nodes in a red-black tree. A range node is an address; what it
  stores is in an explicit store, because the tree, the cached \<open>first_node\<close> and the caller
  share the nodes and the operations change them in place. The result of \<open>mlfs_alloc\<close> is an
  argument (\<open>None\<close> the null pointer). The mutex of a list makes each operation on it one
  step. Statistics are kept; log output is not.
\<close>

section \<open>State\<close>

record range_node =
  range_low :: nat
  range_high :: nat

type_synonym node_store = "nat \<rightharpoonup> range_node"

record free_list =
  fl_id :: nat
  block_free_tree :: "nat rb_tree"
  first_node :: "nat option"
  block_start :: nat
  block_end :: nat
  num_free_blocks :: nat
  num_blocknode :: nat
  alloc_log_count :: nat
  alloc_data_count :: nat
  free_log_count :: nat
  free_data_count :: nat
  alloc_log_pages :: nat
  alloc_data_pages :: nat
  freed_log_pages :: nat
  freed_data_pages :: nat

record super_block =
  free_lists :: "free_list list"
  per_list_blocks :: nat
  shared_free_list :: free_list
  num_blocks :: nat
  reserved_blocks :: nat
  n_partition :: nat
  range_nodes :: node_store

datatype alloc_type = TREE | DATA | DATA_LOG

abbreviation (input) SHARED_PARTITION :: nat where "SHARED_PARTITION \<equiv> 65536"

abbreviation low_of :: "node_store \<Rightarrow> nat \<Rightarrow> nat" where
  "low_of h a \<equiv> range_low (the (h a))"

abbreviation high_of :: "node_store \<Rightarrow> nat \<Rightarrow> nat" where
  "high_of h a \<equiv> range_high (the (h a))"

section \<open>Searching and inserting\<close>

definition mlfs_get_free_list :: "super_block \<Rightarrow> nat \<Rightarrow> free_list" where
  "mlfs_get_free_list sb cpu =
     (if cpu < n_partition sb then free_lists sb ! cpu else shared_free_list sb)"

definition set_free_list :: "super_block \<Rightarrow> nat \<Rightarrow> free_list \<Rightarrow> super_block" where
  "set_free_list sb cpu fl =
     (if cpu < n_partition sb then sb\<lparr>free_lists := (free_lists sb)[cpu := fl]\<rparr>
      else sb\<lparr>shared_free_list := fl\<rparr>)"

definition mlfs_rbtree_compare_rangenode :: "range_node \<Rightarrow> nat \<Rightarrow> int" where
  "mlfs_rbtree_compare_rangenode node low =
     (if low < range_low node then - 1 else if low > range_high node then 1 else 0)"

fun range_insert_pos ::
  "node_store \<Rightarrow> nat \<Rightarrow> nat rb_tree \<Rightarrow> nat path \<Rightarrow> nat path option" where
  "range_insert_pos h low Leaf fs = Some fs"
| "range_insert_pos h low (Node c l a r) fs =
     (let compVal = mlfs_rbtree_compare_rangenode (the (h a)) low in
      if compVal = - 1 then range_insert_pos h low l (LeftOf c a r # fs)
      else if compVal = 1 then range_insert_pos h low r (RightOf c l a # fs)
      else None)"

definition mlfs_insert_range_node ::
  "node_store \<Rightarrow> nat rb_tree \<Rightarrow> nat \<Rightarrow> fault + int \<times> nat rb_tree" where
  "mlfs_insert_range_node h tree new_node =
     (case range_insert_pos h (low_of h new_node) tree [] of
        None \<Rightarrow> Inr (- EINVAL, tree)
      | Some fs \<Rightarrow> bindF (deref (rb_link_insert new_node fs)) (\<lambda>tree'. Inr (0, tree')))"

definition mlfs_insert_blocktree ::
  "node_store \<Rightarrow> nat rb_tree \<Rightarrow> nat \<Rightarrow> fault + int \<times> nat rb_tree" where
  "mlfs_insert_blocktree h tree new_node = mlfs_insert_range_node h tree new_node"

text \<open>The search returns whether the block lies in a node, and the last node it visited.\<close>

fun find_range_loop ::
  "node_store \<Rightarrow> nat \<Rightarrow> nat rb_tree \<Rightarrow> nat option \<Rightarrow> bool \<times> nat option" where
  "find_range_loop h low Leaf last_node = (False, last_node)"
| "find_range_loop h low (Node c l a r) last_node =
     (let compVal = mlfs_rbtree_compare_rangenode (the (h a)) low in
      if compVal = - 1 then find_range_loop h low l (Some a)
      else if compVal = 1 then find_range_loop h low r (Some a)
      else (True, Some a))"

definition mlfs_find_range_node :: "node_store \<Rightarrow> nat rb_tree \<Rightarrow> nat \<Rightarrow> bool \<times> nat option" where
  "mlfs_find_range_node h tree low = find_range_loop h low tree None"

definition mlfs_find_free_slot ::
  "node_store \<Rightarrow> nat rb_tree \<Rightarrow> nat \<Rightarrow> nat \<Rightarrow> int + nat option \<times> nat option" where
  "mlfs_find_free_slot h tree low high =
     (case mlfs_find_range_node h tree low of
        (True, _) \<Rightarrow> Inl (- EINVAL)
      | (False, None) \<Rightarrow> Inr (None, None)
      | (False, Some ret_node) \<Rightarrow>
          if high_of h ret_node < low then Inr (Some ret_node, rb_next tree ret_node)
          else if low_of h ret_node > high then Inr (rb_prev tree ret_node, Some ret_node)
          else Inl (- EINVAL))"

section \<open>Freeing\<close>

definition aligns_left :: "node_store \<Rightarrow> nat \<Rightarrow> nat option \<Rightarrow> bool" where
  "aligns_left h block_low prev =
     (case prev of None \<Rightarrow> False | Some p \<Rightarrow> block_low = high_of h p + 1)"

definition aligns_right :: "node_store \<Rightarrow> nat \<Rightarrow> nat option \<Rightarrow> bool" where
  "aligns_right h block_high next =
     (case next of None \<Rightarrow> False | Some n \<Rightarrow> block_high + 1 = low_of h n)"

text \<open>The accounting after the label \<open>block_found\<close>.\<close>

definition block_found :: "bool \<Rightarrow> nat \<Rightarrow> free_list \<Rightarrow> free_list" where
  "block_found log_page n fl =
     (let fl = fl\<lparr>num_free_blocks := num_free_blocks fl + n\<rparr> in
      if log_page
      then fl\<lparr>free_log_count := free_log_count fl + 1,
              freed_log_pages := freed_log_pages fl + n\<rparr>
      else fl\<lparr>free_data_count := free_data_count fl + 1,
              freed_data_pages := freed_data_pages fl + n\<rparr>)"

text \<open>
  The part of \<open>mlfs_free_blocks_node\<close> under the lock of the free list; \<open>curr_node\<close> is the
  node allocated in advance and \<open>n\<close> is positive.
\<close>

definition free_blocks_locked ::
  "node_store \<Rightarrow> free_list \<Rightarrow> nat \<Rightarrow> nat \<Rightarrow> bool \<Rightarrow> nat \<Rightarrow> fault + int \<times> node_store \<times> free_list" where
  "free_blocks_locked h fl block_low n log_page curr_node =
     (let tree = block_free_tree fl; block_high = block_low + n - 1 in
      case mlfs_find_free_slot h tree block_low block_high of
        Inl err \<Rightarrow> Inr (err, h(curr_node := None), fl)
      | Inr (prev, next) \<Rightarrow>
          if aligns_left h block_low prev \<and> aligns_right h block_high next then
            bindF (deref (rb_erase (the next) tree)) (\<lambda>tree'.
              let p = the prev; q = the next in
              Inr (0, h(p \<mapsto> (the (h p))\<lparr>range_high := high_of h q\<rparr>,
                        q := None, curr_node := None),
                   block_found log_page n
                     (fl\<lparr>block_free_tree := tree', num_blocknode := num_blocknode fl - 1\<rparr>)))
          else if aligns_left h block_low prev then
            let p = the prev in
            Inr (0, h(p \<mapsto> (the (h p))\<lparr>range_high := high_of h p + n\<rparr>, curr_node := None),
                 block_found log_page n fl)
          else if aligns_right h block_high next then
            let q = the next in
            Inr (0, h(q \<mapsto> (the (h q))\<lparr>range_low := low_of h q - n\<rparr>, curr_node := None),
                 block_found log_page n fl)
          else
            let h' = h(curr_node \<mapsto> \<lparr>range_low = block_low, range_high = block_high\<rparr>) in
            bindF (mlfs_insert_blocktree h' tree curr_node) (\<lambda>(ret, tree').
              if ret \<noteq> 0 then Inr (ret, h(curr_node := None), fl)
              else Inr (0, h', block_found log_page n
                     (fl\<lparr>block_free_tree := tree',
                         first_node := (if prev = None then Some curr_node else first_node fl),
                         num_blocknode := num_blocknode fl + 1\<rparr>))))"

definition mlfs_free_blocks_node ::
  "nat option \<Rightarrow> super_block \<Rightarrow> nat \<Rightarrow> int \<Rightarrow> bool \<Rightarrow> fault + int \<times> super_block" where
  "mlfs_free_blocks_node malloc sb blocknr num log_page =
     (if num \<le> 0 then Inr (- EINVAL, sb)
      else if per_list_blocks sb = 0 then Inl (Panic ''division by zero'')
      else
        let lid = blocknr div per_list_blocks sb;
            lid = (if lid \<ge> n_partition sb then SHARED_PARTITION else lid) in
        case malloc of
          None \<Rightarrow> Inr (- ENOMEM, sb)
        | Some curr_node \<Rightarrow>
            bindF (free_blocks_locked (range_nodes sb) (mlfs_get_free_list sb lid) blocknr
                     (nat num) log_page curr_node) (\<lambda>(ret, h, fl).
              Inr (ret, (set_free_list sb lid fl)\<lparr>range_nodes := h\<rparr>)))"

section \<open>Allocating\<close>

text \<open>
  The loop of \<open>mlfs_alloc_blocks_in_free_list\<close> passes over the nodes that are too small;
  \<open>None\<close> is the end of the tree. The bound counts the nodes visited.
\<close>

definition curr_blocks :: "node_store \<Rightarrow> nat \<Rightarrow> nat" where
  "curr_blocks h a = uadd64 (usub64 (high_of h a) (low_of h a)) 1"

fun alloc_scan ::
  "node_store \<Rightarrow> nat rb_tree \<Rightarrow> nat \<Rightarrow> nat \<Rightarrow> nat option \<Rightarrow> fault + nat option" where
  "alloc_scan h tree n bound None = Inr None"
| "alloc_scan h tree n 0 (Some a) = Inl Diverges"
| "alloc_scan h tree n (Suc bound) (Some a) =
     (if n > curr_blocks h a then alloc_scan h tree n bound (rb_next tree a)
      else Inr (Some a))"

definition ENOSPC_ulong :: nat where
  "ENOSPC_ulong = 2 ^ 64 - 28"

definition mlfs_alloc_blocks_in_free_list ::
  "node_store \<Rightarrow> free_list \<Rightarrow> alloc_type \<Rightarrow> nat \<Rightarrow> nat \<Rightarrow>
   fault + nat \<times> nat \<times> node_store \<times> free_list" where
  "mlfs_alloc_blocks_in_free_list h fl atype n new_blocknr =
     (let tree = block_free_tree fl;
          start = (if atype = TREE then rb_last tree else first_node fl);
          taken = (\<lambda>fl. fl\<lparr>num_free_blocks := usub64 (num_free_blocks fl) n\<rparr>) in
      bindF (alloc_scan h tree n (length (inorder tree)) start) (\<lambda>fit.
        case fit of
          None \<Rightarrow> Inr (ENOSPC_ulong, new_blocknr, h, taken fl)
        | Some a \<Rightarrow>
            if n = curr_blocks h a then
              let first' = (if first_node fl = Some a then rb_next tree a else first_node fl) in
              bindF (deref (rb_erase a tree)) (\<lambda>tree'.
                Inr (n, low_of h a, h(a := None),
                     taken (fl\<lparr>first_node := first', block_free_tree := tree',
                                num_blocknode := num_blocknode fl - 1\<rparr>)))
            else if atype = TREE then
              Inr (n, high_of h a,
                   h(a \<mapsto> (the (h a))\<lparr>range_high := high_of h a - n\<rparr>), taken fl)
            else
              Inr (n, low_of h a,
                   h(a \<mapsto> (the (h a))\<lparr>range_low := low_of h a + n\<rparr>), taken fl)))"

fun find_free_list_from :: "free_list list \<Rightarrow> nat \<Rightarrow> nat \<Rightarrow> nat option" where
  "find_free_list_from [] num i = None"
| "find_free_list_from (fl # fls) num i =
     (if num_free_blocks fl > num then Some i else find_free_list_from fls num (Suc i))"

text \<open>\<open>mlfs_find_free_list\<close>: both branches of the source run the same loop; \<open>None\<close> is \<open>-1\<close>.\<close>

definition mlfs_find_free_list :: "super_block \<Rightarrow> nat \<Rightarrow> alloc_type \<Rightarrow> nat option" where
  "mlfs_find_free_list sb num atype =
     (if atype = DATA_LOG
      then find_free_list_from (take (n_partition sb) (free_lists sb)) num 0
      else find_free_list_from (take (n_partition sb) (free_lists sb)) num 0)"

text \<open>The statistics of an allocation.\<close>

definition alloc_stats :: "alloc_type \<Rightarrow> nat \<Rightarrow> free_list \<Rightarrow> free_list" where
  "alloc_stats atype n fl = (case atype of
      TREE \<Rightarrow> fl\<lparr>alloc_log_count := alloc_log_count fl + 1,
                 alloc_log_pages := uadd64 (alloc_log_pages fl) n\<rparr>
    | DATA \<Rightarrow> fl\<lparr>alloc_data_count := alloc_data_count fl + 1,
                 alloc_data_pages := uadd64 (alloc_data_pages fl) n\<rparr>
    | DATA_LOG \<Rightarrow> fl)"

text \<open>What follows the retry loop of \<open>mlfs_new_blocks\<close>: the locked allocation and its statistics.\<close>

definition new_blocks_in ::
  "super_block \<Rightarrow> nat \<Rightarrow> free_list \<Rightarrow> nat \<Rightarrow> bool \<Rightarrow> alloc_type \<Rightarrow>
   fault + int \<times> nat option \<times> super_block" where
  "new_blocks_in sb lid fl num zero atype =
     bindF (mlfs_alloc_blocks_in_free_list (range_nodes sb) fl atype num 0)
       (\<lambda>(ret_blocks, new_blocknr, h, fl).
         let fl = alloc_stats atype ret_blocks fl;
             sb' = (set_free_list sb lid fl)\<lparr>range_nodes := h\<rparr> in
         if ret_blocks = 0 \<or> new_blocknr = 0 then Inr (- ENOSPC, None, sb')
         else if zero then Inl (Panic ''Unsupported code path'')
         else Inr (int ret_blocks, Some new_blocknr, sb'))"

function new_blocks_retry ::
  "super_block \<Rightarrow> nat \<Rightarrow> bool \<Rightarrow> alloc_type \<Rightarrow> nat \<Rightarrow> nat \<Rightarrow>
   fault + int \<times> nat option \<times> super_block" where
  "new_blocks_retry sb num zero atype lid retried =
     (let fl = mlfs_get_free_list sb lid in
      if num_free_blocks fl < num \<or> first_node fl = None then
        (if num_free_blocks fl \<ge> num
         then new_blocks_in sb lid (fl\<lparr>first_node := rb_first (block_free_tree fl)\<rparr>) num zero atype
         else if retried \<ge> 3 then Inr (- ENOSPC, None, sb)
         else case mlfs_find_free_list sb num atype of
                None \<Rightarrow> Inl (Assert ''id >= 0'')
              | Some lid' \<Rightarrow> new_blocks_retry sb num zero atype lid' (retried + 1))
      else new_blocks_in sb lid fl num zero atype)"
  by pat_completeness auto
termination by (relation "measure (\<lambda>(sb, num, zero, atype, id, retried). 3 - retried)") auto

definition mlfs_new_blocks ::
  "super_block \<Rightarrow> nat \<Rightarrow> bool \<Rightarrow> alloc_type \<Rightarrow> fault + int \<times> nat option \<times> super_block" where
  "mlfs_new_blocks sb num zero atype =
     (if num = 0 then Inr (- EINVAL, None, sb)
      else case mlfs_find_free_list sb num atype of
             None \<Rightarrow> Inr (- ENOSPC, None, sb)
           | Some lid \<Rightarrow> new_blocks_retry sb num zero atype lid 0)"

section \<open>What a free list stands for\<close>

text \<open>
  The contents of the nodes in tree order. They are in order and never touch each other:
  adjacent ranges are merged when blocks are freed.
\<close>

definition vals :: "node_store \<Rightarrow> nat list \<Rightarrow> range_node list" where
  "vals h as = map (\<lambda>a. the (h a)) as"

definition range_set :: "range_node \<Rightarrow> nat set" where
  "range_set r = {range_low r..range_high r}"

definition ranges_set :: "range_node list \<Rightarrow> nat set" where
  "ranges_set rs = (\<Union>r\<in>set rs. range_set r)"

definition range_len :: "range_node \<Rightarrow> nat" where
  "range_len r = range_high r + 1 - range_low r"

definition ranges_ok :: "range_node list \<Rightarrow> bool" where
  "ranges_ok rs \<longleftrightarrow>
     (\<forall>r\<in>set rs. range_low r \<le> range_high r \<and> range_high r + 1 < 2 ^ 64) \<and>
     sorted_wrt (\<lambda>r s. range_high r + 1 < range_low s) rs"

definition fl_free :: "node_store \<Rightarrow> free_list \<Rightarrow> nat set" where
  "fl_free h fl = ranges_set (vals h (inorder (block_free_tree fl)))"

text \<open>The structural invariant, and the agreement of the counter with the nodes.\<close>

definition fl_ok :: "node_store \<Rightarrow> free_list \<Rightarrow> bool" where
  "fl_ok h fl \<longleftrightarrow>
     (let as = inorder (block_free_tree fl) in
      rb_ok (block_free_tree fl) \<and> distinct as \<and> set as \<subseteq> dom h \<and> ranges_ok (vals h as) \<and>
      first_node fl = rb_first (block_free_tree fl) \<and> num_blocknode fl = length as)"

definition fl_count :: "node_store \<Rightarrow> free_list \<Rightarrow> bool" where
  "fl_count h fl \<longleftrightarrow> num_free_blocks fl = card (fl_free h fl)"

definition hd_opt :: "'a list \<Rightarrow> 'a option" where
  "hd_opt xs = (case xs of [] \<Rightarrow> None | x # _ \<Rightarrow> Some x)"

definition last_opt :: "'a list \<Rightarrow> 'a option" where
  "last_opt xs = (if xs = [] then None else Some (last xs))"

text \<open>
  The specification of a successful free: the freed blocks join the free blocks and the
  counter grows by their number. Nodes of other free lists are untouched.
\<close>

definition freed_to ::
  "node_store \<Rightarrow> free_list \<Rightarrow> nat \<Rightarrow> nat \<Rightarrow> nat \<Rightarrow> node_store \<Rightarrow> free_list \<Rightarrow> bool" where
  "freed_to h fl b n new h' fl' \<longleftrightarrow>
     fl_ok h' fl' \<and> fl_free h' fl' = fl_free h fl \<union> {b..<b + n} \<and>
     num_free_blocks fl' = num_free_blocks fl + n \<and>
     (\<forall>a. a \<notin> insert new (set (inorder (block_free_tree fl))) \<longrightarrow> h' a = h a) \<and>
     set (inorder (block_free_tree fl')) \<subseteq> insert new (set (inorder (block_free_tree fl)))"

text \<open>The specification of a successful allocation of the blocks from \<open>b\<close> on.\<close>

definition taken_from ::
  "node_store \<Rightarrow> free_list \<Rightarrow> nat \<Rightarrow> nat \<Rightarrow> node_store \<Rightarrow> free_list \<Rightarrow> bool" where
  "taken_from h fl b n h' fl' \<longleftrightarrow>
     fl_ok h' fl' \<and> {b..<b + n} \<subseteq> fl_free h fl \<and> fl_free h' fl' = fl_free h fl - {b..<b + n} \<and>
     num_free_blocks fl' = usub64 (num_free_blocks fl) n \<and>
     (\<forall>a. a \<notin> set (inorder (block_free_tree fl)) \<longrightarrow> h' a = h a) \<and>
     set (inorder (block_free_tree fl')) \<subseteq> set (inorder (block_free_tree fl))"

text \<open>The nodes the scan visits: all of them, or only the last one for \<open>TREE\<close>.\<close>

definition scanned :: "free_list \<Rightarrow> alloc_type \<Rightarrow> nat list" where
  "scanned fl atype =
     (let as = inorder (block_free_tree fl) in
      if atype = TREE then (if as = [] then [] else [last as]) else as)"

definition free_slot_at ::
  "node_store \<Rightarrow> free_list \<Rightarrow> nat \<Rightarrow> nat \<Rightarrow> nat list \<Rightarrow> nat list \<Rightarrow> nat path \<Rightarrow> bool" where
  "free_slot_at h fl b n as bs fs \<longleftrightarrow>
     inorder (block_free_tree fl) = as @ bs \<and>
     plug Leaf fs = block_free_tree fl \<and> before fs = as \<and> after fs = bs \<and>
     range_insert_pos h b (block_free_tree fl) [] = Some fs \<and>
     mlfs_find_free_slot h (block_free_tree fl) b (b + n - 1) = Inr (last_opt as, hd_opt bs) \<and>
     (\<forall>a\<in>set as. high_of h a < b) \<and> (\<forall>a\<in>set bs. b + n - 1 < low_of h a)"

definition parent_of :: "nat path \<Rightarrow> nat option" where
  "parent_of fs = (case fs of [] \<Rightarrow> None | LeftOf _ p _ # _ \<Rightarrow> Some p | RightOf _ _ p # _ \<Rightarrow> Some p)"

section \<open>Ranges\<close>

lemma hd_opt_simps [simp]:
  "hd_opt [] = None" "hd_opt (as @ a # bs) = (if as = [] then Some a else hd_opt as)"
  "hd_opt (a # as) = Some a"
  by (cases as; simp add: hd_opt_def)+

lemma last_opt_simps [simp]: "last_opt [] = None" "last_opt (as @ [a]) = Some a"
  by (simp_all add: last_opt_def)


named_theorems range_simps

lemma vals_simps [simp, range_simps]:
  "vals h [] = []" "vals h (a # as) = the (h a) # vals h as"
  "vals h (as @ bs) = vals h as @ vals h bs"
  by (simp_all add: vals_def)

lemma vals_cong: "(\<And>a. a \<in> set as \<Longrightarrow> h' a = h a) \<Longrightarrow> vals h' as = vals h as"
  by (simp add: vals_def)

lemma vals_upd [simp, range_simps]: "a \<notin> set as \<Longrightarrow> vals (h(a := v)) as = vals h as"
  by (auto simp: vals_def)

lemma set_vals: "set (vals h as) = (\<lambda>a. the (h a)) ` set as"
  by (simp add: vals_def)

lemma ranges_set_simps [simp, range_simps]:
  "ranges_set [] = {}" "ranges_set (r # rs) = range_set r \<union> ranges_set rs"
  "ranges_set (rs @ ss) = ranges_set rs \<union> ranges_set ss"
  by (auto simp: ranges_set_def)

lemma ranges_ok_Nil [simp]: "ranges_ok []"
  by (simp add: ranges_ok_def)

lemma ranges_ok_append:
  "ranges_ok (rs @ ss) \<longleftrightarrow> ranges_ok rs \<and> ranges_ok ss \<and>
     (\<forall>r\<in>set rs. \<forall>s\<in>set ss. range_high r + 1 < range_low s)"
  by (auto simp: ranges_ok_def sorted_wrt_append)

lemma ranges_ok_Cons:
  "ranges_ok (r # rs) \<longleftrightarrow> range_low r \<le> range_high r \<and> range_high r + 1 < 2 ^ 64 \<and> ranges_ok rs \<and>
     (\<forall>s\<in>set rs. range_high r + 1 < range_low s)"
  by (auto simp: ranges_ok_def)

lemmas ranges_ok_simps = ranges_ok_append ranges_ok_Cons

lemma finite_ranges [simp]: "finite (ranges_set rs)"
  by (simp add: ranges_set_def range_set_def)

lemma ranges_ok_disjoint:
  assumes "ranges_ok (rs @ r # ss)"
  shows "range_set r \<inter> ranges_set (rs @ ss) = {}"
  using assms by (fastforce simp: ranges_ok_simps ranges_set_def range_set_def)

lemma card_range_set: "card (range_set r) = range_len r"
  by (simp add: range_set_def range_len_def)

section \<open>The search finds the neighbours\<close>

lemma find_range_loop_hit:
  "range_insert_pos h low t fs = None \<Longrightarrow> fst (find_range_loop h low t k)"
  by (induction t arbitrary: fs k) (auto simp: Let_def split: if_splits)

lemma find_range_loop_miss:
  "range_insert_pos h low t fs = Some gs \<Longrightarrow>
   find_range_loop h low t (parent_of fs) = (False, parent_of gs)"
proof (induction t arbitrary: fs)
  case (Node c l a r)
  from Node.IH(1) [of "LeftOf c a r # fs"] Node.IH(2) [of "RightOf c l a # fs"] Node.prems
  show ?case
    by (auto simp: Let_def parent_of_def split: if_splits)
qed simp

lemma range_insert_pos_None:
  "ranges_ok (vals h (inorder t)) \<Longrightarrow>
   range_insert_pos h low t fs = None \<longleftrightarrow> low \<in> ranges_set (vals h (inorder t))"
proof (induction t arbitrary: fs)
  case (Node c l a r)
  have "low < low_of h a \<Longrightarrow> low \<notin> ranges_set (the (h a) # vals h (inorder r))"
    using Node.prems by (fastforce simp: ranges_ok_simps ranges_set_def range_set_def)
  moreover have "high_of h a < low \<Longrightarrow> low \<notin> ranges_set (vals h (inorder l) @ [the (h a)])"
    using Node.prems by (fastforce simp: ranges_ok_simps ranges_set_def range_set_def)
  ultimately show ?case
    using Node
    by (auto simp: Let_def mlfs_rbtree_compare_rangenode_def ranges_ok_simps range_set_def)
qed simp

lemma range_insert_pos_Some:
  "ranges_ok (vals h (inorder t)) \<Longrightarrow> range_insert_pos h low t fs = Some gs \<Longrightarrow>
   plug Leaf gs = plug t fs \<and>
   (\<exists>as bs. inorder t = as @ bs \<and> before gs = before fs @ as \<and> after gs = bs @ after fs \<and>
     (\<forall>a\<in>set as. high_of h a < low) \<and> (\<forall>b\<in>set bs. low < low_of h b))"
proof (induction t arbitrary: fs)
  case (Node c l a r)
  have ok: "ranges_ok (vals h (inorder l))" "ranges_ok (vals h (inorder r))"
    and le: "low_of h a \<le> high_of h a"
    and *: "\<forall>z\<in>set (inorder l). high_of h z < low_of h a" "\<forall>z\<in>set (inorder r). high_of h a < low_of h z"
    using Node.prems(1) by (auto simp: ranges_ok_simps set_vals)
  consider "low < low_of h a" "range_insert_pos h low l (LeftOf c a r # fs) = Some gs"
    | "high_of h a < low" "range_insert_pos h low r (RightOf c l a # fs) = Some gs"
    using Node.prems(2) by (auto simp: Let_def mlfs_rbtree_compare_rangenode_def split: if_splits)
  then show ?case
  proof cases
    case 1
    from Node.IH(1) [OF ok(1) 1(2)] obtain as bs where "inorder l = as @ bs"
      "before gs = before fs @ as" "after gs = bs @ a # inorder r @ after fs"
      "\<forall>a\<in>set as. high_of h a < low" "\<forall>b\<in>set bs. low < low_of h b"
      "plug Leaf gs = plug (Node c l a r) fs"
      by auto
    with 1 * le show ?thesis
      by (intro conjI exI [of _ as] exI [of _ "bs @ a # inorder r"]) fastforce+
  next
    case 2
    from Node.IH(2) [OF ok(2) 2(2)] obtain as bs where "inorder r = as @ bs"
      "before gs = before fs @ inorder l @ a # as" "after gs = bs @ after fs"
      "\<forall>a\<in>set as. high_of h a < low" "\<forall>b\<in>set bs. low < low_of h b"
      "plug Leaf gs = plug (Node c l a r) fs"
      by auto
    with 2 * le show ?thesis
      by (intro conjI exI [of _ "inorder l @ a # as"] exI [of _ bs]) fastforce+
  qed
qed simp

lemma parent_of_neighbour:
  "(parent_of fs = last_opt (before fs) \<or> parent_of fs = hd_opt (after fs)) \<and>
   (parent_of fs = None \<longrightarrow> before fs = [] \<and> after fs = [])"
  by (auto simp: parent_of_def last_opt_def hd_opt_def split: list.split frame.split)

lemma mlfs_find_free_slot_hit:
  assumes "ranges_ok (vals h (inorder t))" and "low \<in> ranges_set (vals h (inorder t))"
  shows "mlfs_find_free_slot h t low high = Inl (- EINVAL)"
  using assms range_insert_pos_None [of h t low "[]"] find_range_loop_hit [of h low t "[]" None]
  by (cases "find_range_loop h low t None")
    (simp add: mlfs_find_free_slot_def mlfs_find_range_node_def)

lemma neighbours_walk:
  assumes "distinct (inorder t)" and "inorder t = as @ bs"
  shows "as \<noteq> [] \<Longrightarrow> rb_next t (last as) = hd_opt bs"
    and "bs \<noteq> [] \<Longrightarrow> rb_prev t (hd bs) = last_opt as"
proof -
  show "rb_next t (last as) = hd_opt bs" if "as \<noteq> []"
    using rb_walk.next_of_split [OF assms(1), of "butlast as" "last as" bs] that assms(2)
    by (simp add: hd_opt_def)
  show "rb_prev t (hd bs) = last_opt as" if "bs \<noteq> []"
    using rb_walk.prev_of_split [OF assms(1), of as "hd bs" "tl bs"] that assms(2)
    by (simp add: last_opt_def)
qed

lemma mlfs_find_free_slot_miss:
  assumes "distinct (inorder t)" and ok: "ranges_ok (vals h (inorder t))"
    and disj: "{low..high} \<inter> ranges_set (vals h (inorder t)) = {}" and "low \<le> high"
  obtains as bs fs where "range_insert_pos h low t [] = Some fs" and "plug Leaf fs = t"
    and "before fs = as" and "after fs = bs" and "inorder t = as @ bs"
    and "\<forall>a\<in>set as. high_of h a < low" and "\<forall>b\<in>set bs. high < low_of h b"
    and "mlfs_find_free_slot h t low high = Inr (last_opt as, hd_opt bs)"
proof -
  have "low \<notin> ranges_set (vals h (inorder t))"
    using disj \<open>low \<le> high\<close> by auto
  then obtain fs where fs: "range_insert_pos h low t [] = Some fs"
    using range_insert_pos_None [OF ok, of low "[]"] by auto
  from range_insert_pos_Some [OF ok fs] obtain as bs where
    split: "plug Leaf fs = t" "before fs = as" "after fs = bs" "inorder t = as @ bs"
      "\<forall>a\<in>set as. high_of h a < low" "\<forall>b\<in>set bs. low < low_of h b"
    by auto
  have bs: "\<forall>b\<in>set bs. high < low_of h b"
  proof
    fix b assume b: "b \<in> set bs"
    then have "low_of h b \<in> ranges_set (vals h (inorder t))"
      using ok split(4) by (force simp: ranges_ok_def ranges_set_def range_set_def set_vals)
    with disj split(6) b show "high < low_of h b"
      by (meson atLeastAtMost_iff disjoint_iff less_imp_le_nat not_le)
  qed
  have "find_range_loop h low t None = (False, parent_of fs)"
    using find_range_loop_miss [OF fs] by (simp add: parent_of_def)
  moreover have "parent_of fs = last_opt as \<or> parent_of fs = hd_opt bs"
    "parent_of fs = None \<longrightarrow> as = [] \<and> bs = []"
    using parent_of_neighbour [of fs] split by simp_all
  ultimately have "mlfs_find_free_slot h t low high = Inr (last_opt as, hd_opt bs)"
    using neighbours_walk [OF assms(1) split(4)] split(5) bs \<open>low \<le> high\<close> ok split(4)
    by (cases as rule: rev_cases; cases bs)
      (auto simp: mlfs_find_free_slot_def mlfs_find_range_node_def last_opt_def hd_opt_def
        ranges_ok_simps)
  with fs split bs that show thesis by blast
qed

section \<open>Growing and shrinking ranges\<close>

lemma ranges_hole:
  assumes "ranges_ok (rs @ p # q # ss)"
  shows "ranges_ok (rs @ p\<lparr>range_high := range_high q\<rparr> # ss)"
    and "ranges_set (rs @ p\<lparr>range_high := range_high q\<rparr> # ss) =
      ranges_set (rs @ p # q # ss) \<union> {range_high p + 1..<range_low q}"
  using assms by (fastforce simp: ranges_ok_simps range_set_def)+

lemma ranges_extend_high:
  assumes "ranges_ok (rs @ p # ss)" and "range_high p + n + 1 < 2 ^ 64"
    and "\<forall>s\<in>set ss. range_high p + n + 1 < range_low s"
  shows "ranges_ok (rs @ p\<lparr>range_high := range_high p + n\<rparr> # ss)"
    and "ranges_set (rs @ p\<lparr>range_high := range_high p + n\<rparr> # ss) =
      ranges_set (rs @ p # ss) \<union> {range_high p + 1..<range_high p + 1 + n}"
  using assms by (fastforce simp: ranges_ok_simps range_set_def)+

lemma ranges_extend_low:
  assumes "ranges_ok (rs @ q # ss)" and "n \<le> range_low q"
    and "\<forall>r\<in>set rs. range_high r + 1 < range_low q - n"
  shows "ranges_ok (rs @ q\<lparr>range_low := range_low q - n\<rparr> # ss)"
    and "ranges_set (rs @ q\<lparr>range_low := range_low q - n\<rparr> # ss) =
      ranges_set (rs @ q # ss) \<union> {range_low q - n..<range_low q}"
  using assms by (fastforce simp: ranges_ok_simps range_set_def)+

lemma ranges_new:
  assumes "ranges_ok (rs @ ss)" and "0 < n" and "b + n < 2 ^ 64"
    and "\<forall>r\<in>set rs. range_high r + 1 < b" and "\<forall>s\<in>set ss. b + n < range_low s"
  shows "ranges_ok (rs @ \<lparr>range_low = b, range_high = b + n - 1\<rparr> # ss)"
    and "ranges_set (rs @ \<lparr>range_low = b, range_high = b + n - 1\<rparr> # ss) =
      ranges_set (rs @ ss) \<union> {b..<b + n}"
  using assms by (auto simp: ranges_ok_simps range_set_def)

section \<open>Changing one node of a free list\<close>

lemma block_found_simps [simp]:
  "block_free_tree (block_found lp n fl) = block_free_tree fl"
  "first_node (block_found lp n fl) = first_node fl"
  "num_blocknode (block_found lp n fl) = num_blocknode fl"
  "num_free_blocks (block_found lp n fl) = num_free_blocks fl + n"
  by (simp_all add: block_found_def Let_def)

lemma fl_cong:
  assumes "block_free_tree fl' = block_free_tree fl"
  shows "fl_free h fl' = fl_free h fl"
    and "first_node fl' = first_node fl \<Longrightarrow> num_blocknode fl' = num_blocknode fl \<Longrightarrow>
      fl_ok h fl' = fl_ok h fl"
  using assms by (simp_all add: fl_ok_def fl_free_def)

lemma fl_num_simps [simp]:
  "fl_ok h (fl\<lparr>num_free_blocks := k\<rparr>) = fl_ok h fl"
  "fl_free h (fl\<lparr>num_free_blocks := k\<rparr>) = fl_free h fl"
  by (simp_all add: fl_ok_def fl_free_def)

lemma fl_frame:
  assumes "\<And>a. a \<in> set (inorder (block_free_tree fl)) \<Longrightarrow> h' a = h a"
  shows "fl_ok h' fl = fl_ok h fl" and "fl_free h' fl = fl_free h fl"
  using assms vals_cong [of "inorder (block_free_tree fl)" h' h]
  by (auto simp: fl_ok_def fl_free_def Let_def)

lemma fl_set_node:
  assumes "fl_ok h fl" and "inorder (block_free_tree fl) = as @ a # bs"
    and "ranges_ok (vals h as @ r # vals h bs)"
  shows "fl_ok (h(a \<mapsto> r)) fl" and "fl_free (h(a \<mapsto> r)) fl = ranges_set (vals h as @ r # vals h bs)"
  using assms by (auto simp: fl_ok_def fl_free_def Let_def)

lemma fl_first: "fl_ok h fl \<Longrightarrow> first_node fl = hd_opt (inorder (block_free_tree fl))"
  by (simp add: fl_ok_def Let_def rb_first_def leftmost_inorder hd_opt_def)

lemma fl_okI:
  assumes "rb_ok (block_free_tree fl)" and "inorder (block_free_tree fl) = as" and "distinct as"
    and "set as \<subseteq> dom h" and "ranges_ok (vals h as)" and "first_node fl = hd_opt as"
    and "num_blocknode fl = length as"
  shows "fl_ok h fl"
  using assms by (simp add: fl_ok_def Let_def rb_first_def leftmost_inorder hd_opt_def)

lemma fl_okD:
  assumes "fl_ok h fl" and "inorder (block_free_tree fl) = as"
  shows "rb_ok (block_free_tree fl)" and "distinct as" and "set as \<subseteq> dom h"
    and "ranges_ok (vals h as)" and "num_blocknode fl = length as"
  using assms by (auto simp: fl_ok_def Let_def)

lemma fl_drop_node:
  assumes "fl_ok h fl" and "inorder (block_free_tree fl) = as @ a # bs"
  shows "\<exists>tree'. rb_erase a (block_free_tree fl) = Some tree' \<and> rb_ok tree' \<and> inorder tree' = as @ bs"
  using rb_erase_ok [OF fl_okD(1) [OF assms], of a] fl_okD(2) [OF assms] assms(2)
  by (simp add: remove1_append)

section \<open>Freeing blocks\<close>

lemma ranges_order:
  assumes "ranges_ok (vals h (as @ a # bs))"
  shows "\<forall>r\<in>set (vals h as). range_high r + 1 < low_of h a"
    and "\<forall>s\<in>set (vals h bs). high_of h a + 1 < range_low s"
  using assms by (simp_all add: ranges_ok_simps)

lemma free_slot:
  assumes "fl_ok h fl" and "0 < n" and "{b..<b + n} \<inter> fl_free h fl = {}"
  obtains as bs fs where "free_slot_at h fl b n as bs fs"
proof -
  have "{b..b + n - 1} = {b..<b + n}" using assms(2) by auto
  then have pre: "distinct (inorder (block_free_tree fl))"
    "ranges_ok (vals h (inorder (block_free_tree fl)))"
    "{b..b + n - 1} \<inter> ranges_set (vals h (inorder (block_free_tree fl))) = {}" "b \<le> b + n - 1"
    using assms by (simp_all add: fl_ok_def fl_free_def Let_def)
  show thesis
    by (rule mlfs_find_free_slot_miss [OF pre], rule that) (simp add: free_slot_at_def)
qed

lemma aligns_left_split:
  "free_slot_at h fl b n as bs fs \<Longrightarrow> aligns_left h b (last_opt as) \<Longrightarrow>
   \<exists>as' p. as = as' @ [p] \<and> b = high_of h p + 1"
  by (cases as rule: rev_cases) (auto simp: aligns_left_def last_opt_def)

lemma not_aligns_left:
  assumes "free_slot_at h fl b n as bs fs" "fl_ok h fl" "\<not> aligns_left h b (last_opt as)"
  shows "\<forall>r\<in>set (vals h as). range_high r + 1 < b"
proof (cases as rule: rev_cases)
  case (snoc as' p)
  with assms have "high_of h p + 1 < b" "low_of h p \<le> high_of h p"
    "\<forall>r\<in>set (vals h as'). range_high r + 1 < low_of h p"
    by (auto simp: free_slot_at_def aligns_left_def last_opt_def fl_ok_def Let_def ranges_ok_simps)
  with snoc show ?thesis by fastforce
qed simp

lemma aligns_right_split:
  "free_slot_at h fl b n as bs fs \<Longrightarrow> 0 < n \<Longrightarrow> aligns_right h (b + n - 1) (hd_opt bs) \<Longrightarrow>
   \<exists>q bs'. bs = q # bs' \<and> b + n = low_of h q"
  by (cases bs) (auto simp: aligns_right_def hd_opt_def)

lemma not_aligns_right:
  assumes "free_slot_at h fl b n as bs fs" "0 < n" "fl_ok h fl"
    "\<not> aligns_right h (b + n - 1) (hd_opt bs)"
  shows "\<forall>s\<in>set (vals h bs). b + n < range_low s"
proof (cases bs)
  case (Cons q bs')
  with assms have "b + n < low_of h q" "low_of h q \<le> high_of h q"
    "\<forall>s\<in>set (vals h bs'). high_of h q + 1 < range_low s"
    by (auto simp: free_slot_at_def aligns_right_def hd_opt_def fl_ok_def Let_def ranges_ok_simps)
  with Cons show ?thesis by fastforce
qed simp

lemma free_hole:
  assumes ok: "fl_ok h fl" and new: "h new = None" and slot: "free_slot_at h fl b n as bs fs" and "0 < n"
    and l: "aligns_left h b (last_opt as)" and r: "aligns_right h (b + n - 1) (hd_opt bs)"
  shows "\<exists>h' fl'. free_blocks_locked h fl b n lp new = Inr (0, h', fl') \<and> freed_to h fl b n new h' fl'"
proof -
  obtain as' p q bs' where split: "as = as' @ [p]" "bs = q # bs'"
    and eq: "b = high_of h p + 1" "b + n = low_of h q"
    using aligns_left_split [OF slot l] aligns_right_split [OF slot \<open>0 < n\<close> r] by blast
  let ?p = "(the (h p))\<lparr>range_high := high_of h q\<rparr>"
  let ?h = "h(p \<mapsto> ?p, q := None, new := None)"
  have tree: "inorder (block_free_tree fl) = as' @ p # q # bs'"
    using slot split by (simp add: free_slot_at_def)
  note all = fl_okD [OF ok tree]
  have vals_ok: "ranges_ok (vals h as' @ the (h p) # the (h q) # vals h bs')"
    using all(4) by simp
  have "new \<notin> set (as' @ p # q # bs')"
    using all(3) new by auto
  then have vals: "vals ?h (as' @ p # bs') = vals h as' @ ?p # vals h bs'"
    using all(2) by simp
  obtain tree' where tree': "rb_erase q (block_free_tree fl) = Some tree'" "rb_ok tree'"
      "inorder tree' = as' @ p # bs'"
    using fl_drop_node [OF ok, of "as' @ [p]" q bs'] tree by auto
  let ?fl = "block_found lp n (fl\<lparr>block_free_tree := tree', num_blocknode := num_blocknode fl - 1\<rparr>)"
  have "free_blocks_locked h fl b n lp new = Inr (0, ?h, ?fl)"
    using slot l r tree'(1) split
    by (simp add: free_blocks_locked_def free_slot_at_def last_opt_def hd_opt_def)
  moreover have "fl_ok ?h ?fl"
  proof (rule fl_okI)
    show "first_node ?fl = hd_opt (as' @ p # bs')"
      using fl_first [OF ok] tree by simp
    show "set (as' @ p # bs') \<subseteq> dom ?h"
      using all(2,3) \<open>new \<notin> _\<close> by auto
    show "ranges_ok (vals ?h (as' @ p # bs'))"
      unfolding vals by (rule ranges_hole(1) [OF vals_ok])
  qed (use tree' all in simp_all)
  moreover have "fl_free ?h ?fl = fl_free h fl \<union> {b..<b + n}"
    using ranges_hole(2) [OF vals_ok] vals tree tree'(3) eq by (simp add: fl_free_def)
  ultimately show ?thesis
    using tree tree'(3) by (auto simp: freed_to_def)
qed

text \<open>A node that grows in place, at its high or at its low end.\<close>

lemma freed_in_place:
  assumes ok: "fl_ok h fl" and new: "h new = None"
    and tree: "inorder (block_free_tree fl) = as @ a # bs"
    and r: "ranges_ok (vals h as @ r # vals h bs)"
    and set: "ranges_set (vals h as @ r # vals h bs) = fl_free h fl \<union> {b..<b + n}"
  shows "freed_to h fl b n new (h(a \<mapsto> r, new := None)) (block_found lp n fl)"
proof -
  have upd: "fl_ok (h(a \<mapsto> r)) fl" "fl_free (h(a \<mapsto> r)) fl = fl_free h fl \<union> {b..<b + n}"
    using fl_set_node [OF ok tree r] set by simp_all
  have "new \<notin> set (inorder (block_free_tree fl))"
    using fl_okD(3) [OF ok refl] new by auto
  then have "fl_ok (h(a \<mapsto> r, new := None)) fl = fl_ok (h(a \<mapsto> r)) fl"
    "fl_free (h(a \<mapsto> r, new := None)) fl = fl_free (h(a \<mapsto> r)) fl"
    using tree by (auto intro!: fl_frame)
  with upd show ?thesis
    using tree by (auto simp: freed_to_def fl_cong [of "block_found lp n fl" fl])
qed

lemma free_left:
  assumes ok: "fl_ok h fl" and new: "h new = None" and slot: "free_slot_at h fl b n as bs fs"
    and n: "0 < n" "b + n < 2 ^ 64"
    and l: "aligns_left h b (last_opt as)" and r: "\<not> aligns_right h (b + n - 1) (hd_opt bs)"
  shows "\<exists>h' fl'. free_blocks_locked h fl b n lp new = Inr (0, h', fl') \<and> freed_to h fl b n new h' fl'"
proof -
  obtain as' p where split: "as = as' @ [p]" and eq: "b = high_of h p + 1"
    using aligns_left_split [OF slot l] by blast
  let ?p = "(the (h p))\<lparr>range_high := high_of h p + n\<rparr>"
  have tree: "inorder (block_free_tree fl) = as' @ p # bs"
    using slot split by (simp add: free_slot_at_def)
  have "\<forall>s\<in>set (vals h bs). high_of h p + n + 1 < range_low s"
    using not_aligns_right [OF slot n(1) ok r] eq by auto
  with fl_okD(4) [OF ok tree] n(2) eq ranges_extend_high [of "vals h as'" "the (h p)" "vals h bs" n]
  have "freed_to h fl b n new (h(p \<mapsto> ?p, new := None)) (block_found lp n fl)"
    by (intro freed_in_place [OF ok new tree]) (simp_all add: fl_free_def tree)
  moreover have "free_blocks_locked h fl b n lp new = Inr (0, h(p \<mapsto> ?p, new := None), block_found lp n fl)"
    using slot l r split by (simp add: free_blocks_locked_def free_slot_at_def)
  ultimately show ?thesis by blast
qed

lemma free_right:
  assumes ok: "fl_ok h fl" and new: "h new = None" and slot: "free_slot_at h fl b n as bs fs"
    and n: "0 < n"
    and l: "\<not> aligns_left h b (last_opt as)" and r: "aligns_right h (b + n - 1) (hd_opt bs)"
  shows "\<exists>h' fl'. free_blocks_locked h fl b n lp new = Inr (0, h', fl') \<and> freed_to h fl b n new h' fl'"
proof -
  obtain q bs' where split: "bs = q # bs'" and eq: "b + n = low_of h q"
    using aligns_right_split [OF slot n r] by blast
  let ?q = "(the (h q))\<lparr>range_low := low_of h q - n\<rparr>"
  have tree: "inorder (block_free_tree fl) = as @ q # bs'"
    using slot split by (simp add: free_slot_at_def)
  have "low_of h q - n = b" "n \<le> low_of h q" "\<forall>r\<in>set (vals h as). range_high r + 1 < low_of h q - n"
    using not_aligns_left [OF slot ok l] eq by auto
  with fl_okD(4) [OF ok tree] eq ranges_extend_low [of "vals h as" "the (h q)" "vals h bs'" n]
  have "freed_to h fl b n new (h(q \<mapsto> ?q, new := None)) (block_found lp n fl)"
    by (intro freed_in_place [OF ok new tree]) (simp_all add: fl_free_def tree)
  moreover have "free_blocks_locked h fl b n lp new = Inr (0, h(q \<mapsto> ?q, new := None), block_found lp n fl)"
    using slot l r split by (simp add: free_blocks_locked_def free_slot_at_def)
  ultimately show ?thesis by blast
qed

lemma range_insert_pos_frame:
  "a \<notin> set (inorder t) \<Longrightarrow> range_insert_pos (h(a := v)) low t fs = range_insert_pos h low t fs"
  by (induction t arbitrary: fs) (auto simp: Let_def)

lemma free_new:
  assumes ok: "fl_ok h fl" and new: "h new = None" and slot: "free_slot_at h fl b n as bs fs"
    and n: "0 < n" "b + n < 2 ^ 64"
    and l: "\<not> aligns_left h b (last_opt as)" and r: "\<not> aligns_right h (b + n - 1) (hd_opt bs)"
  shows "\<exists>h' fl'. free_blocks_locked h fl b n lp new = Inr (0, h', fl') \<and> freed_to h fl b n new h' fl'"
proof -
  let ?r = "\<lparr>range_low = b, range_high = b + n - 1\<rparr>"
  let ?h = "h(new \<mapsto> ?r)"
  have tree: "inorder (block_free_tree fl) = as @ bs" and plug: "rb_ok (plug Leaf fs)"
    and fs: "before fs = as" "after fs = bs"
    using ok slot by (auto simp: free_slot_at_def fl_ok_def Let_def)
  note all = fl_okD [OF ok tree]
  have fresh: "new \<notin> set (as @ bs)" using all(3) new by auto
  have vals: "vals ?h (as @ new # bs) = vals h as @ ?r # vals h bs" using fresh by simp
  obtain tree' where tree': "rb_link_insert new fs = Some tree'" "rb_ok tree'"
      "inorder tree' = as @ new # bs"
    using rb_link_insert_ok [OF plug, of new] fs by auto
  have vals_ok: "ranges_ok (vals h as @ vals h bs)" using all(4) by simp
  note rnew = ranges_new [OF vals_ok n not_aligns_left [OF slot ok l] not_aligns_right [OF slot n(1) ok r]]
  let ?fl = "block_found lp n (fl\<lparr>block_free_tree := tree',
    first_node := (if last_opt as = None then Some new else first_node fl),
    num_blocknode := num_blocknode fl + 1\<rparr>)"
  have "range_insert_pos ?h b (block_free_tree fl) [] = Some fs"
    using slot fresh tree by (simp add: range_insert_pos_frame free_slot_at_def)
  then have "free_blocks_locked h fl b n lp new = Inr (0, ?h, ?fl)"
    using slot l r tree'(1)
    by (simp add: free_blocks_locked_def free_slot_at_def mlfs_insert_blocktree_def
        mlfs_insert_range_node_def)
  moreover have "fl_ok ?h ?fl"
  proof (rule fl_okI)
    show "first_node ?fl = hd_opt (as @ new # bs)"
      using fl_first [OF ok] tree by (cases as) (simp_all add: last_opt_def)
    show "ranges_ok (vals ?h (as @ new # bs))"
      unfolding vals by (rule rnew(1))
  qed (use tree' all fresh in auto)
  moreover have "fl_free ?h ?fl = fl_free h fl \<union> {b..<b + n}"
    using rnew(2) vals tree tree'(3) by (simp add: fl_free_def)
  ultimately show ?thesis
    using tree tree'(3) by (auto simp: freed_to_def)
qed

lemma free_blocks_ok:
  assumes ok: "fl_ok h fl" and new: "h new = None" and n: "0 < n" "b + n < 2 ^ 64"
    and disj: "{b..<b + n} \<inter> fl_free h fl = {}"
  shows "\<exists>h' fl'. free_blocks_locked h fl b n lp new = Inr (0, h', fl') \<and> freed_to h fl b n new h' fl'"
proof -
  obtain as bs fs where slot: "free_slot_at h fl b n as bs fs"
    using free_slot [OF ok n(1) disj] .
  show ?thesis
    using free_hole [OF ok new slot n(1)] free_left [OF ok new slot n] free_right [OF ok new slot n(1)]
      free_new [OF ok new slot n] by blast
qed

section \<open>Allocating blocks\<close>

lemma ranges_shrink_low:
  assumes "ranges_ok (rs @ p # ss)" and "n < range_len p"
  shows "ranges_ok (rs @ p\<lparr>range_low := range_low p + n\<rparr> # ss)"
    and "ranges_set (rs @ p\<lparr>range_low := range_low p + n\<rparr> # ss) =
      ranges_set (rs @ p # ss) - {range_low p..<range_low p + n}"
proof -
  show "ranges_ok (rs @ p\<lparr>range_low := range_low p + n\<rparr> # ss)"
    using assms by (fastforce simp: ranges_ok_simps range_len_def)
  have "range_set (p\<lparr>range_low := range_low p + n\<rparr>) = range_set p - {range_low p..<range_low p + n}"
    by (auto simp: range_set_def)
  moreover have "{range_low p..<range_low p + n} \<subseteq> range_set p"
    using assms(2) by (auto simp: range_set_def range_len_def)
  ultimately show "ranges_set (rs @ p\<lparr>range_low := range_low p + n\<rparr> # ss) =
      ranges_set (rs @ p # ss) - {range_low p..<range_low p + n}"
    using ranges_ok_disjoint [OF assms(1)] by auto
qed

lemma ranges_shrink_high:
  assumes "ranges_ok (rs @ p # ss)" and "1 < range_len p"
  shows "ranges_ok (rs @ p\<lparr>range_high := range_high p - 1\<rparr> # ss)"
    and "ranges_set (rs @ p\<lparr>range_high := range_high p - 1\<rparr> # ss) =
      ranges_set (rs @ p # ss) - {range_high p}"
proof -
  show "ranges_ok (rs @ p\<lparr>range_high := range_high p - 1\<rparr> # ss)"
    using assms by (fastforce simp: ranges_ok_simps range_len_def)
  have "range_set (p\<lparr>range_high := range_high p - 1\<rparr>) = range_set p - {range_high p}"
    using assms(2) by (auto simp: range_set_def range_len_def)
  moreover have "range_high p \<in> range_set p"
    using assms(2) by (auto simp: range_set_def range_len_def)
  ultimately show "ranges_set (rs @ p\<lparr>range_high := range_high p - 1\<rparr> # ss) =
      ranges_set (rs @ p # ss) - {range_high p}"
    using ranges_ok_disjoint [OF assms(1)] by auto
qed

lemma ranges_drop:
  assumes "ranges_ok (rs @ p # ss)"
  shows "ranges_ok (rs @ ss)" and "ranges_set (rs @ ss) = ranges_set (rs @ p # ss) - range_set p"
  using assms ranges_ok_disjoint [OF assms] by (auto simp: ranges_ok_simps)

lemma curr_blocks_len:
  assumes "fl_ok h fl" and "a \<in> set (inorder (block_free_tree fl))"
  shows "curr_blocks h a = range_len (the (h a))" and "low_of h a \<le> high_of h a"
proof -
  show "low_of h a \<le> high_of h a"
    using assms by (auto simp: fl_ok_def Let_def ranges_ok_def set_vals)
  moreover have "high_of h a + 1 < 2 ^ 64"
    using assms by (auto simp: fl_ok_def Let_def ranges_ok_def set_vals)
  ultimately show "curr_blocks h a = range_len (the (h a))"
    by (simp add: curr_blocks_def range_len_def usub64_small uadd64_small)
qed

lemma alloc_scan_find:
  "distinct (inorder t) \<Longrightarrow> inorder t = as @ bs \<Longrightarrow> length bs \<le> bound \<Longrightarrow>
   alloc_scan h t n bound (hd_opt bs) = Inr (find (\<lambda>a. n \<le> curr_blocks h a) bs)"
proof (induction bs arbitrary: as bound)
  case (Cons a bs)
  then obtain k where "bound = Suc k" by (cases bound) auto
  moreover have "rb_next t a = hd_opt bs"
    using rb_walk.next_of_split [OF Cons.prems(1,2)] by (simp add: hd_opt_def)
  moreover have "alloc_scan h t n k (hd_opt bs) = Inr (find (\<lambda>a. n \<le> curr_blocks h a) bs)"
    using Cons.IH [of "as @ [a]" k] Cons.prems calculation(1) by simp
  ultimately show ?case by auto
qed simp

lemma alloc_scan_ok:
  assumes "fl_ok h fl"
  shows "alloc_scan h (block_free_tree fl) n (length (inorder (block_free_tree fl)))
      (if atype = TREE then rb_last (block_free_tree fl) else first_node fl) =
    Inr (find (\<lambda>a. n \<le> curr_blocks h a) (scanned fl atype))"
proof -
  let ?as = "inorder (block_free_tree fl)"
  have d: "distinct ?as" using assms by (simp add: fl_ok_def Let_def)
  show ?thesis
  proof (cases "atype = TREE")
    case True
    with alloc_scan_find [OF d, of "butlast ?as" "scanned fl atype" "length ?as" h n] show ?thesis
      by (cases "?as = []")
        (auto simp: scanned_def rb_last_def rightmost_inorder Suc_le_eq)
  next
    case False
    with alloc_scan_find [OF d, of "[]" ?as "length ?as" h n] fl_first [OF assms] show ?thesis
      by (simp add: scanned_def)
  qed
qed

lemma scanned_subset: "set (scanned fl atype) \<subseteq> set (inorder (block_free_tree fl))"
  by (simp add: scanned_def Let_def)

lemma taken_in_place:
  assumes ok: "fl_ok h fl" and tree: "inorder (block_free_tree fl) = as @ a # bs"
    and r: "ranges_ok (vals h as @ r # vals h bs)"
    and set: "ranges_set (vals h as @ r # vals h bs) = fl_free h fl - {b..<b + n}"
    and sub: "{b..<b + n} \<subseteq> range_set (the (h a))"
  shows "taken_from h fl b n (h(a \<mapsto> r)) (fl\<lparr>num_free_blocks := usub64 (num_free_blocks fl) n\<rparr>)"
proof -
  have "{b..<b + n} \<subseteq> fl_free h fl"
    using sub tree by (auto simp: fl_free_def)
  then show ?thesis
    using fl_set_node [OF ok tree r] set tree
    by (simp add: taken_from_def)
qed

lemma alloc_whole_node:
  assumes ok: "fl_ok h fl" and tree: "inorder (block_free_tree fl) = as @ a # bs"
    and n: "n = curr_blocks h a"
    and scan: "find (\<lambda>a. n \<le> curr_blocks h a) (scanned fl atype) = Some a"
  shows "\<exists>h' fl'. mlfs_alloc_blocks_in_free_list h fl atype n nb = Inr (n, low_of h a, h', fl') \<and>
    taken_from h fl (low_of h a) n h' fl'"
proof -
  have len: "range_set (the (h a)) = {low_of h a..<low_of h a + n}"
    using curr_blocks_len [OF ok, of a] tree n by (auto simp: range_set_def range_len_def)
  obtain tree' where tree': "rb_erase a (block_free_tree fl) = Some tree'" "rb_ok tree'"
      "inorder tree' = as @ bs"
    using fl_drop_node [OF ok tree] by blast
  note all = fl_okD [OF ok tree]
  let ?fl = "fl\<lparr>first_node := (if first_node fl = Some a then rb_next (block_free_tree fl) a else first_node fl),
    block_free_tree := tree', num_blocknode := num_blocknode fl - 1,
    num_free_blocks := usub64 (num_free_blocks fl) n\<rparr>"
  have "mlfs_alloc_blocks_in_free_list h fl atype n nb = Inr (n, low_of h a, h(a := None), ?fl)"
    using alloc_scan_ok [OF ok, of n atype] scan n tree'(1)
    by (simp add: mlfs_alloc_blocks_in_free_list_def Let_def)
  moreover have "first_node ?fl = hd_opt (as @ bs)"
    using fl_first [OF ok] tree all(2) neighbours_walk(1) [of "block_free_tree fl" "as @ [a]" bs]
    by (cases as) auto
  then have "fl_ok (h(a := None)) ?fl"
    using tree' all ranges_drop(1) [of "vals h as" "the (h a)" "vals h bs"]
    by (intro fl_okI [of _ "as @ bs"]) auto
  moreover have "fl_free (h(a := None)) ?fl = fl_free h fl - range_set (the (h a))"
    using ranges_drop(2) [of "vals h as" "the (h a)" "vals h bs"] tree tree'(3) all(2,4)
    by (simp add: fl_free_def)
  moreover have "range_set (the (h a)) \<subseteq> fl_free h fl"
    using tree by (auto simp: fl_free_def)
  ultimately show ?thesis
    using tree tree'(3) by (auto simp: taken_from_def len)
qed

lemma alloc_found:
  assumes ok: "fl_ok h fl" and n: "0 < n" "atype = TREE \<Longrightarrow> n = 1"
    and scan: "find (\<lambda>a. n \<le> curr_blocks h a) (scanned fl atype) = Some a"
  shows "\<exists>b h' fl'. mlfs_alloc_blocks_in_free_list h fl atype n nb = Inr (n, b, h', fl') \<and>
    taken_from h fl b n h' fl'"
proof -
  have a: "a \<in> set (inorder (block_free_tree fl))" "n \<le> curr_blocks h a"
    using scan scanned_subset [of fl atype] by (auto simp: find_Some_iff)
  obtain as bs where tree: "inorder (block_free_tree fl) = as @ a # bs"
    using a(1) by (meson split_list)
  have vok: "ranges_ok (vals h as @ the (h a) # vals h bs)"
    using fl_okD(4) [OF ok tree] by simp
  have len: "curr_blocks h a = range_len (the (h a))" "low_of h a \<le> high_of h a"
    using curr_blocks_len [OF ok a(1)] by simp_all
  note run = alloc_scan_ok [OF ok, of n atype] scan
  consider "n = curr_blocks h a" | "n < range_len (the (h a))" "atype = TREE"
    | "n < range_len (the (h a))" "atype \<noteq> TREE"
    using a(2) len by fastforce
  then show ?thesis
  proof cases
    case 1
    then show ?thesis using alloc_whole_node [OF ok tree _ scan] by blast
  next
    case 2
    with n(2) have "n = 1" by simp
    let ?r = "(the (h a))\<lparr>range_high := high_of h a - n\<rparr>"
    have "{high_of h a..<high_of h a + n} = {high_of h a}"
      using \<open>n = 1\<close> by auto
    with ranges_shrink_high [OF vok] 2(1) \<open>n = 1\<close>
    have "taken_from h fl (high_of h a) n (h(a \<mapsto> ?r)) (fl\<lparr>num_free_blocks := usub64 (num_free_blocks fl) n\<rparr>)"
      by (intro taken_in_place [OF ok tree]) (simp_all add: fl_free_def tree range_set_def len(2))
    moreover have "mlfs_alloc_blocks_in_free_list h fl atype n nb =
        Inr (n, high_of h a, h(a \<mapsto> ?r), fl\<lparr>num_free_blocks := usub64 (num_free_blocks fl) n\<rparr>)"
      using run 2 len(1) by (simp add: mlfs_alloc_blocks_in_free_list_def)
    ultimately show ?thesis by blast
  next
    case 3
    let ?r = "(the (h a))\<lparr>range_low := low_of h a + n\<rparr>"
    have "{low_of h a..<low_of h a + n} \<subseteq> range_set (the (h a))"
      using 3(1) by (auto simp: range_set_def range_len_def)
    with ranges_shrink_low [OF vok 3(1)]
    have "taken_from h fl (low_of h a) n (h(a \<mapsto> ?r)) (fl\<lparr>num_free_blocks := usub64 (num_free_blocks fl) n\<rparr>)"
      by (intro taken_in_place [OF ok tree]) (simp_all add: fl_free_def tree)
    moreover have "mlfs_alloc_blocks_in_free_list h fl atype n nb =
        Inr (n, low_of h a, h(a \<mapsto> ?r), fl\<lparr>num_free_blocks := usub64 (num_free_blocks fl) n\<rparr>)"
      using run 3 len(1) by (simp add: mlfs_alloc_blocks_in_free_list_def)
    ultimately show ?thesis by blast
  qed
qed

lemma alloc_not_found:
  assumes "fl_ok h fl" and "find (\<lambda>a. n \<le> curr_blocks h a) (scanned fl atype) = None"
  shows "mlfs_alloc_blocks_in_free_list h fl atype n nb =
    Inr (ENOSPC_ulong, nb, h, fl\<lparr>num_free_blocks := usub64 (num_free_blocks fl) n\<rparr>)"
  using alloc_scan_ok [OF assms(1), of n atype] assms(2)
  by (simp add: mlfs_alloc_blocks_in_free_list_def Let_def)

end
