(* ===== verification/Balloc_Sb.thy ===== *)
theory Balloc_Sb
  imports Balloc
begin

text \<open>
  The block allocator of \<open>src/libfs/src/io/balloc.c\<close> at the level of the super block: the
  free lists of the partitions and the shared list, their initialisation, and what
  \<open>mlfs_new_blocks\<close> and \<open>mlfs_free_blocks_node\<close> do to the set of free blocks.
\<close>

section \<open>Initialisation and counting\<close>

text \<open>\<open>mlfs_alloc_block_free_lists\<close> on the memory \<open>mem\<close> it gets for the lists.\<close>

definition mlfs_alloc_block_free_lists ::
  "free_list list option \<Rightarrow> super_block \<Rightarrow> int \<times> super_block" where
  "mlfs_alloc_block_free_lists mem sb =
     (case mem of
        None \<Rightarrow> (- ENOMEM, sb\<lparr>free_lists := []\<rparr>)
      | Some fls \<Rightarrow>
          (0, sb\<lparr>free_lists :=
                map (\<lambda>fl. fl\<lparr>block_free_tree := Leaf, num_free_blocks := 0\<rparr>) fls\<rparr>))"

text \<open>
  One round of the loop of \<open>mlfs_init_blockmap\<close>; \<open>malloc i\<close> is the node allocated in round
  \<open>i\<close>. \<open>None\<close> as the second result is the early return of a failed insertion.
\<close>

definition init_one_list ::
  "(nat \<Rightarrow> nat option) \<Rightarrow> bool \<Rightarrow> nat \<Rightarrow> super_block \<Rightarrow> fault + bool \<times> super_block" where
  "init_one_list malloc initialize i sb =
     (let per = per_list_blocks sb;
          fl = (mlfs_get_free_list sb i)
            \<lparr>fl_id := i, block_start := per * i, block_end := usub64 (per * i + per) 1,
             first_node := None, num_blocknode := 0\<rparr> in
      if initialize then
        let fl = fl\<lparr>num_free_blocks := per\<rparr>;
            fl = (if i = 0
                  then fl\<lparr>block_start := block_start fl + reserved_blocks sb,
                          num_free_blocks := usub64 (num_free_blocks fl) (reserved_blocks sb)\<rparr>
                  else fl) in
        case malloc i of
          None \<Rightarrow> Inl (Panic ''cannot allocate blocknode'')
        | Some blknode \<Rightarrow>
            let h = (range_nodes sb)(blknode \<mapsto>
                      \<lparr>range_low = block_start fl, range_high = block_end fl\<rparr>) in
            bindF (mlfs_insert_blocktree h (block_free_tree fl) blknode) (\<lambda>(ret, tree').
              if ret \<noteq> 0
              then Inr (False, (set_free_list sb i fl)\<lparr>range_nodes := h(blknode := None)\<rparr>)
              else Inr (True, (set_free_list sb i
                     (fl\<lparr>block_free_tree := tree', first_node := Some blknode,
                         num_blocknode := 1\<rparr>))\<lparr>range_nodes := h\<rparr>))
      else Inr (True, set_free_list sb i fl))"

fun init_lists ::
  "(nat \<Rightarrow> nat option) \<Rightarrow> bool \<Rightarrow> nat \<Rightarrow> nat \<Rightarrow> super_block \<Rightarrow> fault + bool \<times> super_block" where
  "init_lists malloc initialize i 0 sb = Inr (True, sb)"
| "init_lists malloc initialize i (Suc k) sb =
     bindF (init_one_list malloc initialize i sb) (\<lambda>(more, sb').
       if more then init_lists malloc initialize (Suc i) k sb' else Inr (False, sb'))"

definition mlfs_init_blockmap ::
  "(nat \<Rightarrow> nat option) \<Rightarrow> bool \<Rightarrow> super_block \<Rightarrow> fault + super_block" where
  "mlfs_init_blockmap malloc initialize sb =
     (if n_partition sb = 0 then Inl (Panic ''division by zero'')
      else
        let sb = sb\<lparr>per_list_blocks := num_blocks sb div n_partition sb\<rparr> in
        bindF (init_lists malloc initialize 0 (n_partition sb) sb) (\<lambda>(more, sb').
          if \<not> more then Inr sb'
          else
            let fl = mlfs_get_free_list sb' (n_partition sb' - 1) in
            if uadd64 (block_end fl) 1 < num_blocks sb'
            then Inr (sb'\<lparr>shared_free_list := (shared_free_list sb')
                   \<lparr>block_start := block_end fl + 1, block_end := num_blocks sb' - 1\<rparr>\<rparr>)
            else Inr sb'))"

definition mlfs_count_free_blocks :: "super_block \<Rightarrow> nat" where
  "mlfs_count_free_blocks sb =
     uadd64 (fold (\<lambda>i n. uadd64 n (num_free_blocks (mlfs_get_free_list sb i)))
               [0..<n_partition sb] 0)
       (num_free_blocks (mlfs_get_free_list sb SHARED_PARTITION))"

section \<open>What the super block stands for\<close>

definition fl_nodes :: "free_list \<Rightarrow> nat set" where
  "fl_nodes fl = set (inorder (block_free_tree fl))"

definition all_lists :: "super_block \<Rightarrow> free_list list" where
  "all_lists sb = free_lists sb @ [shared_free_list sb]"

definition lists_ok :: "node_store \<Rightarrow> free_list list \<Rightarrow> bool" where
  "lists_ok h fls \<longleftrightarrow>
     (\<forall>fl\<in>set fls. fl_ok h fl) \<and>
     (\<forall>i<length fls. \<forall>j<length fls. i \<noteq> j \<longrightarrow>
        fl_nodes (fls ! i) \<inter> fl_nodes (fls ! j) = {} \<and>
        fl_free h (fls ! i) \<inter> fl_free h (fls ! j) = {})"

definition lists_free :: "node_store \<Rightarrow> free_list list \<Rightarrow> nat set" where
  "lists_free h fls = (\<Union>fl\<in>set fls. fl_free h fl)"

definition sb_ok :: "super_block \<Rightarrow> bool" where
  "sb_ok sb \<longleftrightarrow> n_partition sb = length (free_lists sb) \<and> n_partition sb \<le> SHARED_PARTITION \<and>
     0 < per_list_blocks sb \<and> lists_ok (range_nodes sb) (all_lists sb)"

definition sb_free :: "super_block \<Rightarrow> nat set" where
  "sb_free sb = lists_free (range_nodes sb) (all_lists sb)"

definition list_index :: "super_block \<Rightarrow> nat \<Rightarrow> nat" where
  "list_index sb lid = (if lid < n_partition sb then lid else n_partition sb)"

text \<open>
  The specification of \<open>mlfs_new_blocks\<close>: the blocks handed out were free and are no longer
  free, or the call fails and the set of free blocks is unchanged.
\<close>

definition new_blocks_spec ::
  "super_block \<Rightarrow> nat \<Rightarrow> int \<Rightarrow> nat option \<Rightarrow> super_block \<Rightarrow> bool" where
  "new_blocks_spec sb num ret blocknr sb' \<longleftrightarrow>
     sb_ok sb' \<and>
     (case blocknr of
        Some b \<Rightarrow> ret = int num \<and> {b..<b + num} \<subseteq> sb_free sb \<and> sb_free sb' = sb_free sb - {b..<b + num}
      | None \<Rightarrow> ret = - ENOSPC \<and> sb_free sb' = sb_free sb)"

text \<open>The state \<open>mlfs_init_blockmap\<close> leaves a partition in.\<close>

definition init_low :: "super_block \<Rightarrow> nat \<Rightarrow> nat" where
  "init_low sb i = per_list_blocks sb * i + (if i = 0 then reserved_blocks sb else 0)"

definition init_node :: "super_block \<Rightarrow> nat \<Rightarrow> range_node" where
  "init_node sb i = \<lparr>range_low = init_low sb i, range_high = per_list_blocks sb * i + per_list_blocks sb - 1\<rparr>"

definition init_fl :: "super_block \<Rightarrow> nat \<Rightarrow> nat \<Rightarrow> free_list \<Rightarrow> free_list" where
  "init_fl sb i a fl = fl\<lparr>fl_id := i, block_free_tree := Node RB_BLACK Leaf a Leaf, first_node := Some a,
     block_start := init_low sb i, block_end := per_list_blocks sb * i + per_list_blocks sb - 1,
     num_free_blocks := per_list_blocks sb - (if i = 0 then reserved_blocks sb else 0),
     num_blocknode := 1\<rparr>"

definition inited_from ::
  "super_block \<Rightarrow> (nat \<Rightarrow> nat) \<Rightarrow> nat \<Rightarrow> free_list list \<Rightarrow> node_store \<Rightarrow> bool" where
  "inited_from sb m i fls h \<longleftrightarrow>
     length fls = length (free_lists sb) \<and> (\<forall>j<i. fls ! j = free_lists sb ! j) \<and>
     (\<forall>j\<in>{i..<n_partition sb}. fls ! j = init_fl sb j (m j) (free_lists sb ! j) \<and>
        h (m j) = Some (init_node sb j)) \<and>
     (\<forall>a. a \<notin> m ` {i..<n_partition sb} \<longrightarrow> h a = range_nodes sb a)"

text \<open>
  The allocator with the blocks its callers own. A caller frees blocks it owns, all of them
  or a part of them; \<open>mlfs_alloc\<close> returns an address that is not in use, or null.
\<close>

inductive balloc_step :: "super_block \<times> nat set \<Rightarrow> super_block \<times> nat set \<Rightarrow> bool" where
  alloc: "0 < num \<Longrightarrow> (atype = TREE \<Longrightarrow> num = 1) \<Longrightarrow>
    mlfs_new_blocks sb num False atype = Inr (ret, Some b, sb') \<Longrightarrow>
    balloc_step (sb, owned) (sb', owned \<union> {b..<b + num})"
| alloc_fails: "(atype = TREE \<Longrightarrow> num = 1) \<Longrightarrow>
    mlfs_new_blocks sb num False atype = Inr (ret, None, sb') \<Longrightarrow>
    balloc_step (sb, owned) (sb', owned)"
| free: "0 < num \<Longrightarrow> {b..<b + nat num} \<subseteq> owned \<Longrightarrow> range_nodes sb new = None \<Longrightarrow>
    mlfs_free_blocks_node (Some new) sb b num log_page = Inr (0, sb') \<Longrightarrow>
    balloc_step (sb, owned) (sb', owned - {b..<b + nat num})"
| free_nomem: "mlfs_free_blocks_node None sb b num log_page = Inr (ret, sb') \<Longrightarrow>
    balloc_step (sb, owned) (sb', owned)"

definition balloc_good :: "nat set \<Rightarrow> super_block \<times> nat set \<Rightarrow> bool" where
  "balloc_good blocks s \<longleftrightarrow>
     (case s of (sb, owned) \<Rightarrow>
        sb_ok sb \<and> owned \<inter> sb_free sb = {} \<and> owned \<union> sb_free sb = blocks \<and>
        0 \<notin> blocks \<and> blocks \<subseteq> {..<2 ^ 64 - 1})"

definition balloc_initial :: "nat set \<Rightarrow> super_block \<times> nat set \<Rightarrow> bool" where
  "balloc_initial blocks s \<longleftrightarrow> snd s = {} \<and> balloc_good blocks s"

text \<open>A small instance: one partition of ten blocks, the first two reserved.\<close>

definition empty_list :: free_list where
  "empty_list = \<lparr>fl_id = 0, block_free_tree = Leaf, first_node = None, block_start = 0, block_end = 0,
     num_free_blocks = 0, num_blocknode = 0, alloc_log_count = 0, alloc_data_count = 0,
     free_log_count = 0, free_data_count = 0, alloc_log_pages = 0, alloc_data_pages = 0,
     freed_log_pages = 0, freed_data_pages = 0\<rparr>"

definition small_list :: free_list where
  "small_list = empty_list\<lparr>block_free_tree := Node RB_BLACK Leaf 7 Leaf, first_node := Some 7,
     block_start := 2, block_end := 9, num_free_blocks := 8, num_blocknode := 1\<rparr>"

definition small_sb :: super_block where
  "small_sb = \<lparr>free_lists = [small_list], per_list_blocks = 10, shared_free_list = empty_list,
     num_blocks = 10, reserved_blocks = 2, n_partition = 1,
     range_nodes = [7 \<mapsto> \<lparr>range_low = 2, range_high = 9\<rparr>]\<rparr>"

section \<open>Replacing one list\<close>

lemma all_lists_access:
  assumes "n_partition sb = length (free_lists sb)"
  shows "mlfs_get_free_list sb lid = all_lists sb ! list_index sb lid"
    and "all_lists (set_free_list sb lid fl) = (all_lists sb)[list_index sb lid := fl]"
    and "list_index sb lid < length (all_lists sb)"
  using assms by (auto simp: mlfs_get_free_list_def set_free_list_def all_lists_def list_index_def
      nth_append list_update_append)

lemma fl_frame_nodes:
  assumes "\<And>a. a \<in> fl_nodes fl \<Longrightarrow> h' a = h a"
  shows "fl_ok h' fl = fl_ok h fl" and "fl_free h' fl = fl_free h fl"
  using assms fl_frame [of fl h' h] by (simp_all add: fl_nodes_def)

lemma lists_update:
  assumes ok: "lists_ok h fls" and k: "k < length fls"
    and fl': "fl_ok h' fl'" "fl_nodes fl' \<subseteq> fl_nodes (fls ! k) \<union> X"
    and frame: "\<And>a. a \<notin> fl_nodes (fls ! k) \<union> X \<Longrightarrow> h' a = h a"
    and X: "\<forall>fl\<in>set fls. X \<inter> fl_nodes fl = {}"
    and free: "fl_free h' fl' = fl_free h (fls ! k) \<union> A - B" "A \<inter> lists_free h fls = {}"
      "B \<subseteq> fl_free h (fls ! k)"
  shows "lists_ok h' (fls[k := fl'])"
    and "lists_free h' (fls[k := fl']) = lists_free h fls \<union> A - B"
proof -
  have other: "fl_ok h' (fls ! i)" "fl_free h' (fls ! i) = fl_free h (fls ! i)"
    "fl_nodes (fls ! i) \<inter> fl_nodes fl' = {}" "fl_free h (fls ! i) \<inter> fl_free h' fl' = {}"
    "fl_free h (fls ! i) \<inter> B = {}"
    if "i < length fls" "i \<noteq> k" for i
  proof -
    have mem: "fls ! i \<in> set fls" using that by simp
    have disj: "fl_nodes (fls ! i) \<inter> fl_nodes (fls ! k) = {}"
      "fl_free h (fls ! i) \<inter> fl_free h (fls ! k) = {}" "fl_ok h (fls ! i)"
      using ok k that mem unfolding lists_ok_def by blast+
    have dA: "A \<inter> fl_free h (fls ! i) = {}"
      using free(2) mem unfolding lists_free_def by blast
    have "X \<inter> fl_nodes (fls ! i) = {}"
      using X mem by blast
    then have eq: "h' a = h a" if "a \<in> fl_nodes (fls ! i)" for a
      using disj(1) frame that by blast
    show "fl_ok h' (fls ! i)" "fl_free h' (fls ! i) = fl_free h (fls ! i)"
      using fl_frame_nodes [of "fls ! i" h' h] eq disj(3) by simp_all
    show "fl_nodes (fls ! i) \<inter> fl_nodes fl' = {}"
      using disj(1) \<open>X \<inter> _ = {}\<close> fl'(2) by blast
    show "fl_free h (fls ! i) \<inter> fl_free h' fl' = {}" "fl_free h (fls ! i) \<inter> B = {}"
      using disj(2) dA free(1,3) by blast+
  qed
  have pair: "fl_nodes (fls ! i) \<inter> fl_nodes (fls ! j) = {}"
    "fl_free h (fls ! i) \<inter> fl_free h (fls ! j) = {}"
    if "i < length fls" "j < length fls" "i \<noteq> j" for i j
    using ok that unfolding lists_ok_def by blast+
  show "lists_ok h' (fls[k := fl'])"
    unfolding lists_ok_def all_set_conv_all_nth length_list_update
  proof (intro conjI allI impI)
    fix i assume "i < length fls"
    then show "fl_ok h' (fls[k := fl'] ! i)"
      using other(1) [of i] fl'(1) by (cases "i = k") simp_all
    fix j assume "j < length fls" "i \<noteq> j"
    with \<open>i < length fls\<close> show "fl_nodes (fls[k := fl'] ! i) \<inter> fl_nodes (fls[k := fl'] ! j) = {}"
      using other(3) [of i] other(3) [of j] pair(1) [of i j]
      by (cases "i = k"; cases "j = k") (simp_all add: Int_commute)
    show "fl_free h' (fls[k := fl'] ! i) \<inter> fl_free h' (fls[k := fl'] ! j) = {}"
      using other(2,4) [of i] other(2,4) [of j] pair(2) [of i j]
        \<open>i < length fls\<close> \<open>j < length fls\<close> \<open>i \<noteq> j\<close>
      by (cases "i = k"; cases "j = k") (simp_all add: Int_commute)
  qed
  have nth: "lists_free h fls = fl_free h (fls ! k) \<union> (\<Union>i\<in>{..<length fls} - {k}. fl_free h (fls ! i))"
    using k by (auto simp: lists_free_def set_conv_nth)
  have "lists_free h' (fls[k := fl']) =
      fl_free h' fl' \<union> (\<Union>i\<in>{..<length fls} - {k}. fl_free h' (fls ! i))"
    using k by (auto simp: lists_free_def set_conv_nth nth_list_update)
  also have "\<dots> = fl_free h' fl' \<union> (\<Union>i\<in>{..<length fls} - {k}. fl_free h (fls ! i))"
    using other(2) by auto
  finally show "lists_free h' (fls[k := fl']) = lists_free h fls \<union> A - B"
    unfolding nth free(1) using other(5) by auto
qed

lemma sb_replace:
  assumes ok: "sb_ok sb"
    and fl': "fl_ok h' fl'" "fl_nodes fl' \<subseteq> fl_nodes (mlfs_get_free_list sb lid) \<union> X"
    and frame: "\<And>a. a \<notin> fl_nodes (mlfs_get_free_list sb lid) \<union> X \<Longrightarrow> h' a = range_nodes sb a"
    and X: "\<forall>fl\<in>set (all_lists sb). X \<inter> fl_nodes fl = {}"
    and free: "fl_free h' fl' = fl_free (range_nodes sb) (mlfs_get_free_list sb lid) \<union> A - B"
      "A \<inter> sb_free sb = {}" "B \<subseteq> fl_free (range_nodes sb) (mlfs_get_free_list sb lid)"
  shows "sb_ok ((set_free_list sb lid fl')\<lparr>range_nodes := h'\<rparr>)"
    and "sb_free ((set_free_list sb lid fl')\<lparr>range_nodes := h'\<rparr>) = sb_free sb \<union> A - B"
proof -
  let ?sb = "(set_free_list sb lid fl')\<lparr>range_nodes := h'\<rparr>"
  have n: "n_partition sb = length (free_lists sb)" using ok by (simp add: sb_ok_def)
  note acc = all_lists_access [OF n, of lid]
  have "all_lists ?sb = (all_lists sb)[list_index sb lid := fl']"
    using acc(2) [of fl'] by (simp add: all_lists_def)
  moreover have "lists_ok (range_nodes sb) (all_lists sb)" using ok by (simp add: sb_ok_def)
  note lists_update [OF this acc(3), folded acc(1), OF fl' frame X free(1) _ free(3)]
  ultimately show "sb_free ?sb = sb_free sb \<union> A - B" "sb_ok ?sb"
    using free(2) ok by (simp_all add: sb_ok_def sb_free_def set_free_list_def)
qed

lemma get_free_list_ok:
  assumes "sb_ok sb"
  shows "fl_ok (range_nodes sb) (mlfs_get_free_list sb lid)"
    and "fl_free (range_nodes sb) (mlfs_get_free_list sb lid) \<subseteq> sb_free sb"
proof -
  have "mlfs_get_free_list sb lid \<in> set (all_lists sb)"
    using assms all_lists_access [of sb lid] by (simp add: sb_ok_def)
  then show "fl_ok (range_nodes sb) (mlfs_get_free_list sb lid)"
    and "fl_free (range_nodes sb) (mlfs_get_free_list sb lid) \<subseteq> sb_free sb"
    using assms by (auto simp: sb_ok_def sb_free_def lists_ok_def lists_free_def)
qed

lemma fresh_node:
  assumes "sb_ok sb" and "range_nodes sb a = None" and "fl \<in> set (all_lists sb)"
  shows "a \<notin> fl_nodes fl"
  using assms by (auto simp: sb_ok_def lists_ok_def fl_ok_def fl_nodes_def Let_def)

lemma free_blocks_node_ok:
  assumes ok: "sb_ok sb" and fresh: "range_nodes sb new = None" and num: "0 < num"
    and b: "b + nat num < 2 ^ 64" "{b..<b + nat num} \<inter> sb_free sb = {}"
  shows "\<exists>sb'. mlfs_free_blocks_node (Some new) sb b num lp = Inr (0, sb') \<and> sb_ok sb' \<and>
    sb_free sb' = sb_free sb \<union> {b..<b + nat num}"
proof -
  define lid where "lid = (let i = b div per_list_blocks sb in
    if i \<ge> n_partition sb then SHARED_PARTITION else i)"
  let ?fl = "mlfs_get_free_list sb lid"
  have "{b..<b + nat num} \<inter> fl_free (range_nodes sb) ?fl = {}"
    using get_free_list_ok(2) [OF ok] b(2) by blast
  from free_blocks_ok [OF get_free_list_ok(1) [OF ok] fresh _ b(1) this, of lp] num
  obtain h' fl' where run: "free_blocks_locked (range_nodes sb) ?fl b (nat num) lp new = Inr (0, h', fl')"
    and post: "freed_to (range_nodes sb) ?fl b (nat num) new h' fl'"
    by auto
  let ?sb = "(set_free_list sb lid fl')\<lparr>range_nodes := h'\<rparr>"
  have "sb_ok ?sb \<and> sb_free ?sb = sb_free sb \<union> {b..<b + nat num} - {}"
    using post b(2) fresh_node [OF ok fresh]
    by (intro conjI sb_replace [where X = "{new}", OF ok]) (auto simp: freed_to_def fl_nodes_def)
  moreover have "mlfs_free_blocks_node (Some new) sb b num lp = Inr (0, ?sb)"
    using run num ok by (simp add: mlfs_free_blocks_node_def lid_def Let_def sb_ok_def)
  ultimately show ?thesis by simp
qed

lemma find_free_list_from_Some:
  "find_free_list_from fls num i = Some j \<Longrightarrow>
   i \<le> j \<and> j - i < length fls \<and> num < num_free_blocks (fls ! (j - i))"
  by (induction fls num i rule: find_free_list_from.induct)
    (auto split: if_splits simp: nth_Cons' Suc_diff_le le_less_Suc_eq)

lemma mlfs_find_free_list_Some:
  "mlfs_find_free_list sb num atype = Some lid \<Longrightarrow>
   lid < n_partition sb \<and> num < num_free_blocks (mlfs_get_free_list sb lid)"
  using find_free_list_from_Some [of "take (n_partition sb) (free_lists sb)" num 0 lid]
  by (auto simp: mlfs_find_free_list_def mlfs_get_free_list_def split: if_splits)

lemma alloc_stats_simps [simp]:
  "fl_ok h (alloc_stats atype n fl) = fl_ok h fl"
  "fl_free h (alloc_stats atype n fl) = fl_free h fl"
  "fl_nodes (alloc_stats atype n fl) = fl_nodes fl"
  "num_free_blocks (alloc_stats atype n fl) = num_free_blocks fl"
  by (cases atype; simp add: alloc_stats_def fl_nodes_def fl_ok_def fl_free_def)+

section \<open>Allocating from the super block\<close>

lemma fl_nodes_num [simp]: "fl_nodes (fl\<lparr>num_free_blocks := k\<rparr>) = fl_nodes fl"
  by (simp add: fl_nodes_def)

lemma new_blocks_in_ok:
  assumes ok: "sb_ok sb" and num: "0 < num" "atype = TREE \<Longrightarrow> num = 1" and zero: "0 \<notin> sb_free sb"
    and fl_def: "fl = mlfs_get_free_list sb lid"
  shows "\<exists>ret blocknr sb'. new_blocks_in sb lid fl num False atype = Inr (ret, blocknr, sb') \<and>
    new_blocks_spec sb num ret blocknr sb' \<and>
    (blocknr \<noteq> None \<longleftrightarrow> (\<exists>a\<in>set (scanned fl atype). num \<le> curr_blocks (range_nodes sb) a))"
proof (cases "find (\<lambda>a. num \<le> curr_blocks (range_nodes sb) a) (scanned fl atype)")
  case None
  have fl: "fl_ok (range_nodes sb) fl" using get_free_list_ok [OF ok] by (simp add: fl_def)
  let ?fl = "alloc_stats atype ENOSPC_ulong (fl\<lparr>num_free_blocks := usub64 (num_free_blocks fl) num\<rparr>)"
  let ?sb = "(set_free_list sb lid ?fl)\<lparr>range_nodes := range_nodes sb\<rparr>"
  have "sb_ok ?sb \<and> sb_free ?sb = sb_free sb \<union> {} - {}"
    using fl by (intro conjI sb_replace [where X = "{}" and A = "{}" and B = "{}", OF ok])
      (simp_all add: fl_def)
  moreover have "new_blocks_in sb lid fl num False atype = Inr (- ENOSPC, None, ?sb)"
    using alloc_not_found [OF fl None, of 0] by (simp add: new_blocks_in_def Let_def)
  ultimately show ?thesis
    using None by (auto simp: new_blocks_spec_def find_None_iff)
next
  case (Some a)
  have fl: "fl_ok (range_nodes sb) fl" "fl_free (range_nodes sb) fl \<subseteq> sb_free sb"
    using get_free_list_ok [OF ok] by (simp_all add: fl_def)
  from alloc_found [OF fl(1) num Some, of 0] obtain b h' fl' where
    run: "mlfs_alloc_blocks_in_free_list (range_nodes sb) fl atype num 0 = Inr (num, b, h', fl')"
    and post: "taken_from (range_nodes sb) fl b num h' fl'"
    by blast
  let ?sb = "(set_free_list sb lid (alloc_stats atype num fl'))\<lparr>range_nodes := h'\<rparr>"
  have sub: "{b..<b + num} \<subseteq> sb_free sb" using post fl(2) by (auto simp: taken_from_def)
  then have "b \<in> sb_free sb" using num(1) by auto
  with zero have "b \<noteq> 0" by metis
  then have "new_blocks_in sb lid fl num False atype = Inr (int num, Some b, ?sb)"
    using run num(1) by (simp add: new_blocks_in_def Let_def)
  moreover have "sb_ok ?sb \<and> sb_free ?sb = sb_free sb \<union> {} - {b..<b + num}"
    using post by (intro conjI sb_replace [where X = "{}" and A = "{}" and B = "{b..<b + num}", OF ok])
      (auto simp: fl_def taken_from_def fl_nodes_def [of "mlfs_get_free_list sb lid"] fl_nodes_def [of fl'])
  ultimately show ?thesis
    using sub Some find_None_iff [of "\<lambda>a. num \<le> curr_blocks (range_nodes sb) a" "scanned fl atype"]
    by (auto simp: new_blocks_spec_def)
qed

lemma new_blocks_first_list:
  assumes ok: "sb_ok sb" and find: "mlfs_find_free_list sb num atype = Some lid" and num: "0 < num"
  shows "mlfs_new_blocks sb num zero atype = new_blocks_in sb lid (mlfs_get_free_list sb lid) num zero atype"
proof -
  let ?fl = "mlfs_get_free_list sb lid"
  have "num < num_free_blocks ?fl" using mlfs_find_free_list_Some [OF find] by simp
  moreover have "?fl\<lparr>first_node := rb_first (block_free_tree ?fl)\<rparr> = ?fl"
    using get_free_list_ok(1) [OF ok, of lid] by (simp add: fl_ok_def Let_def)
  ultimately show ?thesis
    using find num by (simp add: mlfs_new_blocks_def Let_def)
qed

lemma new_blocks_ok:
  assumes "sb_ok sb" and "0 < num" and "atype = TREE \<Longrightarrow> num = 1" and "0 \<notin> sb_free sb"
  shows "\<exists>ret blocknr sb'. mlfs_new_blocks sb num False atype = Inr (ret, blocknr, sb') \<and>
    new_blocks_spec sb num ret blocknr sb'"
proof (cases "mlfs_find_free_list sb num atype")
  case None
  then show ?thesis using assms by (simp add: mlfs_new_blocks_def new_blocks_spec_def)
next
  case (Some lid)
  have "\<exists>ret blocknr sb'. new_blocks_in sb lid (mlfs_get_free_list sb lid) num False atype =
      Inr (ret, blocknr, sb') \<and> new_blocks_spec sb num ret blocknr sb'"
    using new_blocks_in_ok [OF assms(1,2) _ assms(4) refl, of atype lid] assms(3) by blast
  then show ?thesis
    by (simp only: new_blocks_first_list [OF assms(1) Some assms(2)])
qed

section \<open>A fresh super block\<close>

lemma init_one_list_ok:
  assumes "i < n_partition sb" and "n_partition sb = length (free_lists sb)"
    and "block_free_tree (free_lists sb ! i) = Leaf" and "malloc i = Some a"
    and "reserved_blocks sb \<le> per_list_blocks sb" and "0 < per_list_blocks sb"
    and "per_list_blocks sb * (i + 1) < 2 ^ 64"
  shows "init_one_list malloc True i sb =
    Inr (True, sb\<lparr>free_lists := (free_lists sb)[i := init_fl sb i a (free_lists sb ! i)],
                  range_nodes := (range_nodes sb)(a \<mapsto> init_node sb i)\<rparr>)"
proof -
  have "usub64 (per_list_blocks sb * i + per_list_blocks sb) 1 =
      per_list_blocks sb * i + per_list_blocks sb - 1"
    using assms(6,7) by (subst usub64_small) (simp_all add: algebra_simps)
  moreover have "usub64 (per_list_blocks sb) (reserved_blocks sb) =
      per_list_blocks sb - reserved_blocks sb" if "i = 0"
    using assms(5,7) that by (subst usub64_small) simp_all
  note sub = calculation this
  show ?thesis
    using assms(1-4) sub
    by (cases i; cases "free_lists sb ! i")
      (simp_all add: init_one_list_def mlfs_get_free_list_def set_free_list_def Let_def
        mlfs_insert_blocktree_def mlfs_insert_range_node_def rb_link_insert_def
        init_fl_def init_node_def init_low_def)
qed

lemma init_frame:
  "init_fl (sb\<lparr>free_lists := x, range_nodes := y\<rparr>) i a fl = init_fl sb i a fl"
  "init_node (sb\<lparr>free_lists := x, range_nodes := y\<rparr>) i = init_node sb i"
  by (simp_all add: init_fl_def init_node_def init_low_def)

lemma inited_from_upd:
  "inited_from (sb\<lparr>free_lists := x, range_nodes := y\<rparr>) m i fls h \<longleftrightarrow>
     length fls = length x \<and> (\<forall>j<i. fls ! j = x ! j) \<and>
     (\<forall>j\<in>{i..<n_partition sb}. fls ! j = init_fl sb j (m j) (x ! j) \<and> h (m j) = Some (init_node sb j)) \<and>
     (\<forall>a. a \<notin> m ` {i..<n_partition sb} \<longrightarrow> h a = y a)"
  by (simp add: inited_from_def init_frame)

lemma inited_step:
  assumes i: "i < n_partition sb" "n_partition sb = length (free_lists sb)" and "inj m"
    and rest: "inited_from (sb\<lparr>free_lists := (free_lists sb)[i := init_fl sb i (m i) (free_lists sb ! i)],
      range_nodes := (range_nodes sb)(m i \<mapsto> init_node sb i)\<rparr>) m (Suc i) fls h"
  shows "inited_from sb m i fls h"
proof -
  have r: "length fls = length ((free_lists sb)[i := init_fl sb i (m i) (free_lists sb ! i)])"
    "\<And>j. j < Suc i \<Longrightarrow> fls ! j = (free_lists sb)[i := init_fl sb i (m i) (free_lists sb ! i)] ! j"
    "\<And>j. j \<in> {Suc i..<n_partition sb} \<Longrightarrow>
       fls ! j = init_fl sb j (m j) ((free_lists sb)[i := init_fl sb i (m i) (free_lists sb ! i)] ! j) \<and>
       h (m j) = Some (init_node sb j)"
    "\<And>a. a \<notin> m ` {Suc i..<n_partition sb} \<Longrightarrow> h a = ((range_nodes sb)(m i \<mapsto> init_node sb i)) a"
    using rest unfolding inited_from_upd by blast+
  have "m i \<notin> m ` {Suc i..<n_partition sb}"
    using \<open>inj m\<close> by (simp add: inj_image_mem_iff)
  then have at_i: "fls ! i = init_fl sb i (m i) (free_lists sb ! i)" "h (m i) = Some (init_node sb i)"
    using r(2) [of i] r(4) [of "m i"] i by simp_all
  have "fls ! j = init_fl sb j (m j) (free_lists sb ! j) \<and> h (m j) = Some (init_node sb j)"
    if "j \<in> {i..<n_partition sb}" for j
  proof (cases "j = i")
    case False
    with that have "j \<in> {Suc i..<n_partition sb}" "i \<noteq> j" by auto
    then show ?thesis using r(3) [of j] by simp
  qed (use at_i in simp)
  moreover have "h a = range_nodes sb a" if "a \<notin> m ` {i..<n_partition sb}" for a
  proof -
    have "a \<noteq> m i" "a \<notin> m ` {Suc i..<n_partition sb}" using that i by auto
    then show ?thesis using r(4) [of a] by simp
  qed
  ultimately show ?thesis
    using r(1,2) by (simp add: inited_from_def)
qed

lemma init_lists_ok:
  assumes "i + k = n_partition sb" and "n_partition sb = length (free_lists sb)"
    and "\<forall>j\<in>{i..<n_partition sb}. block_free_tree (free_lists sb ! j) = Leaf"
    and "\<forall>j\<in>{i..<n_partition sb}. malloc j = Some (m j)" and "inj m"
    and "reserved_blocks sb \<le> per_list_blocks sb" and "0 < per_list_blocks sb"
    and "per_list_blocks sb * n_partition sb < 2 ^ 64"
  shows "\<exists>fls h. init_lists malloc True i k sb = Inr (True, sb\<lparr>free_lists := fls, range_nodes := h\<rparr>) \<and>
    inited_from sb m i fls h"
  using assms
proof (induction k arbitrary: i sb)
  case 0
  then show ?case
    by (intro exI [of _ "free_lists sb"] exI [of _ "range_nodes sb"]) (simp add: inited_from_def)
next
  case (Suc k)
  let ?sb = "sb\<lparr>free_lists := (free_lists sb)[i := init_fl sb i (m i) (free_lists sb ! i)],
      range_nodes := (range_nodes sb)(m i \<mapsto> init_node sb i)\<rparr>"
  have i: "i < n_partition sb" "i \<in> {i..<n_partition sb}" using Suc.prems(1) by simp_all
  have "per_list_blocks sb * (i + 1) \<le> per_list_blocks sb * n_partition sb"
    using i by (intro mult_le_mono2) simp
  with Suc.prems(8) have "per_list_blocks sb * (i + 1) < 2 ^ 64" by simp
  with init_one_list_ok [OF i(1) Suc.prems(2) _ _ Suc.prems(6,7)] Suc.prems(3,4) i(2)
  have one: "init_one_list malloc True i sb = Inr (True, ?sb)" by blast
  have "\<exists>fls h. init_lists malloc True (Suc i) k ?sb = Inr (True, ?sb\<lparr>free_lists := fls, range_nodes := h\<rparr>) \<and>
      inited_from ?sb m (Suc i) fls h"
    using Suc.prems by (intro Suc.IH) simp_all
  then show ?case
    using one inited_step [OF i(1) Suc.prems(2,5)] by auto
qed

lemma init_fl_ok:
  assumes "h a = Some (init_node sb i)" and "reserved_blocks sb < per_list_blocks sb"
    and "per_list_blocks sb * (i + 1) < 2 ^ 64"
  shows "fl_ok h (init_fl sb i a fl)"
    and "fl_free h (init_fl sb i a fl) = {init_low sb i..<per_list_blocks sb * (i + 1)}"
    and "fl_nodes (init_fl sb i a fl) = {a}"
    and "num_free_blocks (init_fl sb i a fl) = card (fl_free h (init_fl sb i a fl))"
proof -
  have le: "init_low sb i \<le> per_list_blocks sb * i + per_list_blocks sb - 1" "0 < per_list_blocks sb"
    using assms(2) by (auto simp: init_low_def)
  have "ranges_ok [init_node sb i]"
    using assms(3) le by (auto simp: ranges_ok_Cons init_node_def)
  then show "fl_ok h (init_fl sb i a fl)"
    using assms(1) by (intro fl_okI [of _ "[a]"]) (auto simp: init_fl_def rb_ok_def)
  show free: "fl_free h (init_fl sb i a fl) = {init_low sb i..<per_list_blocks sb * (i + 1)}"
    using assms(1) le by (auto simp: fl_free_def init_fl_def init_node_def range_set_def)
  show "fl_nodes (init_fl sb i a fl) = {a}"
    by (simp add: fl_nodes_def init_fl_def)
  show "num_free_blocks (init_fl sb i a fl) = card (fl_free h (init_fl sb i a fl))"
    unfolding free by (simp add: init_fl_def init_low_def)
qed

lemma lists_ok_snoc_empty:
  assumes "fl_ok h fl" and "block_free_tree fl = Leaf"
    and "\<And>i. i < length fls \<Longrightarrow> fl_ok h (fls ! i)"
    and "\<And>i j. i < length fls \<Longrightarrow> j < length fls \<Longrightarrow> i \<noteq> j \<Longrightarrow>
      fl_nodes (fls ! i) \<inter> fl_nodes (fls ! j) = {} \<and> fl_free h (fls ! i) \<inter> fl_free h (fls ! j) = {}"
  shows "lists_ok h (fls @ [fl])" and "lists_free h (fls @ [fl]) = (\<Union>i<length fls. fl_free h (fls ! i))"
proof -
  have empty: "fl_nodes fl = {}" "fl_free h fl = {}"
    using assms(2) by (simp_all add: fl_nodes_def fl_free_def)
  show "lists_ok h (fls @ [fl])"
    using assms empty by (auto simp: lists_ok_def nth_append in_set_conv_nth less_Suc_eq)
  show "lists_free h (fls @ [fl]) = (\<Union>i<length fls. fl_free h (fls ! i))"
    using empty by (fastforce simp: lists_free_def in_set_conv_nth)
qed

lemma init_low_cases:
  "reserved_blocks sb < per_list_blocks sb \<Longrightarrow>
   (\<Union>i<n. {init_low sb i..<per_list_blocks sb * (i + 1)}) = {reserved_blocks sb..<per_list_blocks sb * n}"
proof (induction n)
  case (Suc n)
  then have "(\<Union>i<Suc n. {init_low sb i..<per_list_blocks sb * (i + 1)}) =
      {reserved_blocks sb..<per_list_blocks sb * n} \<union> {init_low sb n..<per_list_blocks sb * (n + 1)}"
    by (simp add: lessThan_Suc Un_commute)
  also have "\<dots> = {reserved_blocks sb..<per_list_blocks sb * Suc n}"
    using Suc.prems by (cases n) (auto simp: init_low_def)
  finally show ?case .
qed simp

lemma init_low_disjoint:
  assumes "i < j"
  shows "{init_low sb i..<per_list_blocks sb * (i + 1)} \<inter> {init_low sb j..<per_list_blocks sb * (j + 1)} = {}"
proof -
  have "per_list_blocks sb * (i + 1) \<le> per_list_blocks sb * j"
    using assms by (intro mult_le_mono2) simp
  then show ?thesis by (auto simp: init_low_def)
qed

lemma inited_lists_ok:
  assumes init: "inited_from sb m 0 fls h" and n: "n_partition sb = length (free_lists sb)" and "inj m"
    and size: "reserved_blocks sb < per_list_blocks sb" "per_list_blocks sb * n_partition sb < 2 ^ 64"
    and fl: "first_node fl = None" "block_free_tree fl = Leaf" "num_blocknode fl = 0"
  shows "lists_ok h (fls @ [fl])"
    and "lists_free h (fls @ [fl]) = {reserved_blocks sb..<per_list_blocks sb * n_partition sb}"
    and "\<forall>fl\<in>set fls. fl_count h fl"
proof -
  let ?n = "n_partition sb"
  have len: "length fls = ?n" using init n by (simp add: inited_from_def)
  have each: "fl_ok h (fls ! i)" "fl_free h (fls ! i) = {init_low sb i..<per_list_blocks sb * (i + 1)}"
    "fl_nodes (fls ! i) = {m i}" "fl_count h (fls ! i)" if "i < ?n" for i
  proof -
    have "per_list_blocks sb * (i + 1) \<le> per_list_blocks sb * ?n"
      using that by (intro mult_le_mono2) simp
    with size(2) have "per_list_blocks sb * (i + 1) < 2 ^ 64" by linarith
    with init that size(1) init_fl_ok [of h "m i" sb i "free_lists sb ! i"]
    show "fl_ok h (fls ! i)" "fl_free h (fls ! i) = {init_low sb i..<per_list_blocks sb * (i + 1)}"
      "fl_nodes (fls ! i) = {m i}" "fl_count h (fls ! i)"
      by (simp_all add: inited_from_def fl_count_def)
  qed
  have pair: "fl_nodes (fls ! i) \<inter> fl_nodes (fls ! j) = {} \<and> fl_free h (fls ! i) \<inter> fl_free h (fls ! j) = {}"
    if "i < ?n" "j < ?n" "i \<noteq> j" for i j
    using each(2,3) that \<open>inj m\<close> init_low_disjoint [of i j sb] init_low_disjoint [of j i sb]
    by (cases "i < j") (auto simp: inj_eq)
  have "fl_ok h fl" using fl by (simp add: fl_ok_def rb_ok_def rb_first_def)
  note snoc = lists_ok_snoc_empty [OF this fl(2), of fls]
  show "lists_ok h (fls @ [fl])" using snoc(1) each(1) pair len by simp
  have "lists_free h (fls @ [fl]) = (\<Union>i<?n. {init_low sb i..<per_list_blocks sb * (i + 1)})"
    using snoc(2) each(1,2) pair len by simp
  then show "lists_free h (fls @ [fl]) = {reserved_blocks sb..<per_list_blocks sb * ?n}"
    using init_low_cases [of sb ?n] size(1) by simp
  show "\<forall>fl\<in>set fls. fl_count h fl"
    using each(4) len by (metis in_set_conv_nth)
qed

lemma init_blockmap_ok:
  assumes n: "n_partition sb = length (free_lists sb)" "0 < n_partition sb" "n_partition sb \<le> SHARED_PARTITION"
    and empty: "\<forall>fl\<in>set (free_lists sb). block_free_tree fl = Leaf"
    and shared: "fl_ok (range_nodes sb) (shared_free_list sb)" "block_free_tree (shared_free_list sb) = Leaf"
    and mem: "\<forall>i<n_partition sb. malloc i = Some (m i)" "inj m"
    and size: "reserved_blocks sb < num_blocks sb div n_partition sb" "num_blocks sb < 2 ^ 64"
  shows "\<exists>sb'. mlfs_init_blockmap malloc True sb = Inr sb' \<and> sb_ok sb' \<and>
    sb_free sb' = {reserved_blocks sb..<num_blocks sb div n_partition sb * n_partition sb} \<and>
    (\<forall>fl\<in>set (free_lists sb'). fl_count (range_nodes sb') fl)"
proof -
  define sb0 where "sb0 = sb\<lparr>per_list_blocks := num_blocks sb div n_partition sb\<rparr>"
  have sb0: "n_partition sb0 = n_partition sb" "free_lists sb0 = free_lists sb"
    "per_list_blocks sb0 = num_blocks sb div n_partition sb"
    "reserved_blocks sb0 = reserved_blocks sb" "shared_free_list sb0 = shared_free_list sb"
    by (simp_all add: sb0_def)
  have "num_blocks sb div n_partition sb * n_partition sb \<le> num_blocks sb" by simp
  with size have per: "num_blocks sb div n_partition sb * n_partition sb < 2 ^ 64"
    "0 < num_blocks sb div n_partition sb" by linarith+
  with n empty mem size obtain fls h where
    run: "init_lists malloc True 0 (n_partition sb) sb0 = Inr (True, sb0\<lparr>free_lists := fls, range_nodes := h\<rparr>)"
    and init: "inited_from sb0 m 0 fls h"
    using init_lists_ok [of 0 "n_partition sb" sb0 malloc m] by (auto simp: sb0)
  let ?sb = "\<lambda>fl. sb0\<lparr>free_lists := fls, range_nodes := h, shared_free_list := fl\<rparr>"
  have sh: "first_node (shared_free_list sb) = None" "num_blocknode (shared_free_list sb) = 0"
    using shared by (simp_all add: fl_ok_def rb_first_def)
  have "\<exists>fl. mlfs_init_blockmap malloc True sb = Inr (?sb fl) \<and>
      first_node fl = None \<and> block_free_tree fl = Leaf \<and> num_blocknode fl = 0"
  proof -
    define s where "s = sb0\<lparr>free_lists := fls, range_nodes := h\<rparr>"
    define fl where "fl = mlfs_get_free_list s (n_partition s - 1)"
    define sh' where "sh' = (shared_free_list sb)\<lparr>block_start := block_end fl + 1, block_end := num_blocks s - 1\<rparr>"
    have s: "s = ?sb (shared_free_list sb)" "shared_free_list s = shared_free_list sb"
      by (simp_all add: s_def sb0_def)
    have "mlfs_init_blockmap malloc True sb =
        (if uadd64 (block_end fl) 1 < num_blocks s then Inr (s\<lparr>shared_free_list := sh'\<rparr>) else Inr s)"
      using n(2) run s(2) unfolding mlfs_init_blockmap_def sb0_def [symmetric] s_def [symmetric] fl_def sh'_def
      by (simp add: Let_def sb0)
    moreover have "s\<lparr>shared_free_list := sh'\<rparr> = ?sb sh'"
      by (simp add: s_def)
    moreover have "first_node sh' = None" "block_free_tree sh' = Leaf" "num_blocknode sh' = 0"
      using sh shared(2) by (simp_all add: sh'_def)
    ultimately show ?thesis
      using sh shared(2) s(1) by (cases "uadd64 (block_end fl) 1 < num_blocks s") auto
  qed
  then obtain fl where fl: "mlfs_init_blockmap malloc True sb = Inr (?sb fl)"
    "first_node fl = None" "block_free_tree fl = Leaf" "num_blocknode fl = 0" by blast
  have "n_partition sb0 = length (free_lists sb0)" "reserved_blocks sb0 < per_list_blocks sb0"
    "per_list_blocks sb0 * n_partition sb0 < 2 ^ 64"
    using n size per by (simp_all add: sb0)
  note lists = inited_lists_ok [OF init this(1) mem(2) this(2,3) fl(2-4)]
  have "length fls = n_partition sb" using init n by (simp add: inited_from_def sb0)
  then show ?thesis
    using fl(1) lists n per by (intro exI [of _ "?sb fl"]) (simp add: sb_ok_def sb_free_def all_lists_def sb0)
qed

section \<open>Sequences of allocations and frees\<close>

lemma free_range_bound:
  assumes "{b..<b + n} \<subseteq> {..<2 ^ 64 - 1}" and "0 < (n::nat)"
  shows "b + n < 2 ^ 64"
proof -
  have "b + n - 1 \<in> {b..<b + n}" using assms(2) by auto
  with assms(1) have "b + n - 1 \<in> {..<2 ^ 64 - 1}" by blast
  then show ?thesis by simp
qed

lemma balloc_step_good:
  assumes "balloc_step s s'" and "balloc_good blocks s"
  shows "balloc_good blocks s'"
  using assms
proof (induction rule: balloc_step.induct)
  case (alloc num atype sb ret b sb' owned)
  then have "new_blocks_spec sb num ret (Some b) sb'"
    using new_blocks_ok [of sb num atype] by (auto simp: balloc_good_def)
  with alloc.prems show ?case by (auto simp: balloc_good_def new_blocks_spec_def)
next
  case (alloc_fails atype num sb ret sb' owned)
  show ?case
  proof (cases "num = 0")
    case True
    with alloc_fails show ?thesis by (simp add: mlfs_new_blocks_def)
  next
    case False
    with alloc_fails have "new_blocks_spec sb num ret None sb'"
      using new_blocks_ok [of sb num atype] by (auto simp: balloc_good_def)
    with alloc_fails.prems show ?thesis by (auto simp: balloc_good_def new_blocks_spec_def)
  qed
next
  case (free num b owned sb new log_page sb')
  from free.prems have "{b..<b + nat num} \<subseteq> {..<2 ^ 64 - 1}" "{b..<b + nat num} \<inter> sb_free sb = {}"
    using free.hyps(2) by (auto simp: balloc_good_def)
  then have "sb_ok sb'" "sb_free sb' = sb_free sb \<union> {b..<b + nat num}"
    using free_blocks_node_ok [of sb new num b log_page] free_range_bound [of b "nat num"] free
    by (auto simp: balloc_good_def)
  with free.prems free.hyps(2) show ?case by (auto simp: balloc_good_def)
next
  case (free_nomem sb b num log_page ret sb' owned)
  then show ?case by (auto simp: mlfs_free_blocks_node_def Let_def split: if_splits)
qed

interpretation balloc_machine: machine "balloc_initial blocks" balloc_step "balloc_good blocks"
  by unfold_locales (auto simp: balloc_initial_def intro: balloc_step_good)

section \<open>Correctness of the allocator\<close>

lemma small_sb_ok: "sb_ok small_sb" "sb_free small_sb = {2..9}" "0 \<notin> sb_free small_sb"
proof -
  have lists: "all_lists small_sb = [small_list, empty_list]"
    by (simp add: small_sb_def all_lists_def)
  have fl: "fl_ok (range_nodes small_sb) small_list" "fl_free (range_nodes small_sb) small_list = {2..9}"
    "fl_nodes small_list = {7}"
    by (simp_all add: small_sb_def small_list_def empty_list_def fl_ok_def fl_free_def fl_nodes_def
        rb_ok_def rb_first_def ranges_ok_Cons range_set_def)
  have e: "fl_ok (range_nodes small_sb) empty_list" "fl_free (range_nodes small_sb) empty_list = {}"
    "fl_nodes empty_list = {}"
    by (simp_all add: empty_list_def fl_ok_def fl_free_def fl_nodes_def rb_ok_def rb_first_def)
  show "sb_ok small_sb"
    using fl e by (simp add: sb_ok_def lists lists_ok_def less_Suc_eq all_conj_distrib)
      (simp add: small_sb_def)
  show "sb_free small_sb = {2..9}" "0 \<notin> sb_free small_sb"
    using fl e by (simp_all add: sb_free_def lists lists_free_def)
qed

text \<open>
  C4: over any sequence of \<open>mlfs_new_blocks\<close> and \<open>mlfs_free_blocks_node\<close> calls in which
  callers free only blocks they own, every block is either free or owned and never both: no
  block is handed out twice and none is lost. Tree blocks are allocated one at a time.
\<close>

theorem balloc_no_double_allocation:
  assumes "balloc_initial blocks s" and "balloc_step\<^sup>*\<^sup>* s (sb, owned)"
  shows "owned \<inter> sb_free sb = {} \<and> owned \<union> sb_free sb = blocks \<and> sb_ok sb"
  using balloc_machine.good_reachable [OF assms] by (simp add: balloc_good_def)

lemma small_sb_alloc:
  "\<exists>sb'. mlfs_new_blocks small_sb 3 False DATA = Inr (3, Some 2, sb')"
  by (simp add: small_sb_def small_list_def empty_list_def mlfs_new_blocks_def mlfs_find_free_list_def
      mlfs_get_free_list_def new_blocks_in_def mlfs_alloc_blocks_in_free_list_def
      curr_blocks_def usub64_def uadd64_def)

theorem balloc_no_double_allocation_witness:
  "\<exists>sb'. balloc_step\<^sup>*\<^sup>* (small_sb, {}) (sb', {2..<5}) \<and> {2..<5} \<inter> sb_free sb' = {} \<and>
     {2..<5} \<union> sb_free sb' = {2..9}"
proof -
  obtain sb' where run: "mlfs_new_blocks small_sb 3 False DATA = Inr (3, Some 2, sb')"
    using small_sb_alloc by blast
  have "balloc_step (small_sb, {}) (sb', {} \<union> {2..<2 + 3})"
    by (rule balloc_step.alloc [OF _ _ run]) simp_all
  then have step: "balloc_step\<^sup>*\<^sup>* (small_sb, {}) (sb', {2..<5})" by simp
  have "balloc_initial {2..9} (small_sb, {})"
    using small_sb_ok by (auto simp: balloc_initial_def balloc_good_def)
  from balloc_no_double_allocation [OF this step] step show ?thesis by blast
qed





text \<open>
  C11: \<open>mlfs_free_blocks_node\<close> rejects a range whose first block is already in the free list
  it would go to: it returns \<open>-EINVAL\<close> and changes nothing, and so it does for a count that
  is not positive.
\<close>

theorem double_free_rejected:
  assumes "sb_ok sb" and "range_nodes sb new = None"
    and "num \<le> 0 \<or> b \<in> fl_free (range_nodes sb) (mlfs_get_free_list sb
      (if b div per_list_blocks sb \<ge> n_partition sb then SHARED_PARTITION else b div per_list_blocks sb))"
  shows "mlfs_free_blocks_node (Some new) sb b num log_page = Inr (- EINVAL, sb)"
proof (cases "num \<le> 0")
  case True
  then show ?thesis by (simp add: mlfs_free_blocks_node_def)
next
  case False
  define lid where "lid = (let i = b div per_list_blocks sb in
    if i \<ge> n_partition sb then SHARED_PARTITION else i)"
  let ?fl = "mlfs_get_free_list sb lid"
  have "b \<in> fl_free (range_nodes sb) ?fl" using assms(3) False by (simp add: lid_def Let_def)
  then have "free_blocks_locked (range_nodes sb) ?fl b (nat num) log_page new =
      Inr (- EINVAL, range_nodes sb, ?fl)"
    using mlfs_find_free_slot_hit [of "range_nodes sb" "block_free_tree ?fl" b "b + nat num - 1"]
      get_free_list_ok(1) [OF assms(1), of lid] assms(2)
    by (simp add: free_blocks_locked_def Let_def fl_ok_def fl_free_def fun_upd_idem)
  moreover have "(set_free_list sb lid ?fl)\<lparr>range_nodes := range_nodes sb\<rparr> = sb"
    using assms(1) by (auto simp: set_free_list_def mlfs_get_free_list_def)
  ultimately show ?thesis
    using False assms(1) by (simp add: mlfs_free_blocks_node_def lid_def Let_def sb_ok_def)
qed

theorem double_free_rejected_witness:
  "mlfs_free_blocks_node (Some 8) small_sb 4 2 False = Inr (- EINVAL, small_sb)"
proof (rule double_free_rejected [OF small_sb_ok(1)])
  show "range_nodes small_sb 8 = None" by (simp add: small_sb_def)
  show "(2::int) \<le> 0 \<or> 4 \<in> fl_free (range_nodes small_sb) (mlfs_get_free_list small_sb
      (if 4 div per_list_blocks small_sb \<ge> n_partition small_sb then SHARED_PARTITION
       else 4 div per_list_blocks small_sb))"
    by (simp add: small_sb_def small_list_def empty_list_def mlfs_get_free_list_def fl_free_def range_set_def)
qed

text \<open>
  C10: \<open>mlfs_init_blockmap\<close> on empty lists divides the device: the free blocks are those from
  the reserved ones up to a multiple of the partition size, each partition has its own
  range, and every counter equals the number of free blocks of its list.
\<close>

theorem mlfs_init_blockmap_correct:
  assumes "n_partition sb = length (free_lists sb)" "0 < n_partition sb" "n_partition sb \<le> SHARED_PARTITION"
    and "\<forall>fl\<in>set (free_lists sb). block_free_tree fl = Leaf"
    and "fl_ok (range_nodes sb) (shared_free_list sb)" "block_free_tree (shared_free_list sb) = Leaf"
    and "\<forall>i<n_partition sb. malloc i = Some (m i)" "inj m"
    and "reserved_blocks sb < num_blocks sb div n_partition sb" "num_blocks sb < 2 ^ 64"
  shows "\<exists>sb'. mlfs_init_blockmap malloc True sb = Inr sb' \<and> sb_ok sb' \<and>
    sb_free sb' = {reserved_blocks sb..<num_blocks sb div n_partition sb * n_partition sb} \<and>
    card (sb_free sb') = num_blocks sb div n_partition sb * n_partition sb - reserved_blocks sb \<and>
    (\<forall>fl\<in>set (free_lists sb'). fl_count (range_nodes sb') fl)"
  using init_blockmap_ok [OF assms] by auto

theorem mlfs_init_blockmap_correct_witness:
  "\<exists>sb'. mlfs_init_blockmap Some True (small_sb\<lparr>free_lists := [empty_list, empty_list],
       n_partition := 2, range_nodes := Map.empty\<rparr>) = Inr sb' \<and> sb_free sb' = {2..<10}"
proof -
  let ?sb = "small_sb\<lparr>free_lists := [empty_list, empty_list], n_partition := 2, range_nodes := Map.empty\<rparr>"
  have "\<exists>sb'. mlfs_init_blockmap Some True ?sb = Inr sb' \<and> sb_ok sb' \<and>
    sb_free sb' = {reserved_blocks ?sb..<num_blocks ?sb div n_partition ?sb * n_partition ?sb} \<and>
    card (sb_free sb') = num_blocks ?sb div n_partition ?sb * n_partition ?sb - reserved_blocks ?sb \<and>
    (\<forall>fl\<in>set (free_lists sb'). fl_count (range_nodes sb') fl)"
    by (rule mlfs_init_blockmap_correct [where m = "\<lambda>i. i"])
      (simp_all add: small_sb_def empty_list_def fl_ok_def rb_ok_def rb_first_def)
  then show ?thesis by (auto simp: small_sb_def)
qed

section \<open>Two deviations\<close>

text \<open>
  C12: for \<open>TREE\<close> the allocation of several blocks from a longer range returns the highest
  block of that range and shortens the range below it, so the blocks the caller takes from
  there on, up to the number it asked for, lie outside of the range: the second of them was
  not free.
\<close>

theorem tree_alloc_beyond_range:
  assumes "fl_ok h fl" and "inorder (block_free_tree fl) = as @ [a]"
    and "1 < n" and "n < curr_blocks h a"
  shows "\<exists>h' fl'. mlfs_alloc_blocks_in_free_list h fl TREE n nb = Inr (n, high_of h a, h', fl') \<and>
    high_of h a + 1 \<in> {high_of h a..<high_of h a + n} \<and> high_of h a + 1 \<notin> fl_free h fl"
proof -
  have "find (\<lambda>a. n \<le> curr_blocks h a) (scanned fl TREE) = Some a"
    using assms by (simp add: scanned_def)
  then have "\<exists>h' fl'. mlfs_alloc_blocks_in_free_list h fl TREE n nb = Inr (n, high_of h a, h', fl')"
    using alloc_scan_ok [OF assms(1), of n TREE] assms(4)
    by (simp add: mlfs_alloc_blocks_in_free_list_def)
  moreover have "high_of h a + 1 \<notin> fl_free h fl"
    using fl_okD(4) [OF assms(1,2)] assms(2)
    by (force simp: fl_free_def ranges_ok_simps ranges_set_def range_set_def)
  ultimately show ?thesis using assms(3) by auto
qed

theorem tree_alloc_beyond_range_witness:
  "\<exists>h' fl'. mlfs_alloc_blocks_in_free_list (range_nodes small_sb) small_list TREE 2 0 = Inr (2, 9, h', fl') \<and>
     10 \<notin> fl_free (range_nodes small_sb) small_list"
proof -
  have "fl_ok (range_nodes small_sb) small_list"
    using small_sb_ok(1) by (simp add: sb_ok_def lists_ok_def all_lists_def small_sb_def)
  from tree_alloc_beyond_range [OF this, of "[]" 7 2 0] show ?thesis
    by (simp add: small_sb_def small_list_def empty_list_def curr_blocks_def usub64_def uadd64_def)
qed

text \<open>
  C13: when no range of the list is long enough, \<open>mlfs_alloc_blocks_in_free_list\<close> returns
  \<open>-ENOSPC\<close> but still subtracts the request from \<open>num_free_blocks\<close>: the free blocks are the
  same as before, and a counter that was right no longer is.
\<close>

theorem failed_alloc_loses_count:
  assumes "fl_ok h fl" and "fl_count h fl" and "0 < n" and "n \<le> num_free_blocks fl"
    and "num_free_blocks fl < 2 ^ 64"
    and "\<forall>a\<in>set (scanned fl atype). curr_blocks h a < n"
  shows "\<exists>fl'. mlfs_alloc_blocks_in_free_list h fl atype n nb = Inr (ENOSPC_ulong, nb, h, fl') \<and>
    fl_free h fl' = fl_free h fl \<and> num_free_blocks fl' = num_free_blocks fl - n \<and> \<not> fl_count h fl'"
proof -
  have "find (\<lambda>a. n \<le> curr_blocks h a) (scanned fl atype) = None"
    using assms(6) by (auto simp: find_None_iff)
  from alloc_not_found [OF assms(1) this, of nb] show ?thesis
    using assms(2-5) by (simp add: fl_count_def usub64_small)
qed

theorem failed_alloc_loses_count_witness:
  "\<exists>fl'. mlfs_alloc_blocks_in_free_list [7 \<mapsto> \<lparr>range_low = 2, range_high = 3\<rparr>, 8 \<mapsto> \<lparr>range_low = 5, range_high = 6\<rparr>]
       (small_list\<lparr>block_free_tree := Node RB_BLACK Leaf 7 (Node RB_RED Leaf 8 Leaf),
          num_free_blocks := 4, num_blocknode := 2\<rparr>) DATA 3 0 = Inr (ENOSPC_ulong, 0,
         [7 \<mapsto> \<lparr>range_low = 2, range_high = 3\<rparr>, 8 \<mapsto> \<lparr>range_low = 5, range_high = 6\<rparr>], fl') \<and>
     num_free_blocks fl' = 1"
proof -
  let ?h = "[7 \<mapsto> \<lparr>range_low = 2, range_high = 3\<rparr>, 8 \<mapsto> \<lparr>range_low = 5, range_high = 6\<rparr>]"
  let ?fl = "small_list\<lparr>block_free_tree := Node RB_BLACK Leaf 7 (Node RB_RED Leaf 8 Leaf),
          num_free_blocks := 4, num_blocknode := 2\<rparr>"
  have "fl_free ?h ?fl = {2, 3, 5, 6}"
    by (auto simp: fl_free_def range_set_def)
  then have "fl_count ?h ?fl" by (simp add: fl_count_def)
  moreover have "fl_ok ?h ?fl"
    by (simp add: fl_ok_def rb_ok_def rb_first_def ranges_ok_Cons small_list_def)
  ultimately show ?thesis
    using failed_alloc_loses_count [of ?h ?fl 3 DATA 0]
    by (auto simp: scanned_def curr_blocks_def usub64_def uadd64_def)
qed

end
