(* ===== verification/Bitmap.thy ===== *)
theory Bitmap
  imports Prelude
begin

text \<open>
  The bitmaps of \<open>src/libfs/src/ds/bitmap.c\<close> and \<open>bitmap.h\<close>: arrays of 64-bit words
  addressed by bit number. The operations are modelled on the words as the code has them,
  masks and word loops included, and specified by their effect on the bits.
\<close>

unbundle bit_operations_syntax

type_synonym bitmap = "u64 list"

section \<open>Words and masks\<close>

definition bit_at :: "bitmap \<Rightarrow> nat \<Rightarrow> bool" where
  "bit_at bm i = bit (bm ! (i div 64)) (i mod 64)"

definition BITMAP_FIRST_WORD_MASK :: "nat \<Rightarrow> u64" where
  "BITMAP_FIRST_WORD_MASK start = push_bit (start mod 64) (- 1)"

text \<open>\<open>-(nbits) & 63\<close> is the distance to the next multiple of 64.\<close>

definition BITMAP_LAST_WORD_MASK :: "nat \<Rightarrow> u64" where
  "BITMAP_LAST_WORD_MASK nbits = drop_bit ((64 - nbits mod 64) mod 64) (- 1)"

text \<open>The \<open>bsf\<close> and \<open>bsr\<close> instructions behind \<open>__ffs\<close>, \<open>ffz\<close> and \<open>__fls\<close>.\<close>

definition ffs :: "u64 \<Rightarrow> nat" where
  "ffs w = length (takeWhile (\<lambda>i. \<not> bit w i) [0..<64])"

definition ffz :: "u64 \<Rightarrow> nat" where
  "ffz w = ffs (NOT w)"

definition fls :: "u64 \<Rightarrow> nat" where
  "fls w = 63 - length (takeWhile (\<lambda>i. \<not> bit w i) (rev [0..<64]))"

definition hweight_long :: "u64 \<Rightarrow> nat" where
  "hweight_long w = length (filter (bit w) [0..<64])"

section \<open>Searching\<close>

function find_next_loop :: "bitmap \<Rightarrow> nat \<Rightarrow> u64 \<Rightarrow> nat \<Rightarrow> u64 \<Rightarrow> nat" where
  "find_next_loop addr nbits invert start tmp =
     (if tmp \<noteq> 0 then min (start + ffs tmp) nbits
      else if start + 64 \<ge> nbits then nbits
      else find_next_loop addr nbits invert (start + 64) (addr ! ((start + 64) div 64) XOR invert))"
  by pat_completeness auto
termination by (relation "measure (\<lambda>(addr, nbits, invert, start, tmp). nbits - start)") auto

definition find_next_bit_inv :: "bitmap \<Rightarrow> nat \<Rightarrow> nat \<Rightarrow> u64 \<Rightarrow> nat" where
  "find_next_bit_inv addr nbits start invert =
     (if nbits = 0 \<or> start \<ge> nbits then nbits
      else find_next_loop addr nbits invert (start div 64 * 64)
             ((addr ! (start div 64) XOR invert) AND BITMAP_FIRST_WORD_MASK start))"

definition find_next_bit :: "bitmap \<Rightarrow> nat \<Rightarrow> nat \<Rightarrow> nat" where
  "find_next_bit addr sz offset = find_next_bit_inv addr sz offset 0"

definition find_next_zero_bit :: "bitmap \<Rightarrow> nat \<Rightarrow> nat \<Rightarrow> nat" where
  "find_next_zero_bit addr sz offset = find_next_bit_inv addr sz offset (- 1)"

function find_first_loop :: "bitmap \<Rightarrow> nat \<Rightarrow> nat \<Rightarrow> nat" where
  "find_first_loop addr sz idx =
     (if idx * 64 < sz then
        if addr ! idx \<noteq> 0 then min (idx * 64 + ffs (addr ! idx)) sz
        else find_first_loop addr sz (idx + 1)
      else sz)"
  by pat_completeness auto
termination by (relation "measure (\<lambda>(addr, sz, idx). sz - idx)") auto

definition find_first_bit :: "bitmap \<Rightarrow> nat \<Rightarrow> nat" where
  "find_first_bit addr sz = find_first_loop addr sz 0"

function find_first_zero_loop :: "bitmap \<Rightarrow> nat \<Rightarrow> nat \<Rightarrow> nat" where
  "find_first_zero_loop addr sz idx =
     (if idx * 64 < sz then
        if addr ! idx \<noteq> - 1 then min (idx * 64 + ffz (addr ! idx)) sz
        else find_first_zero_loop addr sz (idx + 1)
      else sz)"
  by pat_completeness auto
termination by (relation "measure (\<lambda>(addr, sz, idx). sz - idx)") auto

definition find_first_zero_bit :: "bitmap \<Rightarrow> nat \<Rightarrow> nat" where
  "find_first_zero_bit addr sz = find_first_zero_loop addr sz 0"

fun find_last_loop :: "bitmap \<Rightarrow> nat \<Rightarrow> u64 \<Rightarrow> nat \<Rightarrow> nat" where
  "find_last_loop addr sz val idx =
     (let val = val AND addr ! idx in
      if val \<noteq> 0 then idx * 64 + fls val
      else case idx of 0 \<Rightarrow> sz | Suc k \<Rightarrow> find_last_loop addr sz (- 1) k)"

definition find_last_bit :: "bitmap \<Rightarrow> nat \<Rightarrow> nat" where
  "find_last_bit addr sz =
     (if sz \<noteq> 0 then find_last_loop addr sz (BITMAP_LAST_WORD_MASK sz) ((sz - 1) div 64)
      else sz)"

section \<open>Setting and clearing ranges\<close>

text \<open>
  The word loop of \<open>bitmap_set\<close> and \<open>bitmap_clear\<close>: whole words while at least
  \<open>bits\<close> remain, then the last word under the mask of the end of the range.
\<close>

function range_loop ::
  "(u64 \<Rightarrow> u64 \<Rightarrow> u64) \<Rightarrow> nat \<Rightarrow> bitmap \<Rightarrow> nat \<Rightarrow> nat \<Rightarrow> nat \<Rightarrow> u64 \<Rightarrow> bitmap" where
  "range_loop f sz bm p len bits msk =
     (if len \<ge> bits \<and> 0 < bits
      then range_loop f sz (bm[p := f (bm ! p) msk]) (p + 1) (len - bits) 64 (- 1)
      else if len \<noteq> 0
      then bm[p := f (bm ! p) (msk AND BITMAP_LAST_WORD_MASK sz)]
      else bm)"
  by pat_completeness auto
termination by (relation "measure (\<lambda>(f, sz, bm, p, len, bits, msk). len)") auto

definition bitmap_set :: "bitmap \<Rightarrow> nat \<Rightarrow> nat \<Rightarrow> bitmap" where
  "bitmap_set bm start len =
     range_loop (\<lambda>w m. w OR m) (start + len) bm (start div 64) len (64 - start mod 64)
       (BITMAP_FIRST_WORD_MASK start)"

definition bitmap_clear :: "bitmap \<Rightarrow> nat \<Rightarrow> nat \<Rightarrow> bitmap" where
  "bitmap_clear bm start len =
     range_loop (\<lambda>w m. w AND NOT m) (start + len) bm (start div 64) len (64 - start mod 64)
       (BITMAP_FIRST_WORD_MASK start)"

section \<open>Counting and comparing\<close>

definition bitmap_weight :: "bitmap \<Rightarrow> nat \<Rightarrow> nat" where
  "bitmap_weight bm bits =
     (\<Sum>k\<leftarrow>[0..<bits div 64]. hweight_long (bm ! k)) +
     (if bits mod 64 \<noteq> 0
      then hweight_long (bm ! (bits div 64) AND BITMAP_LAST_WORD_MASK bits) else 0)"

definition bitmap_empty :: "bitmap \<Rightarrow> nat \<Rightarrow> bool" where
  "bitmap_empty src nbits = (find_first_bit src nbits = nbits)"

text \<open>The word-wise test shared by \<open>__bitmap_equal\<close>, \<open>__bitmap_intersects\<close> and \<open>__bitmap_subset\<close>.\<close>

definition some_word :: "(u64 \<Rightarrow> u64 \<Rightarrow> u64) \<Rightarrow> bitmap \<Rightarrow> bitmap \<Rightarrow> nat \<Rightarrow> bool" where
  "some_word f m1 m2 bits =
     ((\<exists>k\<in>set [0..<bits div 64]. f (m1 ! k) (m2 ! k) \<noteq> 0) \<or>
      (bits mod 64 \<noteq> 0 \<and>
       f (m1 ! (bits div 64)) (m2 ! (bits div 64)) AND BITMAP_LAST_WORD_MASK bits \<noteq> 0))"

definition bitmap_equal :: "bitmap \<Rightarrow> bitmap \<Rightarrow> nat \<Rightarrow> bool" where
  "bitmap_equal m1 m2 bits = (\<not> some_word (XOR) m1 m2 bits)"

definition bitmap_intersects :: "bitmap \<Rightarrow> bitmap \<Rightarrow> nat \<Rightarrow> bool" where
  "bitmap_intersects m1 m2 bits = some_word (AND) m1 m2 bits"

definition bitmap_subset :: "bitmap \<Rightarrow> bitmap \<Rightarrow> nat \<Rightarrow> bool" where
  "bitmap_subset m1 m2 bits = (\<not> some_word (\<lambda>a b. a AND NOT b) m1 m2 bits)"

section \<open>Bits of words\<close>

declare find_next_loop.simps [simp del] find_first_loop.simps [simp del]
  find_first_zero_loop.simps [simp del] find_last_loop.simps [simp del] range_loop.simps [simp del]

lemma bit_first_mask: "i < 64 \<Longrightarrow> bit (BITMAP_FIRST_WORD_MASK s) i \<longleftrightarrow> s mod 64 \<le> i"
  by (auto simp: BITMAP_FIRST_WORD_MASK_def bit_simps)

lemma bit_last_mask:
  assumes "i < 64"
  shows "bit (BITMAP_LAST_WORD_MASK n) i \<longleftrightarrow> (n mod 64 = 0 \<or> i < n mod 64)"
proof -
  have "bit (BITMAP_LAST_WORD_MASK n) i \<longleftrightarrow> (64 - n mod 64) mod 64 + i < 64"
    by (auto simp: BITMAP_LAST_WORD_MASK_def bit_simps)
  also have "\<dots> \<longleftrightarrow> (n mod 64 = 0 \<or> i < n mod 64)"
    using assms mod_less_divisor [of 64 n] by (cases "n mod 64 = 0") auto
  finally show ?thesis .
qed

lemma word_index:
  assumes "s mod 64 = (0::nat)" and "i < 64"
  shows "(s + i) div 64 = s div 64" and "(s + i) mod 64 = i"
proof -
  obtain q where "s = 64 * q" using assms(1) by (auto elim: dvdE)
  with assms(2) show "(s + i) div 64 = s div 64" "(s + i) mod 64 = i" by simp_all
qed

lemma word_bit_ex: "(w :: u64) \<noteq> 0 \<Longrightarrow> \<exists>k<64. bit w k"
  by (rule ccontr) (auto intro: bit_word_eqI)

lemma ffs_spec:
  assumes "w \<noteq> 0"
  shows "ffs w < 64" and "bit w (ffs w)" and "\<And>i. i < ffs w \<Longrightarrow> \<not> bit w i"
proof -
  let ?t = "takeWhile (\<lambda>i. \<not> bit w i) [0..<64]"
  obtain k where k: "k < 64" "bit w k" using word_bit_ex [OF assms] by blast
  have "?t \<noteq> [0..<64]"
    using k by (metis atLeastLessThan_iff le0 set_takeWhileD set_upt)
  then have "length ?t < length [0..<64]"
    by (metis length_takeWhile_le nat_less_le takeWhile_eq_take take_all_iff)
  then show lt: "ffs w < 64" by (simp add: ffs_def)
  show "bit w (ffs w)"
    using nth_length_takeWhile [of "\<lambda>i. \<not> bit w i" "[0..<64]"] lt by (simp add: ffs_def)
  show "\<not> bit w i" if "i < ffs w" for i
    using takeWhile_nth [of i "\<lambda>i. \<not> bit w i" "[0..<64]"] nth_mem [of i ?t] that lt
    by (auto simp: ffs_def dest: set_takeWhileD)
qed

lemma ffs_eq:
  assumes "bit w k" and "\<And>i. i < k \<Longrightarrow> \<not> bit w i"
  shows "ffs w = k"
proof -
  have "w \<noteq> 0" using assms(1) by auto
  note f = ffs_spec [OF this]
  show ?thesis using f(2,3) assms by (metis linorder_neqE_nat)
qed

section \<open>Searching finds the first bit\<close>

definition inv_bit :: "bitmap \<Rightarrow> u64 \<Rightarrow> nat \<Rightarrow> bool" where
  "inv_bit a w i = bit (a ! (i div 64) XOR w) (i mod 64)"

text \<open>The result of a search from \<open>lo\<close> below \<open>n\<close> for the first number with a property.\<close>

definition first_from :: "(nat \<Rightarrow> bool) \<Rightarrow> nat \<Rightarrow> nat \<Rightarrow> nat \<Rightarrow> bool" where
  "first_from P lo n r \<longleftrightarrow> r \<le> n \<and> (r < n \<longrightarrow> lo \<le> r \<and> P r) \<and> (\<forall>i. lo \<le> i \<and> i < r \<longrightarrow> \<not> P i)"

lemma first_from_extend:
  "first_from P m n r \<Longrightarrow> lo \<le> m \<Longrightarrow> (\<And>i. lo \<le> i \<Longrightarrow> i < m \<Longrightarrow> \<not> P i) \<Longrightarrow> first_from P lo n r"
  by (fastforce simp: first_from_def not_less [symmetric])

lemma find_next_loop_first:
  "s mod 64 = 0 \<Longrightarrow> s < n \<Longrightarrow> s \<le> lo \<Longrightarrow> lo < s + 64 \<Longrightarrow>
   (\<And>i. i < 64 \<Longrightarrow> bit tmp i \<longleftrightarrow> lo \<le> s + i \<and> inv_bit a w (s + i)) \<Longrightarrow>
   first_from (inv_bit a w) lo n (find_next_loop a n w s tmp)"
proof (induction a n w s tmp arbitrary: lo rule: find_next_loop.induct)
  case (1 a n w s tmp)
  have none: "\<not> inv_bit a w i" if "lo \<le> i" "i < s + k" "k \<le> 64" "\<And>j. j < k \<Longrightarrow> \<not> bit tmp j" for i k
  proof -
    have "i - s < k" "s + (i - s) = i" using that "1.prems"(3) by auto
    then show ?thesis using that(1,3) that(4) [of "i - s"] "1.prems"(5) [of "i - s"] by auto
  qed
  show ?case
  proof (cases "tmp = 0")
    case False
    note f = ffs_spec [OF False]
    have "lo \<le> s + ffs tmp" "inv_bit a w (s + ffs tmp)"
      using f(1,2) "1.prems"(5) [of "ffs tmp"] by auto
    then show ?thesis
      using False none [of _ "ffs tmp"] f(1,3)
      by (subst find_next_loop.simps) (auto simp: first_from_def)
  next
    case True
    have clear: "\<not> inv_bit a w i" if "lo \<le> i" "i < s + 64" for i
      using none [of i 64] that True by simp
    show ?thesis
    proof (cases "s + 64 \<ge> n")
      case end_of_map: True
      then show ?thesis
        using True clear by (subst find_next_loop.simps) (auto simp: first_from_def)
    next
      case False
      have bits: "bit (a ! ((s + 64) div 64) XOR w) i \<longleftrightarrow> s + 64 \<le> s + 64 + i \<and> inv_bit a w (s + 64 + i)"
        if "i < 64" for i
      proof -
        have "(s + 64) mod 64 = 0" using "1.prems"(1) by simp
        from word_index [OF this that] show ?thesis by (simp add: inv_bit_def)
      qed
      have "first_from (inv_bit a w) (s + 64) n (find_next_loop a n w (s + 64) (a ! ((s + 64) div 64) XOR w))"
      proof (rule "1.IH")
        show "(s + 64) mod 64 = 0" using "1.prems"(1) by simp
        show "bit (a ! ((s + 64) div 64) XOR w) i \<longleftrightarrow> s + 64 \<le> s + 64 + i \<and> inv_bit a w (s + 64 + i)"
          if "i < 64" for i by (rule bits [OF that])
      qed (use True False in simp_all)
      moreover have "find_next_loop a n w s tmp =
          find_next_loop a n w (s + 64) (a ! ((s + 64) div 64) XOR w)"
        using True False by (subst find_next_loop.simps) simp
      ultimately have "first_from (inv_bit a w) (s + 64) n (find_next_loop a n w s tmp)"
        by (simp only:)
      then show ?thesis
        using first_from_extend [of "inv_bit a w" "s + 64" n _ lo] clear "1.prems"(4) by simp
    qed
  qed
qed

lemma find_next_inv_first:
  assumes "s < n"
  shows "first_from (inv_bit a w) s n (find_next_bit_inv a n s w)"
proof -
  have "bit ((a ! (s div 64) XOR w) AND BITMAP_FIRST_WORD_MASK s) i \<longleftrightarrow>
      s \<le> s div 64 * 64 + i \<and> inv_bit a w (s div 64 * 64 + i)" if "i < 64" for i
  proof -
    have "(s div 64 * 64 + i) div 64 = s div 64" "(s div 64 * 64 + i) mod 64 = i"
      using word_index [of "s div 64 * 64" i] that by simp_all
    moreover have "s \<le> s div 64 * 64 + i \<longleftrightarrow> s mod 64 \<le> i"
      using div_mult_mod_eq [of s 64] by linarith
    ultimately show ?thesis using that by (auto simp: inv_bit_def bit_and_iff bit_first_mask)
  qed
  moreover have "s div 64 * 64 < n" "s div 64 * 64 \<le> s" "s < s div 64 * 64 + 64"
    using assms div_mult_mod_eq [of s 64] mod_less_divisor [of 64 s] by linarith+
  ultimately have "first_from (inv_bit a w) s n (find_next_loop a n w (s div 64 * 64)
      ((a ! (s div 64) XOR w) AND BITMAP_FIRST_WORD_MASK s))"
    by (intro find_next_loop_first) simp_all
  with assms show ?thesis by (simp add: find_next_bit_inv_def)
qed

lemma inv_bit_simps: "inv_bit a 0 i = bit_at a i" "inv_bit a (- 1) i = (\<not> bit_at a i)"
proof -
  show "inv_bit a 0 i = bit_at a i" by (simp add: inv_bit_def bit_at_def)
  have "i mod 64 < 64" by simp
  then show "inv_bit a (- 1) i = (\<not> bit_at a i)"
    by (simp add: inv_bit_def bit_at_def bit_simps)
qed

lemma find_next_bit_first: "s < n \<Longrightarrow> first_from (bit_at a) s n (find_next_bit a n s)"
  using find_next_inv_first [of s n a 0] by (simp add: find_next_bit_def inv_bit_simps first_from_def)

lemma find_next_zero_bit_first:
  "s < n \<Longrightarrow> first_from (\<lambda>i. \<not> bit_at a i) s n (find_next_zero_bit a n s)"
  using find_next_inv_first [of s n a "- 1"]
  by (simp add: find_next_zero_bit_def inv_bit_simps first_from_def)

lemma find_next_beyond: "n \<le> s \<Longrightarrow> find_next_bit a n s = n" "n \<le> s \<Longrightarrow> find_next_zero_bit a n s = n"
  by (simp_all add: find_next_bit_def find_next_zero_bit_def find_next_bit_inv_def)

lemma find_next_bounds: "find_next_bit a n s \<le> n" "find_next_zero_bit a n s \<le> n"
  "s \<le> n \<Longrightarrow> s \<le> find_next_bit a n s" "s \<le> n \<Longrightarrow> s \<le> find_next_zero_bit a n s"
  using find_next_bit_first [of s n a] find_next_zero_bit_first [of s n a] find_next_beyond [of n s a]
  by (cases "s < n"; force simp: first_from_def not_less)+

lemma find_first_loop_first:
  "(\<And>i. i < idx * 64 \<Longrightarrow> \<not> bit_at a i) \<Longrightarrow>
   first_from (bit_at a) 0 n (find_first_loop a n idx)"
proof (induction a n idx rule: find_first_loop.induct)
  case (1 a n idx)
  have at: "bit_at a (idx * 64 + i) = bit (a ! idx) i" if "i < 64" for i
    using word_index [of "idx * 64" i] that by (simp add: bit_at_def)
  have below: "\<not> bit_at a i" if "i < idx * 64 + k" "k \<le> 64" "\<And>j. j < k \<Longrightarrow> \<not> bit (a ! idx) j" for i k
  proof (cases "i < idx * 64")
    case False
    then have "i - idx * 64 < k" "idx * 64 + (i - idx * 64) = i" using that by auto
    then show ?thesis using at [of "i - idx * 64"] that(2) that(3) [of "i - idx * 64"] by auto
  qed (use "1.prems" in blast)
  show ?case
  proof (cases "idx * 64 < n \<and> a ! idx = 0")
    case True
    then have "\<not> bit_at a i" if "i < (idx + 1) * 64" for i
      using below [of i 64] that by simp
    with "1.IH" True show ?thesis by (subst find_first_loop.simps) simp
  next
    case False
    show ?thesis
    proof (cases "idx * 64 < n")
      case True
      with False have nz: "a ! idx \<noteq> 0" by simp
      note f = ffs_spec [OF nz]
      have "bit_at a (idx * 64 + ffs (a ! idx))" using at f(1,2) by simp
      then show ?thesis
        using True nz below [of _ "ffs (a ! idx)"] f(1,3)
        by (subst find_first_loop.simps) (auto simp: first_from_def)
    next
      case beyond: False
      then show ?thesis
        using "1.prems" by (subst find_first_loop.simps) (auto simp: first_from_def)
    qed
  qed
qed

lemma find_first_bit_first: "first_from (bit_at a) 0 n (find_first_bit a n)"
  by (simp add: find_first_bit_def find_first_loop_first)

section \<open>Free areas\<close>

definition ALIGN_MASK :: "nat \<Rightarrow> nat \<Rightarrow> nat" where
  "ALIGN_MASK x msk = (x + msk) - (x + msk) mod (msk + 1)"

text \<open>
  \<open>bitmap_find_next_zero_area_off\<close>; \<open>msk + 1\<close> is a power of two, so that \<open>& ~msk\<close> rounds
  down to a multiple of it. Each round starts after a set bit beyond the previous start.
\<close>

lemma ALIGN_MASK_ge: "x \<le> ALIGN_MASK x m"
proof -
  have "(x + m) mod (m + 1) \<le> m" using mod_less_divisor [of "m + 1" "x + m"] by linarith
  then show ?thesis unfolding ALIGN_MASK_def by linarith
qed

lemma ALIGN_MASK_0 [simp]: "ALIGN_MASK x 0 = x"
  by (simp add: ALIGN_MASK_def)

function zero_area_loop :: "bitmap \<Rightarrow> nat \<Rightarrow> nat \<Rightarrow> nat \<Rightarrow> nat \<Rightarrow> nat \<Rightarrow> nat" where
  "zero_area_loop bm sz nr msk off start =
     (let index = ALIGN_MASK (find_next_zero_bit bm sz start + off) msk - off;
          end_bit = index + nr in
      if end_bit > sz then end_bit
      else
        let i = find_next_bit bm end_bit index in
        if i < end_bit then zero_area_loop bm sz nr msk off (i + 1) else index)"
  by pat_completeness auto
termination
proof (relation "measure (\<lambda>(bm, sz, nr, msk, off, start). sz - start)")
  fix bm :: bitmap and sz nr msk off start x xa xb :: nat
  assume x: "x = ALIGN_MASK (find_next_zero_bit bm sz start + off) msk - off" "xa = x + nr" "\<not> sz < xa"
    and xb: "xb = find_next_bit bm xa x" "xb < xa"
  have "find_next_zero_bit bm sz start \<le> x" 
    using ALIGN_MASK_ge [of "find_next_zero_bit bm sz start + off" msk] x(1) by linarith
  moreover have "x \<le> xb" using find_next_bounds(3) [of x xa bm] x(2) xb by simp
  moreover have "min start sz \<le> find_next_zero_bit bm sz start"
    using find_next_bounds(4) [of start sz bm] find_next_beyond(2) [of sz start bm] by (cases "start \<le> sz") auto
  ultimately have "min start sz \<le> xb" by linarith
  moreover have "xb < sz" using x(3) xb(2) by linarith
  ultimately have "start \<le> xb" by (simp add: min_def split: if_splits)
  then show "((bm, sz, nr, msk, off, xb + 1), bm, sz, nr, msk, off, start) \<in>
      measure (\<lambda>(bm, sz, nr, msk, off, start). sz - start)"
    using \<open>xb < sz\<close> by simp
qed simp

definition bitmap_find_next_zero_area_off ::
  "bitmap \<Rightarrow> nat \<Rightarrow> nat \<Rightarrow> nat \<Rightarrow> nat \<Rightarrow> nat \<Rightarrow> nat" where
  "bitmap_find_next_zero_area_off bm sz start nr align_mask align_offset =
     zero_area_loop bm sz nr align_mask align_offset start"

definition bitmap_find_next_zero_area :: "bitmap \<Rightarrow> nat \<Rightarrow> nat \<Rightarrow> nat \<Rightarrow> nat \<Rightarrow> nat" where
  "bitmap_find_next_zero_area bm sz start nr align_mask =
     bitmap_find_next_zero_area_off bm sz start nr align_mask 0"

section \<open>Ranges of bits\<close>

lemma bit_at_update:
  "p < length bm \<Longrightarrow> bit_at (bm[p := v]) i = (if i div 64 = p then bit v (i mod 64) else bit_at bm i)"
  by (simp add: bit_at_def nth_list_update)

text \<open>One word of the range: the words \<open>f\<close> writes differ from the old ones under the mask.\<close>

lemma word_update_bits:
  assumes f: "\<And>w m i. i < 64 \<Longrightarrow> bit (f w m) i = g (bit w i) (bit m i)" and g: "\<And>b. g b False = b"
    and p: "p < length bm" and m: "\<And>i. i < 64 \<Longrightarrow> bit msk i \<longleftrightarrow> lo \<le> i \<and> i < hi" and "hi \<le> 64"
  shows "bit_at (bm[p := f (bm ! p) msk]) i = g (bit_at bm i) (p * 64 + lo \<le> i \<and> i < p * 64 + hi)"
proof (cases "i div 64 = p")
  case True
  then have "i = p * 64 + i mod 64" using div_mult_mod_eq [of i 64] by simp
  then have "lo \<le> i mod 64 \<and> i mod 64 < hi \<longleftrightarrow> p * 64 + lo \<le> i \<and> i < p * 64 + hi" by linarith
  moreover have "i mod 64 < 64" by simp
  moreover have "bit (bm ! p) (i mod 64) = bit_at bm i" using True by (simp add: bit_at_def)
  ultimately show ?thesis
    using True f [of "i mod 64" "bm ! p" msk] m [of "i mod 64"] p by (simp add: bit_at_update)
next
  case False
  then have "i < p * 64 \<or> p * 64 + 64 \<le> i"
    using div_mult_mod_eq [of i 64] mod_less_divisor [of 64 i] by linarith
  with \<open>hi \<le> 64\<close> False p show ?thesis by (auto simp: bit_at_update g)
qed

lemma range_loop_bits:
  assumes f: "\<And>w m i. i < 64 \<Longrightarrow> bit (f w m) i = g (bit w i) (bit m i)" and g: "\<And>b. g b False = b"
  shows "0 < bits \<Longrightarrow> bits \<le> 64 \<Longrightarrow> sz = p * 64 + (64 - bits) + len \<Longrightarrow> sz \<le> 64 * length bm \<Longrightarrow>
    (\<And>i. i < 64 \<Longrightarrow> bit msk i \<longleftrightarrow> 64 - bits \<le> i) \<Longrightarrow>
    length (range_loop f sz bm p len bits msk) = length bm \<and>
    (\<forall>i. bit_at (range_loop f sz bm p len bits msk) i =
       g (bit_at bm i) (p * 64 + (64 - bits) \<le> i \<and> i < sz))"
proof (induction len arbitrary: bm p bits msk rule: less_induct)
  case (less len)
  consider "bits \<le> len" | "0 < len" "len < bits" | "len = 0" using less.prems(1) by linarith
  then show ?case
  proof cases
    case 1
    let ?bm = "bm[p := f (bm ! p) msk]"
    have p: "p < length bm" using 1 less.prems by linarith
    have one: "bit_at ?bm i = g (bit_at bm i) (p * 64 + (64 - bits) \<le> i \<and> i < p * 64 + 64)" for i
      using word_update_bits [OF f g p, of msk "64 - bits" 64 i] less.prems(5) by simp
    have rest: "length (range_loop f sz ?bm (p + 1) (len - bits) 64 (- 1)) = length ?bm \<and>
      (\<forall>i. bit_at (range_loop f sz ?bm (p + 1) (len - bits) 64 (- 1)) i =
         g (bit_at ?bm i) ((p + 1) * 64 + (64 - 64) \<le> i \<and> i < sz))"
      using 1 less.prems by (intro less.IH) simp_all
    have step: "g (bit_at ?bm i) ((p + 1) * 64 + (64 - 64) \<le> i \<and> i < sz) =
        g (bit_at bm i) (p * 64 + (64 - bits) \<le> i \<and> i < sz)" for i
    proof (cases "i < p * 64 + 64")
      case True
      moreover have "p * 64 + 64 \<le> sz" using 1 less.prems(2,3) by linarith
      ultimately show ?thesis unfolding one by (simp add: g)
    next
      case False
      then have "p * 64 + (64 - bits) \<le> i" by linarith
      with False show ?thesis unfolding one by (simp add: g)
    qed
    have "range_loop f sz bm p len bits msk = range_loop f sz ?bm (p + 1) (len - bits) 64 (- 1)"
      using 1 less.prems(1) by (subst range_loop.simps) (simp only: if_True simp_thms)
    then show ?thesis
      using rest unfolding step by (simp only: length_list_update simp_thms)
  next
    case 2
    have p: "p < length bm" using 2 less.prems by linarith
    have m: "sz mod 64 = 64 - bits + len"
      using word_index [of "p * 64" "64 - bits + len"] 2 less.prems(1-3) by (simp add: add.assoc)
    have "bit_at (bm[p := f (bm ! p) (msk AND BITMAP_LAST_WORD_MASK sz)]) i =
        g (bit_at bm i) (p * 64 + (64 - bits) \<le> i \<and> i < p * 64 + (64 - bits + len))" for i
      using 2 less.prems(5) m
      by (intro word_update_bits [OF f g p]) (auto simp: bit_and_iff bit_last_mask)
    moreover have "range_loop f sz bm p len bits msk = bm[p := f (bm ! p) (msk AND BITMAP_LAST_WORD_MASK sz)]"
      using 2 by (subst range_loop.simps) simp
    ultimately show ?thesis
      using less.prems(3) by (simp add: add.assoc)
  next
    case 3
    then have "range_loop f sz bm p len bits msk = bm"
      using less.prems(1) by (subst range_loop.simps) simp
    moreover have "\<not> (p * 64 + (64 - bits) \<le> i \<and> i < sz)" for i
      using 3 less.prems(3) by linarith
    ultimately show ?thesis by (simp only: g simp_thms)
  qed
qed

lemma set_clear_start:
  fixes start :: nat
  shows "start div 64 * 64 + (64 - (64 - start mod 64)) = start" "0 < 64 - start mod 64" "64 - start mod 64 \<le> 64"
  using mod_less_divisor [of 64 start] by simp_all

lemma bitmap_set_bits:
  assumes "start + len \<le> 64 * length bm"
  shows "length (bitmap_set bm start len) = length bm"
    and "bit_at (bitmap_set bm start len) i \<longleftrightarrow> bit_at bm i \<or> (start \<le> i \<and> i < start + len)"
  using range_loop_bits [of "\<lambda>w m. w OR m" "(\<or>)" "64 - start mod 64" "start + len" "start div 64" len bm
      "BITMAP_FIRST_WORD_MASK start"] assms set_clear_start [of start]
  by (simp_all add: bitmap_set_def bit_or_iff bit_first_mask)

lemma bitmap_clear_bits:
  assumes "start + len \<le> 64 * length bm"
  shows "length (bitmap_clear bm start len) = length bm"
    and "bit_at (bitmap_clear bm start len) i \<longleftrightarrow> bit_at bm i \<and> \<not> (start \<le> i \<and> i < start + len)"
  using range_loop_bits [of "\<lambda>w m. w AND NOT m" "\<lambda>a b. a \<and> \<not> b" "64 - start mod 64" "start + len"
      "start div 64" len bm "BITMAP_FIRST_WORD_MASK start"] assms set_clear_start [of start]
  by (simp_all add: bitmap_clear_def bit_simps bit_first_mask)

section \<open>Weight\<close>

lemma length_filter_upt: "length (filter P [0..<n]) = card {i. i < n \<and> P i}"
proof -
  have "length (filter P [0..<n]) = card (set (filter P [0..<n]))"
    by (simp only: distinct_card distinct_filter distinct_upt)
  then show ?thesis by (simp add: conj_commute)
qed

lemma hweight_card: "hweight_long w = card {i. i < 64 \<and> bit w i}"
  unfolding hweight_long_def by (rule length_filter_upt)

lemma card_word:
  "card {i. 64 * k \<le> i \<and> i < 64 * k + n \<and> bit_at bm i} = card {i. i < n \<and> bit (bm ! k) i}" if "n \<le> 64"
proof -
  have at: "bit_at bm (64 * k + i) = bit (bm ! k) i" if "i < n" for i
    using word_index [of "64 * k" i] that \<open>n \<le> 64\<close> by (simp add: bit_at_def)
  have "{i. 64 * k \<le> i \<and> i < 64 * k + n \<and> bit_at bm i} = (\<lambda>i. 64 * k + i) ` {i. i < n \<and> bit (bm ! k) i}"
  proof (intro equalityI subsetI)
    fix x assume "x \<in> {i. 64 * k \<le> i \<and> i < 64 * k + n \<and> bit_at bm i}"
    then show "x \<in> (\<lambda>i. 64 * k + i) ` {i. i < n \<and> bit (bm ! k) i}"
      using at [of "x - 64 * k"] by (intro image_eqI [of _ _ "x - 64 * k"]) auto
  qed (use at in auto)
  then show ?thesis by (simp add: card_image)
qed

lemma card_bits_split:
  assumes "lo \<le> (hi::nat)"
  shows "card {j. j < hi \<and> Q j} = card {j. lo \<le> j \<and> j < hi \<and> Q j} + card {j. j < lo \<and> Q j}"
    (is "card ?all = card ?up + card ?down")
proof -
  have "card (?up \<union> ?down) = card ?up + card ?down" by (rule card_Un_disjoint) auto
  moreover have "?all = ?up \<union> ?down" using assms by auto
  ultimately show ?thesis by (simp only:)
qed

lemma card_words: "card {i. i < 64 * k \<and> bit_at bm i} = (\<Sum>j\<leftarrow>[0..<k]. hweight_long (bm ! j))"
proof (induction k)
  case (Suc k)
  then show ?case
    using card_bits_split [of "64 * k" "64 * Suc k" "bit_at bm"] card_word [of 64 k bm]
    by (simp add: hweight_card add.commute)
qed simp

lemma bitmap_weight_card: "bitmap_weight bm bits = card {i. i < bits \<and> bit_at bm i}"
proof -
  let ?k = "bits div 64"
  have bits: "64 * ?k + bits mod 64 = bits" by simp
  have "{i. i < 64 \<and> bit (bm ! ?k AND BITMAP_LAST_WORD_MASK bits) i} = {i. i < bits mod 64 \<and> bit (bm ! ?k) i}"
    if "bits mod 64 \<noteq> 0"
    using that mod_less_divisor [of 64 bits] by (auto simp: bit_and_iff bit_last_mask)
  then have "(if bits mod 64 \<noteq> 0 then hweight_long (bm ! ?k AND BITMAP_LAST_WORD_MASK bits) else 0) =
      card {i. i < bits mod 64 \<and> bit (bm ! ?k) i}"
    by (auto simp: hweight_card)
  moreover have "card {i. 64 * ?k \<le> i \<and> i < bits \<and> bit_at bm i} = card {i. i < bits mod 64 \<and> bit (bm ! ?k) i}"
    using card_word [of "bits mod 64" ?k bm] bits by simp
  ultimately show ?thesis
    using card_bits_split [of "64 * ?k" bits "bit_at bm"] card_words [of ?k bm]
    by (simp add: bitmap_weight_def)
qed

section \<open>Free areas\<close>

definition free_area :: "bitmap \<Rightarrow> nat \<Rightarrow> nat \<Rightarrow> nat \<Rightarrow> bool" where
  "free_area bm sz nr s \<longleftrightarrow> s + nr \<le> sz \<and> (\<forall>i. s \<le> i \<and> i < s + nr \<longrightarrow> \<not> bit_at bm i)"

declare zero_area_loop.simps [simp del]

lemma free_area_from_zero:
  assumes "free_area bm sz nr s" and "start \<le> s" and "0 < nr"
  shows "find_next_zero_bit bm sz start \<le> s"
proof -
  have "start < sz" "\<not> bit_at bm s" using assms by (auto simp: free_area_def)
  then show ?thesis
    using find_next_zero_bit_first [of start sz bm] assms(2) unfolding first_from_def
    by (meson not_le_imp_less)
qed

lemma zero_area_loop_first:
  "0 < nr \<Longrightarrow>
   (let r = zero_area_loop bm sz nr 0 0 start in
    (r \<le> sz \<longrightarrow> start \<le> r \<and> free_area bm sz nr r) \<and>
    (\<forall>s. start \<le> s \<and> free_area bm sz nr s \<longrightarrow> r \<le> s))"
proof (induction bm sz nr "0::nat" "0::nat" start rule: zero_area_loop.induct)
  case (1 bm sz nr start)
  let ?x = "find_next_zero_bit bm sz start"
  have x_le: "?x \<le> s" if "start \<le> s" "free_area bm sz nr s" for s
    using free_area_from_zero [OF that(2,1)] "1.prems" by simp
  show ?case
  proof (cases "?x + nr > sz")
    case True
    then have "zero_area_loop bm sz nr 0 0 start = ?x + nr"
      by (subst zero_area_loop.simps) (simp add: Let_def)
    moreover have "\<not> (start \<le> s \<and> free_area bm sz nr s)" for s
      using x_le [of s] True by (auto simp: free_area_def)
    ultimately show ?thesis using True by (auto simp: Let_def)
  next
    case False
    let ?i = "find_next_bit bm (?x + nr) ?x"
    have first: "first_from (bit_at bm) ?x (?x + nr) ?i"
      using find_next_bit_first [of ?x "?x + nr" bm] "1.prems" by simp
    have start: "start \<le> ?x"
      using find_next_bounds(4) [of start sz bm] find_next_beyond(2) [of sz start bm] False "1.prems"
      by (cases "start \<le> sz") auto
    show ?thesis
    proof (cases "?i < ?x + nr")
      case True
      have rec: "zero_area_loop bm sz nr 0 0 start = zero_area_loop bm sz nr 0 0 (?i + 1)"
        using True False by (subst zero_area_loop.simps) (simp add: Let_def)
      have i: "?x \<le> ?i" "bit_at bm ?i" using first True by (auto simp: first_from_def)
      have "?i + 1 \<le> s" if "start \<le> s" "free_area bm sz nr s" for s
      proof (rule ccontr)
        assume "\<not> ?i + 1 \<le> s"
        with x_le [OF that] True have "s \<le> ?i" "?i < s + nr" by auto
        with that(2) i(2) show False by (auto simp: free_area_def)
      qed
      with "1.hyps" [OF _ _ _ refl, of ?x] True False "1.prems" i start show ?thesis
        unfolding rec by (fastforce simp: Let_def)
    next
      case clear: False
      then have "zero_area_loop bm sz nr 0 0 start = ?x"
        using False by (subst zero_area_loop.simps) (simp add: Let_def)
      moreover have "free_area bm sz nr ?x"
        using first clear False by (auto simp: first_from_def free_area_def)
      ultimately show ?thesis using start x_le by (simp add: Let_def)
    qed
  qed
qed

section \<open>Word-wise comparison\<close>

lemma word_nonzero_bits: "(w :: u64) \<noteq> 0 \<longleftrightarrow> (\<exists>i<64. bit w i)"
  using word_bit_ex [of w] by auto

lemma some_word_bits:
  assumes f: "\<And>a b i. i < 64 \<Longrightarrow> bit (f a b) i = F (bit a i) (bit b i)"
  shows "some_word f m1 m2 bits \<longleftrightarrow> (\<exists>i<bits. F (bit_at m1 i) (bit_at m2 i))"
proof
  assume "some_word f m1 m2 bits"
  then consider k i where "k < bits div 64" "i < 64" "bit (f (m1 ! k) (m2 ! k)) i"
    | i where "bits mod 64 \<noteq> 0" "i < 64" "bit (f (m1 ! (bits div 64)) (m2 ! (bits div 64))) i" "i < bits mod 64"
    by (auto simp: some_word_def word_nonzero_bits bit_and_iff bit_last_mask)
  then obtain k i where "64 * k + i < bits" "i < 64" "bit (f (m1 ! k) (m2 ! k)) i"
  proof cases
    case 1
    have "64 * k + i < 64 * (bits div 64)" using 1(1,2) by linarith
    also have "\<dots> \<le> bits" by simp
    finally show ?thesis using 1 that by blast
  next
    case 2
    have "64 * (bits div 64) + i < bits" using 2(4) mult_div_mod_eq [of 64 bits] by linarith
    with 2 that show ?thesis by blast
  qed
  then show "\<exists>i<bits. F (bit_at m1 i) (bit_at m2 i)"
    using word_index [of "64 * k" i] f by (intro exI [of _ "64 * k + i"]) (auto simp: bit_at_def)
next
  assume "\<exists>i<bits. F (bit_at m1 i) (bit_at m2 i)"
  then obtain i where i: "i < bits" "bit (f (m1 ! (i div 64)) (m2 ! (i div 64))) (i mod 64)"
    using f by (auto simp: bit_at_def)
  have m: "i mod 64 < 64" by simp
  show "some_word f m1 m2 bits"
  proof (cases "i div 64 < bits div 64")
    case True
    then show ?thesis using i(2) m by (auto simp: some_word_def word_nonzero_bits)
  next
    case False
    then have "i div 64 = bits div 64" using i(1) by (meson div_le_mono le_antisym less_imp_le not_less)
    moreover from this have "i mod 64 < bits mod 64"
      using i(1) mult_div_mod_eq [of 64 i] mult_div_mod_eq [of 64 bits] by linarith
    ultimately show ?thesis
      using i(2) m by (auto simp: some_word_def word_nonzero_bits bit_and_iff bit_last_mask)
  qed
qed

section \<open>Correctness of the bitmap operations\<close>

text \<open>
  C14: the word-wise searches agree with a search bit by bit: \<open>find_next_bit\<close> and
  \<open>find_next_zero_bit\<close> return the first set (clear) bit from the start on and the size when
  there is none, and \<open>find_first_bit\<close> is the search from bit 0.
\<close>

theorem find_bit_correct:
  "(if s < n then first_from (bit_at a) s n (find_next_bit a n s) else find_next_bit a n s = n) \<and>
   (if s < n then first_from (\<lambda>i. \<not> bit_at a i) s n (find_next_zero_bit a n s)
    else find_next_zero_bit a n s = n) \<and>
   first_from (bit_at a) 0 n (find_first_bit a n) \<and>
   (bitmap_empty a n \<longleftrightarrow> \<not> (\<exists>i<n. bit_at a i))"
proof -
  have "find_first_bit a n = n \<longleftrightarrow> \<not> (\<exists>i<n. bit_at a i)"
    using find_first_bit_first [of a n] unfolding first_from_def by (metis le_less zero_le)
  then show ?thesis
    using find_next_bit_first [of s n a] find_next_zero_bit_first [of s n a] find_next_beyond [of n s a]
      find_first_bit_first [of a n]
    by (simp add: bitmap_empty_def)
qed

text \<open>
  C15: \<open>bitmap_set\<close> and \<open>bitmap_clear\<close> change exactly the bits of their range, across word
  boundaries, and \<open>bitmap_weight\<close> counts the set bits below its limit.
\<close>

theorem bitmap_set_clear_correct:
  assumes "start + len \<le> 64 * length bm"
  shows "(\<forall>i. bit_at (bitmap_set bm start len) i \<longleftrightarrow> bit_at bm i \<or> (start \<le> i \<and> i < start + len)) \<and>
    (\<forall>i. bit_at (bitmap_clear bm start len) i \<longleftrightarrow> bit_at bm i \<and> \<not> (start \<le> i \<and> i < start + len)) \<and>
    length (bitmap_set bm start len) = length bm \<and> length (bitmap_clear bm start len) = length bm \<and>
    bitmap_weight bm n = card {i. i < n \<and> bit_at bm i}"
  using bitmap_set_bits [OF assms] bitmap_clear_bits [OF assms] bitmap_weight_card [of bm n] by simp

theorem bitmap_set_clear_correct_witness:
  "\<forall>i. bit_at (bitmap_set [0, 0] 60 10) i \<longleftrightarrow> bit_at [0, 0] i \<or> (60 \<le> i \<and> i < 70)"
  using bitmap_set_clear_correct [of 60 10 "[0, 0]" 0] by simp

text \<open>
  C16: \<open>bitmap_find_next_zero_area\<close> returns the first position from the start on at which the
  requested number of bits are clear, and a number beyond the size of the map when there is
  no such position.
\<close>

theorem bitmap_find_next_zero_area_correct:
  assumes "0 < nr" and "r = bitmap_find_next_zero_area bm sz start nr 0"
  shows "(if \<exists>s\<ge>start. free_area bm sz nr s
     then start \<le> r \<and> free_area bm sz nr r \<and> (\<forall>s. start \<le> s \<and> free_area bm sz nr s \<longrightarrow> r \<le> s)
     else sz < r)"
proof -
  have r: "r \<le> sz \<longrightarrow> start \<le> r \<and> free_area bm sz nr r" "\<forall>s. start \<le> s \<and> free_area bm sz nr s \<longrightarrow> r \<le> s"
    using zero_area_loop_first [OF assms(1), of bm sz start] assms(2)
    by (simp_all add: bitmap_find_next_zero_area_def bitmap_find_next_zero_area_off_def Let_def)
  show ?thesis
  proof (cases "\<exists>s\<ge>start. free_area bm sz nr s")
    case True
    then obtain s where "start \<le> s" "free_area bm sz nr s" by blast
    with r(2) have "r \<le> sz" by (fastforce simp: free_area_def)
    with r True show ?thesis by simp
  next
    case False
    with r(1) show ?thesis by (auto simp: not_le [symmetric])
  qed
qed

theorem bitmap_find_next_zero_area_correct_witness:
  "free_area [0] 64 3 (bitmap_find_next_zero_area [0] 64 5 3 0)"
proof -
  have "free_area [0] 64 3 5" by (simp add: free_area_def bit_at_def)
  then show ?thesis
    using bitmap_find_next_zero_area_correct [of 3 "bitmap_find_next_zero_area [0] 64 5 3 0" "[0]" 64 5]
    by (auto split: if_splits)
qed

text \<open>
  C17: the word-wise comparisons are the comparisons of the bits below the limit: equality,
  intersection and inclusion.
\<close>

theorem bitmap_compare_correct:
  "(bitmap_equal m1 m2 n \<longleftrightarrow> \<not> (\<exists>i<n. bit_at m1 i \<noteq> bit_at m2 i)) \<and>
   (bitmap_intersects m1 m2 n \<longleftrightarrow> (\<exists>i<n. bit_at m1 i \<and> bit_at m2 i)) \<and>
   (bitmap_subset m1 m2 n \<longleftrightarrow> \<not> (\<exists>i<n. bit_at m1 i \<and> \<not> bit_at m2 i))"
  using some_word_bits [of "(XOR)" "(\<noteq>)" m1 m2 n] some_word_bits [of "(AND)" "(\<and>)" m1 m2 n]
    some_word_bits [of "\<lambda>a b. a AND NOT b" "\<lambda>a b. a \<and> \<not> b" m1 m2 n]
  by (auto simp: bitmap_equal_def bitmap_intersects_def bitmap_subset_def bit_simps)

end
