(* ===== verification/Block_Bitmap.thy ===== *)
theory Block_Bitmap
  imports Bitmap
begin

text \<open>
  The block bitmap of \<open>src/libfs/src/io/balloc.c\<close>: the on-disk record of used blocks, its
  bytewise and wordwise operations with the dirty flags of its blocks. The memory of the bitmap is the array of 64-bit words of
  \<open>Bitmap\<close>; the code also reads and writes it as bytes, which on the little-endian machine
  are the eight groups of bits of each word.
\<close>

unbundle bit_operations_syntax

section \<open>Bytes of the bitmap\<close>

definition get_byte :: "bitmap \<Rightarrow> nat \<Rightarrow> u8" where
  "get_byte bm k = ucast (drop_bit (8 * (k mod 8)) (bm ! (k div 8)))"

definition put_byte :: "bitmap \<Rightarrow> nat \<Rightarrow> u8 \<Rightarrow> bitmap" where
  "put_byte bm k v =
     bm[k div 8 := (bm ! (k div 8) AND NOT (push_bit (8 * (k mod 8)) 255)) OR
                   push_bit (8 * (k mod 8)) (ucast v)]"

section \<open>The block bitmap\<close>

record block_bitmap =
  bits :: bitmap
  bitmap_desc :: "bool list"
  bitmap_count :: nat
  nr_bits :: nat
  bitmap_block :: nat
  bd_blocksize :: nat

definition size_of_bitmap :: "nat \<Rightarrow> nat" where
  "size_of_bitmap nrblocks = nrblocks div 8 + (if nrblocks mod 8 \<noteq> 0 then 1 else 0)"

text \<open>\<open>bd_blocksize\<close> is a power of two and the shift by \<open>bd_blocksize_bits\<close> divides by it.\<close>

definition blocks_of_bitmap :: "nat \<Rightarrow> nat \<Rightarrow> nat" where
  "blocks_of_bitmap blocksize nrblocks =
     size_of_bitmap nrblocks div blocksize +
     (if size_of_bitmap nrblocks mod blocksize \<noteq> 0 then 1 else 0)"

definition set_dirty :: "block_bitmap \<Rightarrow> nat \<Rightarrow> block_bitmap" where
  "set_dirty b k = b\<lparr>bitmap_desc := (bitmap_desc b)[k := True]\<rparr>"

definition bitmap_bits_set :: "block_bitmap \<Rightarrow> nat \<Rightarrow> block_bitmap" where
  "bitmap_bits_set b i =
     set_dirty (b\<lparr>bits := put_byte (bits b) (i div 8)
                   (get_byte (bits b) (i div 8) OR push_bit (i mod 8) 1)\<rparr>)
       (i div (bd_blocksize b * 8))"

definition bitmap_bits_set_range :: "block_bitmap \<Rightarrow> nat \<Rightarrow> nat \<Rightarrow> block_bitmap" where
  "bitmap_bits_set_range b i len =
     fold (\<lambda>k b. set_dirty b k)
       [i div (g_block_size_bytes * 8)..<(i + len) div (g_block_size_bytes * 8) + 1]
       (b\<lparr>bits := bitmap_set (bits b) i len\<rparr>)"

text \<open>\<open>__bitmap_bits_clr\<close>: \<open>p\<close> is the byte offset of the pointer it is given.\<close>

definition bits_clr_at :: "block_bitmap \<Rightarrow> nat \<Rightarrow> nat \<Rightarrow> block_bitmap" where
  "bits_clr_at b p i =
     set_dirty (b\<lparr>bits := put_byte (bits b) (p + i div 8)
                   (get_byte (bits b) (p + i div 8) AND NOT (push_bit (i mod 8) 1))\<rparr>)
       (p div bd_blocksize b + i div (bd_blocksize b * 8))"

definition bitmap_bits_clr :: "block_bitmap \<Rightarrow> nat \<Rightarrow> block_bitmap" where
  "bitmap_bits_clr b i = bits_clr_at b 0 i"

definition bitmap_is_bit_set :: "bitmap \<Rightarrow> nat \<Rightarrow> nat \<Rightarrow> bool" where
  "bitmap_is_bit_set bm p i = (get_byte bm (p + i div 8) AND push_bit (i mod 8) 1 \<noteq> 0)"

text \<open>
  \<open>bitmap_bits_free\<close>: single bits up to a byte boundary, then four, two and one bytes at a
  time without marking the block dirty, then the remaining bits.
\<close>

function bits_free_head :: "block_bitmap \<Rightarrow> nat \<Rightarrow> nat \<Rightarrow> block_bitmap \<times> nat \<times> nat" where
  "bits_free_head b i bcnt =
     (if i mod 8 \<noteq> 0 \<and> bcnt \<noteq> 0 then bits_free_head (bits_clr_at b 0 i) (i + 1) (bcnt - 1)
      else (b, i, bcnt))"
  by pat_completeness auto
termination by (relation "measure (\<lambda>(b, i, bcnt). bcnt)") auto

definition zero_bytes :: "bitmap \<Rightarrow> nat \<Rightarrow> nat \<Rightarrow> bitmap" where
  "zero_bytes bm p n = fold (\<lambda>k bm. put_byte bm k 0) [p..<p + n] bm"

function bits_free_bytes :: "nat \<Rightarrow> bitmap \<Rightarrow> nat \<Rightarrow> nat \<Rightarrow> bitmap \<times> nat \<times> nat" where
  "bits_free_bytes n bm p bcnt =
     (if bcnt \<ge> 8 * n \<and> 0 < n then bits_free_bytes n (zero_bytes bm p n) (p + n) (bcnt - 8 * n)
      else (bm, p, bcnt))"
  by pat_completeness auto
termination by (relation "measure (\<lambda>(n, bm, p, bcnt). bcnt)") auto

definition bitmap_bits_free :: "block_bitmap \<Rightarrow> nat \<Rightarrow> nat \<Rightarrow> block_bitmap" where
  "bitmap_bits_free b i bcnt =
     (let (b, i, bcnt) = bits_free_head b i bcnt in
      if i mod 8 \<noteq> 0 then b
      else
        let (bm, p, bcnt) = bits_free_bytes 4 (bits b) (i div 8) bcnt;
            (bm, p, bcnt) = bits_free_bytes 2 bm p bcnt;
            (bm, p, bcnt) = bits_free_bytes 1 bm p bcnt in
        fold (\<lambda>i b. bits_clr_at b p i) [0..<bcnt] (b\<lparr>bits := bm\<rparr>))"

definition bitmap_find_next_clr :: "block_bitmap \<Rightarrow> nat \<Rightarrow> nat \<Rightarrow> int \<times> nat" where
  "bitmap_find_next_clr b start_bit ebit =
     (let bit_id = find_next_zero_bit (bits b) (nr_bits b) start_bit in
      if bit_id \<ge> ebit then (- ENOSPC, 0) else (0, bit_id))"

definition bitmap_find_next_contiguous_clr :: "block_bitmap \<Rightarrow> nat \<Rightarrow> nat \<Rightarrow> nat \<Rightarrow> int \<times> nat" where
  "bitmap_find_next_contiguous_clr b start_bit end_bit len =
     (let bit_id = bitmap_find_next_zero_area (bits b) (nr_bits b) start_bit len 0 in
      if bit_id \<ge> end_bit then (- ENOSPC, 0) else (0, bit_id))"

text \<open>
  \<open>bitmap_find_bits_clr\<close>: \<open>None\<close> is \<open>-ENOSPC\<close>. The head looks at single bits and returns
  the number it started from, the four- and two-byte steps skip groups of ones, and
  \<open>finish_it\<close> looks for a zero bit byte by byte.
\<close>

function find_clr_head :: "bitmap \<Rightarrow> nat \<Rightarrow> nat \<Rightarrow> nat \<Rightarrow> (nat option) + nat \<times> nat" where
  "find_clr_head bm start i bcnt =
     (if i mod 8 \<noteq> 0 then
        if bcnt = 0 then Inl None
        else if \<not> bitmap_is_bit_set bm 0 i then Inl (Some start)
        else find_clr_head bm start (i + 1) (bcnt - 1)
      else Inr (i, bcnt))"
  by pat_completeness auto
termination by (relation "measure (\<lambda>(bm, start, i, bcnt). bcnt)") auto

text \<open>The second result tells whether the group is not all ones (\<open>goto finish_it\<close>).\<close>

function skip_ones :: "nat \<Rightarrow> bitmap \<Rightarrow> nat \<Rightarrow> nat \<Rightarrow> nat \<times> bool \<times> nat" where
  "skip_ones n bm p bcnt =
     (if bcnt \<ge> 8 * n \<and> 0 < n then
        if \<exists>k\<in>set [p..<p + n]. get_byte bm k \<noteq> 255 then (p, True, bcnt)
        else skip_ones n bm (p + n) (bcnt - 8 * n)
      else (p, False, bcnt))"
  by pat_completeness auto
termination by (relation "measure (\<lambda>(n, bm, p, bcnt). bcnt)") auto

function find_clr_finish :: "bitmap \<Rightarrow> nat \<Rightarrow> nat \<Rightarrow> nat option" where
  "find_clr_finish bm p bcnt =
     (if bcnt \<ge> 8 then
        (case List.find (\<lambda>i. \<not> bitmap_is_bit_set bm p i) [0..<8] of
           Some i \<Rightarrow> Some (8 * p + i)
         | None \<Rightarrow> find_clr_finish bm (p + 1) (bcnt - 8))
      else map_option (\<lambda>i. 8 * p + i) (List.find (\<lambda>i. \<not> bitmap_is_bit_set bm p i) [0..<bcnt]))"
  by pat_completeness auto
termination by (relation "measure (\<lambda>(bm, p, bcnt). bcnt)") auto

definition bitmap_find_bits_clr :: "block_bitmap \<Rightarrow> nat \<Rightarrow> nat \<Rightarrow> nat option" where
  "bitmap_find_bits_clr b i ebit =
     (case find_clr_head (bits b) i i (ebit + 1 - i) of
        Inl r \<Rightarrow> r
      | Inr (i, bcnt) \<Rightarrow>
          let (p, found, bcnt) = skip_ones 4 (bits b) (i div 8) bcnt;
              (p, found, bcnt) = (if found then (p, True, bcnt) else skip_ones 2 (bits b) p bcnt) in
          find_clr_finish (bits b) p bcnt)"

section \<open>Reading and writing the bitmap blocks\<close>

text \<open>
  The device is a function from block numbers to blocks of words. A buffer head of
  \<open>bh_get_sync_IO\<close> with \<open>BH_NO_DATA_ALLOC\<close> reads into or writes from the bitmap memory.
\<close>

type_synonym device = "nat \<Rightarrow> u64 list"

definition read_all_bitmap :: "device \<Rightarrow> nat \<Rightarrow> nat \<Rightarrow> nat \<Rightarrow> block_bitmap" where
  "read_all_bitmap dev blocksize nrblocks start =
     (let n = blocks_of_bitmap blocksize nrblocks in
      \<lparr>bits = concat (map (\<lambda>i. dev (start + i)) [0..<n]),
       bitmap_desc = replicate n False, bitmap_count = n, nr_bits = nrblocks,
       bitmap_block = start, bd_blocksize = blocksize\<rparr>)"

definition bitmap_chunk :: "block_bitmap \<Rightarrow> nat \<Rightarrow> u64 list" where
  "bitmap_chunk b i = take (bd_blocksize b div 8) (drop (i * (bd_blocksize b div 8)) (bits b))"

definition store_one :: "nat \<Rightarrow> device \<times> block_bitmap \<Rightarrow> device \<times> block_bitmap" where
  "store_one i s =
     (case s of (dev, b) \<Rightarrow>
        if bitmap_desc b ! i
        then (dev(bitmap_block b + i := bitmap_chunk b i),
              b\<lparr>bitmap_desc := (bitmap_desc b)[i := False]\<rparr>)
        else (dev, b))"

definition store_all_bitmap :: "device \<Rightarrow> block_bitmap \<Rightarrow> device \<times> block_bitmap" where
  "store_all_bitmap dev b = fold store_one [0..<bitmap_count b] (dev, b)"

text \<open>One bitmap is another with a range of bits cleared.\<close>

definition cleared :: "bitmap \<Rightarrow> nat \<Rightarrow> nat \<Rightarrow> bitmap \<Rightarrow> bool" where
  "cleared bm lo hi bm' \<longleftrightarrow>
     length bm' = length bm \<and> (\<forall>j. bit_at bm' j \<longleftrightarrow> bit_at bm j \<and> \<not> (lo \<le> j \<and> j < hi))"

text \<open>The answer to a search for the first clear bit of a range.\<close>

definition clr_from :: "bitmap \<Rightarrow> nat \<Rightarrow> nat \<Rightarrow> nat option \<Rightarrow> bool" where
  "clr_from bm lo hi r \<longleftrightarrow>
     (case r of
        None \<Rightarrow> \<forall>j. lo \<le> j \<and> j < hi \<longrightarrow> bit_at bm j
      | Some k \<Rightarrow> lo \<le> k \<and> k < hi \<and> \<not> bit_at bm k \<and> (\<forall>j. lo \<le> j \<and> j < k \<longrightarrow> bit_at bm j))"

definition store_ok :: "device \<Rightarrow> block_bitmap \<Rightarrow> bool" where
  "store_ok dev b \<longleftrightarrow>
     (\<forall>i<bitmap_count b. \<not> bitmap_desc b ! i \<longrightarrow> dev (bitmap_block b + i) = bitmap_chunk b i)"

definition small_bitmap :: block_bitmap where
  "small_bitmap = \<lparr>bits = replicate 512 (- 1), bitmap_desc = [False], bitmap_count = 1, nr_bits = 32768,
     bitmap_block = 5, bd_blocksize = 4096\<rparr>"

section \<open>Bits of bytes\<close>

declare bits_free_head.simps [simp del] bits_free_bytes.simps [simp del]
  find_clr_head.simps [simp del] skip_ones.simps [simp del] find_clr_finish.simps [simp del]

lemma byte_bit_index:
  fixes i :: nat
  shows "i mod 64 = 8 * ((i div 8) mod 8) + i mod 8" and "i div 64 = i div 8 div 8"
  using mod_mult2_eq [of i 8 8] by (simp_all add: div_mult2_eq [symmetric])

lemma bit_255: "bit (255 :: int) i \<longleftrightarrow> i < 8"
proof -
  have "(255 :: int) = mask 8" by (simp add: mask_eq_exp_minus_1)
  then have "bit (255 :: int) i \<longleftrightarrow> bit (mask 8 :: int) i" by (simp only:)
  also have "\<dots> \<longleftrightarrow> i < 8" unfolding bit_mask_iff by auto
  finally show ?thesis .
qed

lemma bit_get_byte: "j < 8 \<Longrightarrow> bit (get_byte bm k) j = bit_at bm (8 * k + j)"
proof -
  assume j: "j < 8"
  have "(8 * k + j) div 64 = k div 8" "(8 * k + j) mod 64 = 8 * (k mod 8) + j"
    using byte_bit_index [of "8 * k + j"] j by simp_all
  with j show ?thesis
    by (simp add: get_byte_def bit_at_def bit_simps ac_simps)
qed

lemma bit_at_put_byte:
  assumes "k < 8 * length bm"
  shows "bit_at (put_byte bm k v) i = (if i div 8 = k then bit v (i mod 8) else bit_at bm i)"
proof (cases "i div 64 = k div 8")
  case True
  let ?w = "bm ! (k div 8)" and ?s = "8 * (k mod 8)"
  have k: "k div 8 < length bm" using assms by (simp add: less_mult_imp_div_less mult.commute)
  have v: "bit v n \<Longrightarrow> n < 8" for n using bit_imp_le_length [of v n] by simp
  have bits: "bit_at (put_byte bm k v) i \<longleftrightarrow>
      (bit ?w (i mod 64) \<and> \<not> (?s \<le> i mod 64 \<and> i mod 64 - ?s < 8)) \<or>
      (?s \<le> i mod 64 \<and> i mod 64 - ?s < 8 \<and> bit v (i mod 64 - ?s))"
    using True k v by (auto simp: put_byte_def bit_at_update bit_simps bit_255)
  have j: "i mod 64 = 8 * ((i div 8) mod 8) + i mod 8" by (rule byte_bit_index)
  have "i div 8 div 8 = k div 8" using True byte_bit_index(2) [of i] by simp
  then have eq: "i div 8 = k \<longleftrightarrow> (i div 8) mod 8 = k mod 8"
    by (metis div_mult_mod_eq)
  show ?thesis
  proof (cases "i div 8 = k")
    case same: True
    then have "i mod 64 = ?s + i mod 8" using j by simp
    with same bits show ?thesis by simp
  next
    case False
    with eq have "(i div 8) mod 8 \<noteq> k mod 8" by simp
    then have "\<not> (?s \<le> i mod 64 \<and> i mod 64 - ?s < 8)"
      using j mod_less_divisor [of 8 i] by linarith
    with False bits True show ?thesis by (auto simp: bit_at_def)
  qed
next
  case False
  then have "i div 8 \<noteq> k" using byte_bit_index(2) [of i] by auto
  with False show ?thesis by (auto simp: put_byte_def bit_at_def)
qed

lemma length_put_byte [simp]: "length (put_byte bm k v) = length bm"
  by (simp add: put_byte_def)

lemma bit_1_u8: "j < 8 \<Longrightarrow> bit (push_bit n (1 :: u8)) j \<longleftrightarrow> j = n"
  by (auto simp: bit_simps)

lemma div8_eq: "(i :: nat) div 8 = k div 8 \<Longrightarrow> i mod 8 = k mod 8 \<Longrightarrow> i = k"
  by (metis div_mult_mod_eq)

lemma div8_iff: "(j :: nat) div 8 = k \<longleftrightarrow> 8 * k \<le> j \<and> j < 8 * Suc k"
proof
  assume "j div 8 = k"
  then show "8 * k \<le> j \<and> j < 8 * Suc k"
    using times_div_less_eq_dividend [of 8 j] dividend_less_times_div [of 8 j] by auto
qed (auto intro: div_nat_eqI)

lemma bitmap_is_bit_set_bit: "bitmap_is_bit_set bm p i = bit_at bm (8 * p + i)"
proof -
  let ?b = "get_byte bm (p + i div 8)"
  have m: "i mod 8 < 8" by simp
  have "?b AND push_bit (i mod 8) 1 \<noteq> 0 \<longleftrightarrow> bit ?b (i mod 8)"
    by (simp add: and_exp_eq_0_iff_not_bit)
  also have "\<dots> = bit_at bm (8 * p + i)"
    using bit_get_byte [OF m, of bm "p + i div 8"] by (simp add: algebra_simps)
  finally show ?thesis by (simp add: bitmap_is_bit_set_def)
qed

lemma bits_clr_at_bits:
  assumes "8 * p + i < 64 * length (bits b)"
  shows "bit_at (bits (bits_clr_at b p i)) j \<longleftrightarrow> bit_at (bits b) j \<and> j \<noteq> 8 * p + i"
    and "length (bits (bits_clr_at b p i)) = length (bits b)"
proof -
  let ?k = "p + i div 8"
  have k: "?k < 8 * length (bits b)" using assms by linarith
  have idx: "j = 8 * p + i \<longleftrightarrow> j div 8 = ?k \<and> j mod 8 = i mod 8"
    using div8_eq [of j "8 * p + i"] by auto
  have "bit (get_byte (bits b) ?k AND NOT (push_bit (i mod 8) 1)) (j mod 8) \<longleftrightarrow>
      bit_at (bits b) j \<and> j mod 8 \<noteq> i mod 8" if "j div 8 = ?k"
  proof -
    have "8 * ?k + j mod 8 = j" using that by (metis mult_div_mod_eq)
    then show ?thesis by (simp add: bit_simps bit_get_byte bit_1_u8)
  qed
  then show "bit_at (bits (bits_clr_at b p i)) j \<longleftrightarrow> bit_at (bits b) j \<and> j \<noteq> 8 * p + i"
    unfolding idx by (auto simp: bits_clr_at_def set_dirty_def bit_at_put_byte [OF k])
qed (simp add: bits_clr_at_def set_dirty_def)

section \<open>Clearing a range of bits\<close>

lemma cleared_refl: "cleared bm lo lo bm"
  by (auto simp: cleared_def)

lemma cleared_trans:
  assumes "cleared bm lo m bm1" and "cleared bm1 m hi bm2" and "lo \<le> m" and "m \<le> hi"
  shows "cleared bm lo hi bm2"
proof -
  have "bit_at bm1 j \<longleftrightarrow> bit_at bm j \<and> \<not> (lo \<le> j \<and> j < m)"
    "bit_at bm2 j \<longleftrightarrow> bit_at bm1 j \<and> \<not> (m \<le> j \<and> j < hi)" for j
    using assms(1,2) unfolding cleared_def by blast+
  moreover have "lo \<le> j \<and> j < hi \<longleftrightarrow> (lo \<le> j \<and> j < m) \<or> (m \<le> j \<and> j < hi)" for j
    using assms(3,4) by linarith
  ultimately have "bit_at bm2 j \<longleftrightarrow> bit_at bm j \<and> \<not> (lo \<le> j \<and> j < hi)" for j
    by blast
  with assms(1,2) show ?thesis unfolding cleared_def by simp
qed

lemma cleared_bit:
  assumes "8 * p + i < 64 * length (bits b)"
  shows "cleared (bits b) (8 * p + i) (8 * p + i + 1) (bits (bits_clr_at b p i))"
proof -
  have "8 * p + i \<le> j \<and> j < 8 * p + i + 1 \<longleftrightarrow> j = 8 * p + i" for j by linarith
  with bits_clr_at_bits [OF assms] show ?thesis unfolding cleared_def by blast
qed

lemma bits_free_head_cleared:
  "i + bcnt \<le> 64 * length (bits b) \<Longrightarrow> bits_free_head b i bcnt = (b', i', bcnt') \<Longrightarrow>
   cleared (bits b) i i' (bits b') \<and> i \<le> i' \<and> i' + bcnt' = i + bcnt \<and> (i' mod 8 = 0 \<or> bcnt' = 0)"
proof (induction b i bcnt rule: bits_free_head.induct)
  case (1 b i bcnt)
  show ?case
  proof (cases "i mod 8 \<noteq> 0 \<and> bcnt \<noteq> 0")
    case True
    let ?b = "bits_clr_at b 0 i"
    have one: "cleared (bits b) i (i + 1) (bits ?b)"
      using cleared_bit [of 0 i b] "1.prems"(1) True by simp
    then have "length (bits ?b) = length (bits b)" by (simp add: cleared_def)
    moreover have "bits_free_head ?b (i + 1) (bcnt - 1) = (b', i', bcnt')"
      using "1.prems"(2) True by (simp add: bits_free_head.simps [of b])
    ultimately have "cleared (bits ?b) (i + 1) i' (bits b') \<and> i + 1 \<le> i' \<and> i' + bcnt' = i + bcnt \<and>
        (i' mod 8 = 0 \<or> bcnt' = 0)"
      using "1.IH" [OF True] "1.prems"(1) True by simp
    with cleared_trans [OF one] show ?thesis by auto
  next
    case False
    then have "bits_free_head b i bcnt = (b, i, bcnt)" by (subst bits_free_head.simps) auto
    with "1.prems"(2) False show ?thesis by (auto simp: cleared_refl)
  qed
qed

lemma zero_bytes_cleared:
  "8 * (p + n) \<le> 64 * length bm \<Longrightarrow> cleared bm (8 * p) (8 * (p + n)) (zero_bytes bm p n)"
proof (induction n)
  case 0
  then show ?case by (simp add: zero_bytes_def cleared_refl)
next
  case (Suc n)
  let ?bm = "zero_bytes bm p n"
  have IH: "cleared bm (8 * p) (8 * (p + n)) ?bm" using Suc by simp
  have "p + n < 8 * length ?bm" using Suc.prems IH by (simp add: cleared_def)
  from bit_at_put_byte [OF this, of 0] have "cleared ?bm (8 * (p + n)) (8 * (p + Suc n)) (put_byte ?bm (p + n) 0)"
    by (simp add: cleared_def div8_iff)
  moreover have "zero_bytes bm p (Suc n) = put_byte ?bm (p + n) 0" by (simp add: zero_bytes_def)
  ultimately show ?case using cleared_trans [OF IH] by simp
qed

lemma bits_free_bytes_cleared:
  "8 * p + bcnt \<le> 64 * length bm \<Longrightarrow> bits_free_bytes n bm p bcnt = (bm', p', bcnt') \<Longrightarrow>
   cleared bm (8 * p) (8 * p') bm' \<and> p \<le> p' \<and> 8 * p' + bcnt' = 8 * p + bcnt"
proof (induction n bm p bcnt rule: bits_free_bytes.induct)
  case (1 n bm p bcnt)
  show ?case
  proof (cases "bcnt \<ge> 8 * n \<and> 0 < n")
    case True
    let ?bm = "zero_bytes bm p n"
    have one: "cleared bm (8 * p) (8 * (p + n)) ?bm"
      using "1.prems"(1) True by (intro zero_bytes_cleared) simp
    then have "length ?bm = length bm" by (simp add: cleared_def)
    moreover have "bits_free_bytes n ?bm (p + n) (bcnt - 8 * n) = (bm', p', bcnt')"
      using "1.prems"(2) True by (simp add: bits_free_bytes.simps [of n bm])
    ultimately have "cleared ?bm (8 * (p + n)) (8 * p') bm' \<and> p + n \<le> p' \<and> 8 * p' + bcnt' = 8 * p + bcnt"
      using "1.IH" [OF True] "1.prems"(1) True by simp
    with cleared_trans [OF one] show ?thesis by auto
  next
    case False
    then have "bits_free_bytes n bm p bcnt = (bm, p, bcnt)" by (subst bits_free_bytes.simps) auto
    with "1.prems"(2) show ?thesis by (simp add: cleared_refl)
  qed
qed

lemma fold_clr_cleared:
  "8 * p + n \<le> 64 * length (bits b) \<Longrightarrow>
   cleared (bits b) (8 * p) (8 * p + n) (bits (fold (\<lambda>i b. bits_clr_at b p i) [0..<n] b))"
proof (induction n)
  case (Suc n)
  let ?b = "fold (\<lambda>i b. bits_clr_at b p i) [0..<n] b"
  have IH: "cleared (bits b) (8 * p) (8 * p + n) (bits ?b)" using Suc by simp
  then have "8 * p + n < 64 * length (bits ?b)" using Suc.prems by (simp add: cleared_def)
  from cleared_trans [OF IH cleared_bit [OF this]] show ?case by simp
qed (simp add: cleared_refl)

lemma bitmap_bits_free_cleared:
  assumes "i + bcnt \<le> 64 * length (bits b)"
  shows "cleared (bits b) i (i + bcnt) (bits (bitmap_bits_free b i bcnt))"
proof -
  obtain b1 i1 c1 where h: "bits_free_head b i bcnt = (b1, i1, c1)" by (cases "bits_free_head b i bcnt")
  obtain m2 p2 c2 where l4: "bits_free_bytes 4 (bits b1) (i1 div 8) c1 = (m2, p2, c2)"
    by (cases "bits_free_bytes 4 (bits b1) (i1 div 8) c1")
  obtain m3 p3 c3 where l2: "bits_free_bytes 2 m2 p2 c2 = (m3, p3, c3)" by (cases "bits_free_bytes 2 m2 p2 c2")
  obtain m4 p4 c4 where l1: "bits_free_bytes 1 m3 p3 c3 = (m4, p4, c4)" by (cases "bits_free_bytes 1 m3 p3 c3")
  note head = bits_free_head_cleared [OF assms h]
  show ?thesis
  proof (cases "i1 mod 8 = 0")
    case False
    with head have "i1 = i + bcnt" by simp
    with head False h show ?thesis by (simp add: bitmap_bits_free_def)
  next
    case True
    then have i1: "8 * (i1 div 8) = i1" by auto
    have len1: "i1 + c1 \<le> 64 * length (bits b1)" using head assms by (simp add: cleared_def)
    note s4 = bits_free_bytes_cleared [OF _ l4, unfolded i1, OF len1]
    have "8 * p2 + c2 \<le> 64 * length m2" using s4 len1 by (simp add: cleared_def)
    note s2 = bits_free_bytes_cleared [OF this l2]
    have "8 * p3 + c3 \<le> 64 * length m3" using s2 \<open>8 * p2 + c2 \<le> _\<close> by (simp add: cleared_def)
    note s1 = bits_free_bytes_cleared [OF this l1]
    have "8 * p4 + c4 \<le> 64 * length m4" using s1 \<open>8 * p3 + c3 \<le> _\<close> by (simp add: cleared_def)
    note tail = fold_clr_cleared [of p4 c4 "b1\<lparr>bits := m4\<rparr>", simplified, OF this]
    have le: "i \<le> i1" "i1 \<le> 8 * p2" "p2 \<le> p3" "p3 \<le> p4" using head s4 s2 s1 i1 by linarith+
    have "cleared (bits b) i (8 * p2) m2"
      using cleared_trans [of "bits b" i i1 "bits b1" "8 * p2" m2] head s4 le by blast
    then have "cleared (bits b) i (8 * p3) m3"
      using cleared_trans [of "bits b" i "8 * p2" m2 "8 * p3" m3] s2 le by simp
    then have "cleared (bits b) i (8 * p4) m4"
      using cleared_trans [of "bits b" i "8 * p3" m3 "8 * p4" m4] s1 le by simp
    from cleared_trans [OF this tail] have "cleared (bits b) i (8 * p4 + c4)
        (bits (fold (\<lambda>i b. bits_clr_at b p4 i) [0..<c4] (b1\<lparr>bits := m4\<rparr>)))"
      using le by simp
    moreover have "8 * p4 + c4 = i + bcnt" using head s4 s2 s1 by simp
    ultimately show ?thesis using True h l4 l2 l1 by (simp add: bitmap_bits_free_def)
  qed
qed

section \<open>Searching a clear bit\<close>

lemma find_upt:
  "List.find P [0..<n] = None \<longleftrightarrow> (\<forall>j<n. \<not> P j)"
  "List.find P [0..<n] = Some k \<longleftrightarrow> k < n \<and> P k \<and> (\<forall>j<k. \<not> P j)"
  by (auto simp: find_None_iff find_Some_iff)

lemma clr_from_skip:
  assumes "clr_from bm m hi r" and "lo \<le> m" and "\<And>j. lo \<le> j \<Longrightarrow> j < m \<Longrightarrow> bit_at bm j"
  shows "clr_from bm lo hi r"
  using assms unfolding clr_from_def by (cases r) (fastforce simp: not_less [symmetric])+

lemma clr_from_find:
  "clr_from bm lo (lo + n) (map_option (\<lambda>i. lo + i) (List.find (\<lambda>i. \<not> bit_at bm (lo + i)) [0..<n]))"
proof (cases "List.find (\<lambda>i. \<not> bit_at bm (lo + i)) [0..<n]")
  case None
  then have "bit_at bm j" if "lo \<le> j" "j < lo + n" for j
    using that unfolding find_upt by (metis le_add_diff_inverse less_diff_conv2 add.commute)
  with None show ?thesis by (simp add: clr_from_def)
next
  case (Some k)
  then have k: "k < n" "\<not> bit_at bm (lo + k)" "\<And>j. j < k \<Longrightarrow> bit_at bm (lo + j)"
    unfolding find_upt by auto
  then have "bit_at bm j" if "lo \<le> j" "j < lo + k" for j
    using that by (metis le_add_diff_inverse less_diff_conv2 add.commute)
  with Some k show ?thesis by (simp add: clr_from_def)
qed

lemma clr_from_widen: "clr_from bm lo m (Some k) \<Longrightarrow> m \<le> hi \<Longrightarrow> clr_from bm lo hi (Some k)"
  by (simp add: clr_from_def)

lemma find_clr_finish_from: "clr_from bm (8 * p) (8 * p + bcnt) (find_clr_finish bm p bcnt)"
proof (induction bm p bcnt rule: find_clr_finish.induct)
  case (1 bm p bcnt)
  show ?case
  proof (cases "bcnt \<ge> 8")
    case False
    then have "find_clr_finish bm p bcnt =
        map_option (\<lambda>i. 8 * p + i) (List.find (\<lambda>i. \<not> bit_at bm (8 * p + i)) [0..<bcnt])"
      by (subst find_clr_finish.simps) (simp only: bitmap_is_bit_set_bit if_False)
    then show ?thesis by (simp only: clr_from_find)
  next
    case True
    note byte = clr_from_find [of bm "8 * p" 8]
    show ?thesis
    proof (cases "List.find (\<lambda>i. \<not> bit_at bm (8 * p + i)) [0..<8]")
      case (Some k)
      then have "find_clr_finish bm p bcnt = Some (8 * p + k)"
        using True by (subst find_clr_finish.simps) (simp only: bitmap_is_bit_set_bit if_True option.case)
      moreover have "clr_from bm (8 * p) (8 * p + 8) (Some (8 * p + k))"
        using byte Some by (simp only: option.map)
      ultimately show ?thesis using True clr_from_widen by simp
    next
      case None
      then have rec: "find_clr_finish bm p bcnt = find_clr_finish bm (p + 1) (bcnt - 8)"
        using True by (subst find_clr_finish.simps) (simp only: bitmap_is_bit_set_bit if_True option.case)
      have "List.find (\<lambda>i. \<not> bitmap_is_bit_set bm p i) [0..<8] = None"
        using None by (simp only: bitmap_is_bit_set_bit)
      from "1.IH" [OF True this] have "clr_from bm (8 * p + 8) (8 * p + bcnt) (find_clr_finish bm p bcnt)"
        using True unfolding rec by (simp add: algebra_simps)
      moreover have "clr_from bm (8 * p) (8 * p + 8) None"
        using byte unfolding None by (simp only: option.map)
      then have "\<And>j. 8 * p \<le> j \<Longrightarrow> j < 8 * p + 8 \<Longrightarrow> bit_at bm j"
        by (simp add: clr_from_def)
      ultimately show ?thesis by (rule clr_from_skip [OF _ le_add1])
    qed
  qed
qed

lemma byte_ones:
  assumes "get_byte bm k = 255" and "8 * k \<le> j" and "j < 8 * k + 8"
  shows "bit_at bm j"
proof -
  have "bit (get_byte bm k) (j - 8 * k)"
    unfolding assms(1) using assms(2,3) by (simp add: bit_numeral_word_iff bit_255)
  then show ?thesis
    using bit_get_byte [of "j - 8 * k" bm k] assms(2,3) by simp
qed

lemma skip_ones_set:
  "skip_ones n bm p bcnt = (p', found, bcnt') \<Longrightarrow>
   p \<le> p' \<and> 8 * p' + bcnt' = 8 * p + bcnt \<and> (\<forall>j. 8 * p \<le> j \<and> j < 8 * p' \<longrightarrow> bit_at bm j)"
proof (induction n bm p bcnt rule: skip_ones.induct)
  case (1 n bm p bcnt)
  show ?case
  proof (cases "bcnt \<ge> 8 * n \<and> 0 < n \<and> (\<forall>k\<in>set [p..<p + n]. get_byte bm k = 255)")
    case True
    then have c: "bcnt \<ge> 8 * n \<and> 0 < n" "\<not> (\<exists>k\<in>set [p..<p + n]. get_byte bm k \<noteq> 255)" by auto
    then have "skip_ones n bm (p + n) (bcnt - 8 * n) = (p', found, bcnt')"
      using "1.prems" by (subst (asm) skip_ones.simps) (simp only: if_True if_False simp_thms)
    from "1.IH" [OF c this] c(1) have rec: "p + n \<le> p'" "8 * p' + bcnt' = 8 * p + bcnt"
      "\<forall>j. 8 * (p + n) \<le> j \<and> j < 8 * p' \<longrightarrow> bit_at bm j"
      by auto
    have "bit_at bm j" if "8 * p \<le> j" "j < 8 * (p + n)" for j
    proof (rule byte_ones [of bm "j div 8"])
      have "j div 8 \<in> set [p..<p + n]" using that by auto
      then show "get_byte bm (j div 8) = 255" using c(2) by blast
    qed auto
    with rec show ?thesis by (meson add_leD1 not_le_imp_less)
  next
    case False
    then have "p' = p \<and> bcnt' = bcnt"
      using "1.prems" by (subst (asm) skip_ones.simps) (auto split: if_splits)
    then show ?thesis by auto
  qed
qed

lemma find_bits_clr_aligned:
  assumes "i mod 8 = 0" and "i \<le> ebit"
  shows "clr_from (bits b) i (ebit + 1) (bitmap_find_bits_clr b i ebit)"
proof -
  have head: "find_clr_head (bits b) i i (ebit + 1 - i) = Inr (i, ebit + 1 - i)"
    using assms(1) by (subst find_clr_head.simps) simp
  have i: "8 * (i div 8) = i" using assms(1) by auto
  obtain p1 f1 c1 where s4: "skip_ones 4 (bits b) (i div 8) (ebit + 1 - i) = (p1, f1, c1)"
    by (cases "skip_ones 4 (bits b) (i div 8) (ebit + 1 - i)")
  obtain p2 f2 c2 where s2: "(if f1 then (p1, True, c1) else skip_ones 2 (bits b) p1 c1) = (p2, f2, c2)"
    by (cases "if f1 then (p1, True, c1) else skip_ones 2 (bits b) p1 c1")
  note r4 = skip_ones_set [OF s4, unfolded i]
  have r2: "p1 \<le> p2 \<and> 8 * p2 + c2 = 8 * p1 + c1 \<and> (\<forall>j. 8 * p1 \<le> j \<and> j < 8 * p2 \<longrightarrow> bit_at (bits b) j)"
  proof (cases f1)
    case True
    with s2 show ?thesis by auto
  next
    case False
    with s2 have "skip_ones 2 (bits b) p1 c1 = (p2, f2, c2)" by simp
    from skip_ones_set [OF this] show ?thesis .
  qed
  have le: "8 * p2 + c2 = ebit + 1" "i \<le> 8 * p2" using r4 r2 assms(2) i by linarith+
  have "bit_at (bits b) j" if "i \<le> j" "j < 8 * p2" for j
    using r4 r2 that by (cases "j < 8 * p1") (simp_all add: not_less)
  with find_clr_finish_from [of "bits b" p2 c2] le
  have "clr_from (bits b) i (ebit + 1) (find_clr_finish (bits b) p2 c2)"
    by (intro clr_from_skip [of "bits b" "8 * p2" "ebit + 1" _ i]) simp_all
  then show ?thesis
    using head s4 s2 by (simp add: bitmap_find_bits_clr_def)
qed

section \<open>Storing the bitmap\<close>

lemma fold_store:
  assumes "bitmap_count b = length (bitmap_desc b)" and "store_ok dev b"
  shows "n \<le> bitmap_count b \<Longrightarrow> \<exists>dev' d. fold store_one [0..<n] (dev, b) = (dev', b\<lparr>bitmap_desc := d\<rparr>) \<and>
    length d = length (bitmap_desc b) \<and> (\<forall>i<n. \<not> d ! i) \<and> store_ok dev' (b\<lparr>bitmap_desc := d\<rparr>)"
proof (induction n)
  case 0
  show ?case using assms by (intro exI [of _ dev] exI [of _ "bitmap_desc b"]) simp
next
  case (Suc n)
  then obtain dev' d where IH: "fold store_one [0..<n] (dev, b) = (dev', b\<lparr>bitmap_desc := d\<rparr>)"
    "length d = length (bitmap_desc b)" "\<forall>i<n. \<not> d ! i" "store_ok dev' (b\<lparr>bitmap_desc := d\<rparr>)"
    by auto
  show ?case
  proof (cases "d ! n")
    case False
    then have "fold store_one [0..<Suc n] (dev, b) = (dev', b\<lparr>bitmap_desc := d\<rparr>)"
      using IH(1) by (simp add: store_one_def)
    with IH False show ?thesis by (intro exI [of _ dev'] exI [of _ d]) (auto simp: less_Suc_eq)
  next
    case True
    have "fold store_one [0..<Suc n] (dev, b) =
        (dev'(bitmap_block b + n := bitmap_chunk b n), b\<lparr>bitmap_desc := d[n := False]\<rparr>)"
      using IH(1) True by (simp add: store_one_def bitmap_chunk_def)
    moreover have "store_ok (dev'(bitmap_block b + n := bitmap_chunk b n)) (b\<lparr>bitmap_desc := d[n := False]\<rparr>)"
      using IH(4) by (auto simp: store_ok_def bitmap_chunk_def nth_list_update)
    moreover have "length (d[n := False]) = length (bitmap_desc b)" "\<forall>i<Suc n. \<not> d[n := False] ! i"
      using IH(2,3) Suc.prems assms(1) by (auto simp: less_Suc_eq nth_list_update)
    ultimately show ?thesis by blast
  qed
qed

lemma concat_chunks:
  "concat (map (\<lambda>i. take k (drop (i * k) xs)) [0..<n]) = take (n * k) xs"
proof (induction n)
  case (Suc n)
  then show ?case using take_add [of "n * k" k xs] by (simp add: add.commute)
qed simp

lemma store_read:
  assumes "bitmap_count b = length (bitmap_desc b)" and "store_ok dev b"
    and "bitmap_count b = blocks_of_bitmap (bd_blocksize b) (nr_bits b)"
    and "length (bits b) = bitmap_count b * (bd_blocksize b div 8)"
    and "store_all_bitmap dev b = (dev', b')"
  shows "bits (read_all_bitmap dev' (bd_blocksize b) (nr_bits b) (bitmap_block b)) = bits b"
    and "\<forall>i<bitmap_count b. \<not> bitmap_desc b' ! i"
proof -
  from fold_store [OF assms(1,2) order_refl] assms(5) obtain d where
    b': "b' = b\<lparr>bitmap_desc := d\<rparr>" "\<forall>i<bitmap_count b. \<not> d ! i" "store_ok dev' (b\<lparr>bitmap_desc := d\<rparr>)"
    by (auto simp: store_all_bitmap_def)
  then show "\<forall>i<bitmap_count b. \<not> bitmap_desc b' ! i" by simp
  have "bits (read_all_bitmap dev' (bd_blocksize b) (nr_bits b) (bitmap_block b)) =
      concat (map (\<lambda>i. dev' (bitmap_block b + i)) [0..<bitmap_count b])"
    by (simp add: read_all_bitmap_def Let_def assms(3))
  also have "map (\<lambda>i. dev' (bitmap_block b + i)) [0..<bitmap_count b] =
      map (\<lambda>i. take (bd_blocksize b div 8) (drop (i * (bd_blocksize b div 8)) (bits b))) [0..<bitmap_count b]"
    using b'(2,3) by (simp add: store_ok_def bitmap_chunk_def)
  also have "concat \<dots> = bits b"
    using concat_chunks [of "bd_blocksize b div 8" "bits b" "bitmap_count b"] assms(4) by simp
  finally show "bits (read_all_bitmap dev' (bd_blocksize b) (nr_bits b) (bitmap_block b)) = bits b" .
qed

section \<open>Dirty flags of freed bits\<close>

lemma bits_free_bytes_rest:
  "bits_free_bytes n bm p bcnt = (bm', p', bcnt') \<Longrightarrow> bcnt mod 8 = bcnt' mod 8 \<and> (0 < n \<longrightarrow> bcnt' < 8 * n)"
proof (induction n bm p bcnt rule: bits_free_bytes.induct)
  case (1 n bm p bcnt)
  show ?case
  proof (cases "bcnt \<ge> 8 * n \<and> 0 < n")
    case True
    then have "bits_free_bytes n (zero_bytes bm p n) (p + n) (bcnt - 8 * n) = (bm', p', bcnt')"
      using "1.prems" by (simp add: bits_free_bytes.simps [of n bm])
    from "1.IH" [OF True this] have "(bcnt - 8 * n) mod 8 = bcnt' mod 8" "0 < n \<longrightarrow> bcnt' < 8 * n" by auto
    moreover have "bcnt mod 8 = (bcnt - 8 * n) mod 8"
      using True mod_mult_self2 [of "bcnt - 8 * n" 8 n] by simp
    ultimately show ?thesis by simp
  next
    case False
    then have "bcnt' = bcnt"
      using "1.prems" by (subst (asm) bits_free_bytes.simps) (auto split: if_splits)
    with False show ?thesis by auto
  qed
qed

lemma bits_free_aligned_clean:
  assumes "i mod 8 = 0" and "bcnt mod 8 = 0"
  shows "\<exists>bm. bitmap_bits_free b i bcnt = b\<lparr>bits := bm\<rparr>"
proof -
  obtain m2 p2 c2 where l4: "bits_free_bytes 4 (bits b) (i div 8) bcnt = (m2, p2, c2)"
    by (cases "bits_free_bytes 4 (bits b) (i div 8) bcnt")
  obtain m3 p3 c3 where l2: "bits_free_bytes 2 m2 p2 c2 = (m3, p3, c3)" by (cases "bits_free_bytes 2 m2 p2 c2")
  obtain m4 p4 c4 where l1: "bits_free_bytes 1 m3 p3 c3 = (m4, p4, c4)" by (cases "bits_free_bytes 1 m3 p3 c3")
  have "c4 mod 8 = 0" "c4 < 8"
    using bits_free_bytes_rest [OF l4] bits_free_bytes_rest [OF l2] bits_free_bytes_rest [OF l1] assms(2) by auto
  then have "c4 = 0" by simp
  moreover have "bits_free_head b i bcnt = (b, i, bcnt)" using assms(1) by (subst bits_free_head.simps) simp
  ultimately have "bitmap_bits_free b i bcnt = b\<lparr>bits := m4\<rparr>"
    using l4 l2 l1 assms(1) by (simp add: bitmap_bits_free_def)
  then show ?thesis by blast
qed

section \<open>Correctness of the block bitmap\<close>

text \<open>
  C18: \<open>bitmap_bits_free\<close> clears exactly the bits of its range, whatever the alignment of
  the range to bytes, and \<open>bitmap_bits_clr\<close> exactly its bit.
\<close>

theorem bitmap_bits_free_correct:
  assumes "i + bcnt \<le> 64 * length (bits b)" and "k < 64 * length (bits b)"
  shows "(\<forall>j. bit_at (bits (bitmap_bits_free b i bcnt)) j \<longleftrightarrow>
      bit_at (bits b) j \<and> \<not> (i \<le> j \<and> j < i + bcnt)) \<and>
    (\<forall>j. bit_at (bits (bitmap_bits_clr b k)) j \<longleftrightarrow> bit_at (bits b) j \<and> j \<noteq> k)"
  using bitmap_bits_free_cleared [OF assms(1)] bits_clr_at_bits(1) [of 0 k b] assms(2)
  by (simp add: cleared_def bitmap_bits_clr_def)

theorem bitmap_bits_free_correct_witness:
  "\<forall>j. bit_at (bits (bitmap_bits_free small_bitmap 5 90)) j \<longleftrightarrow>
     bit_at (bits small_bitmap) j \<and> \<not> (5 \<le> j \<and> j < 95)"
  using bitmap_bits_free_correct [of 5 90 small_bitmap 0] by (simp add: small_bitmap_def)

text \<open>
  C19: \<open>store_all_bitmap\<close> followed by \<open>read_all_bitmap\<close> returns the bitmap, provided the
  blocks not marked dirty already are on the device, and no block stays dirty.
\<close>

theorem bitmap_store_read_roundtrip:
  assumes "bitmap_count b = length (bitmap_desc b)" and "store_ok dev b"
    and "bitmap_count b = blocks_of_bitmap (bd_blocksize b) (nr_bits b)"
    and "length (bits b) = bitmap_count b * (bd_blocksize b div 8)"
    and "store_all_bitmap dev b = (dev', b')"
  shows "bits (read_all_bitmap dev' (bd_blocksize b) (nr_bits b) (bitmap_block b)) = bits b \<and>
    (\<forall>i<bitmap_count b. \<not> bitmap_desc b' ! i)"
  using store_read [OF assms] by blast

theorem bitmap_store_read_roundtrip_witness:
  "bits (read_all_bitmap (fst (store_all_bitmap (\<lambda>_. []) (small_bitmap\<lparr>bitmap_desc := [True]\<rparr>))) 4096 32768 5) =
   bits small_bitmap"
proof -
  let ?b = "small_bitmap\<lparr>bitmap_desc := [True]\<rparr>"
  obtain dev' b' where run: "store_all_bitmap (\<lambda>_. []) ?b = (dev', b')"
    by (cases "store_all_bitmap (\<lambda>_. []) ?b")
  have "store_ok (\<lambda>_. []) ?b" "bitmap_count ?b = length (bitmap_desc ?b)"
    "bitmap_count ?b = blocks_of_bitmap (bd_blocksize ?b) (nr_bits ?b)"
    "length (bits ?b) = bitmap_count ?b * (bd_blocksize ?b div 8)"
    by (simp_all add: store_ok_def small_bitmap_def blocks_of_bitmap_def size_of_bitmap_def)
  from bitmap_store_read_roundtrip [OF this(2,1,3,4) run] run show ?thesis
    by (simp add: small_bitmap_def)
qed

section \<open>Two deviations\<close>

text \<open>
  C20: \<open>bitmap_bits_free\<close> marks the bitmap block dirty only for the bits it clears one by
  one. A range of whole bytes is cleared without marking anything, so that
  \<open>store_all_bitmap\<close> on a clean bitmap writes nothing and the freed blocks stay in use on
  the device.
\<close>

theorem freed_bytes_not_stored:
  assumes "i mod 8 = 0" and "bcnt mod 8 = 0" and "\<forall>k<bitmap_count b. \<not> bitmap_desc b ! k"
  shows "fst (store_all_bitmap dev (bitmap_bits_free b i bcnt)) = dev"
proof -
  obtain bm where bm: "bitmap_bits_free b i bcnt = b\<lparr>bits := bm\<rparr>"
    using bits_free_aligned_clean [OF assms(1,2)] by blast
  have "fold store_one ks (dev, c) = (dev, c)" if "\<forall>k\<in>set ks. \<not> bitmap_desc c ! k" for ks c
    using that by (induction ks) (simp_all add: store_one_def)
  with assms(3) show ?thesis
    by (simp add: bm store_all_bitmap_def)
qed

theorem freed_bytes_not_stored_witness:
  "fst (store_all_bitmap (\<lambda>_. []) (bitmap_bits_free small_bitmap 32 64)) = (\<lambda>_. [])"
  using freed_bytes_not_stored [of 32 64 small_bitmap "\<lambda>_. []"] by (simp add: small_bitmap_def)

text \<open>
  C21: from a byte boundary \<open>bitmap_find_bits_clr\<close> finds the first clear bit of its range.
  From another start whose bit is set and whose next bit is clear it returns the start
  itself, a bit that is in use.
\<close>

theorem bitmap_find_bits_clr_result:
  assumes "i \<le> ebit"
  shows "(i mod 8 = 0 \<longrightarrow> clr_from (bits b) i (ebit + 1) (bitmap_find_bits_clr b i ebit)) \<and>
    (i mod 8 \<noteq> 0 \<and> (i + 1) mod 8 \<noteq> 0 \<and> i < ebit \<and> bit_at (bits b) i \<and> \<not> bit_at (bits b) (i + 1) \<longrightarrow>
     bitmap_find_bits_clr b i ebit = Some i)"
proof (intro conjI impI)
  show "clr_from (bits b) i (ebit + 1) (bitmap_find_bits_clr b i ebit)" if "i mod 8 = 0"
    using find_bits_clr_aligned [OF that assms] .
  assume *: "i mod 8 \<noteq> 0 \<and> (i + 1) mod 8 \<noteq> 0 \<and> i < ebit \<and> bit_at (bits b) i \<and> \<not> bit_at (bits b) (i + 1)"
  then have "find_clr_head (bits b) i (i + 1) (ebit - i) = Inl (Some i)"
    by (subst find_clr_head.simps) (simp add: bitmap_is_bit_set_bit)
  moreover have "find_clr_head (bits b) i i (ebit + 1 - i) = find_clr_head (bits b) i (i + 1) (ebit - i)"
    using * by (subst find_clr_head.simps) (simp add: bitmap_is_bit_set_bit)
  ultimately show "bitmap_find_bits_clr b i ebit = Some i"
    by (simp add: bitmap_find_bits_clr_def)
qed

theorem bitmap_find_bits_clr_result_witness:
  "bitmap_find_bits_clr (small_bitmap\<lparr>bits := [2]\<rparr>) 1 20 = Some 1 \<and> bit_at [2] 1"
proof -
  have "bit_at [2] 1" "\<not> bit_at [2] 2"
    by (simp_all add: bit_at_def bit_numeral_word_iff)
  then show ?thesis
    using bitmap_find_bits_clr_result [of 1 20 "small_bitmap\<lparr>bits := [2]\<rparr>"]
    by (simp add: numeral_2_eq_2 [symmetric])
qed

end
