(* ===== verification/Layout.thy ===== *)
theory Layout
  imports Prelude
begin

text \<open>
  The layout of the device as \<open>src/libfs/src/mkfs/mkfs.c\<close> computes it (\<open>main\<close>,
  \<open>write_bitmap\<close>, \<open>mkfs_get_inode_block\<close>, \<open>read_inode\<close>, \<open>write_inode\<close>) and the block
  numbers that the file system derives from the superblock (\<open>get_inode_block\<close> and
  \<open>get_lease_block\<close> of \<open>fs.h\<close>). The theorems show that the regions follow one another
  without overlap up to the end of the device and that everything kept in a region fits.
\<close>

section \<open>The superblock\<close>

record disk_superblock =
  fs_size :: nat
  ndatablocks :: nat
  ninodes :: nat
  nlog :: nat
  inode_start :: nat
  lease_start :: nat
  bmap_start :: nat
  datablock_start :: nat
  log_start :: nat
  map_table_start :: nat
  nmap :: nat
  nmapentry :: nat
  nmapblocks :: nat

text \<open>
  Sizes of the structures that are stored on the device: \<open>struct dinode\<close> has 256 bytes,
  \<open>mlfs_lease_t\<close> 112 and \<open>struct mlfs_map_blocks\<close> 24 (one 64-bit and three 32-bit fields,
  padded).
\<close>

abbreviation (input) NINODES :: nat where "NINODES \<equiv> 300000"
abbreviation (input) dinode_size :: nat where "dinode_size \<equiv> 256"
abbreviation (input) lease_size :: nat where "lease_size \<equiv> 112"
abbreviation (input) map_blocks_size :: nat where "map_blocks_size \<equiv> 24"
abbreviation (input) g_n_max_libfs :: nat where "g_n_max_libfs \<equiv> 4"
abbreviation (input) g_n_nodes :: nat where "g_n_nodes \<equiv> 1"
abbreviation (input) g_root_dev :: nat where "g_root_dev \<equiv> 1"
abbreviation (input) g_log_dev :: nat where "g_log_dev \<equiv> 1"
abbreviation (input) g_hdd_dev :: nat where "g_hdd_dev \<equiv> 3"

definition IPB :: nat where
  "IPB = g_block_size_bytes div dinode_size"

definition LPB :: nat where
  "LPB = g_block_size_bytes div lease_size"

definition mkfs_get_inode_block :: "nat \<Rightarrow> nat \<Rightarrow> nat" where
  "mkfs_get_inode_block inum start = inum div IPB + start"

definition get_inode_block :: "disk_superblock \<Rightarrow> nat \<Rightarrow> nat" where
  "get_inode_block dsb inum = inum div IPB + inode_start dsb"

definition get_lease_block :: "disk_superblock \<Rightarrow> nat \<Rightarrow> nat" where
  "get_lease_block dsb inum = inum div LPB + lease_start dsb"

text \<open>Blocks of one map table: one entry for each block of the root device, rounded up.\<close>

definition map_table_blocks :: "nat \<Rightarrow> nat" where
  "map_table_blocks entries =
     (let map_size = entries * map_blocks_size in
      map_size div g_block_size_bytes + (if map_size mod g_block_size_bytes \<noteq> 0 then 1 else 0))"

text \<open>
  The part of \<open>main\<close> that fills the superblock. \<open>nbitmap\<close> and \<open>nmeta\<close> are 32-bit; the
  variable \<open>map_size_blks\<close> is only set for the log device and \<open>unset\<close> stands for its value
  otherwise. The second result is \<open>nmeta\<close>.
\<close>

definition mkfs_superblock :: "nat \<Rightarrow> (nat \<Rightarrow> nat) \<Rightarrow> nat \<Rightarrow> fault + disk_superblock \<times> nat" where
  "mkfs_superblock dev_id dev_size unset =
     (let ninodeblocks = NINODES div IPB + 1;
          leaseblocks = NINODES div LPB + 1;
          file_size_blks = dev_size dev_id div g_block_size_bytes;
          entries = dev_size g_root_dev div g_block_size_bytes;
          log_size_blks = (if dev_id = g_log_dev then g_log_size * (g_n_max_libfs + g_n_nodes) + 2 ^ 10 else 0);
          map_size_blks = (if dev_id = g_log_dev then map_table_blocks entries else unset) in
      if dev_size dev_id < 4 * 2 ^ 20 then Inl (Assert ''device size'')
      else if dev_id = g_log_dev \<and> file_size_blks \<le> log_size_blks + map_size_blks
      then Inl (Assert ''file_size_blks'')
      else
        let file_size_blks = (if dev_id = g_log_dev then file_size_blks - log_size_blks - map_size_blks
                              else file_size_blks);
            nbitmap = (file_size_blks div (g_block_size_bytes * 8) + 1) mod 2 ^ 32;
            nmeta = (2 + ninodeblocks + nbitmap + leaseblocks) mod 2 ^ 32 in
        if dev_id \<le> g_hdd_dev \<and> file_size_blks \<le> nmeta then Inl (Assert ''nmeta'')
        else
          let ndata = (if dev_id \<le> g_hdd_dev then file_size_blks - nmeta else 0) in
          Inr (\<lparr>fs_size = file_size_blks, ndatablocks = ndata, ninodes = NINODES, nlog = log_size_blks,
                inode_start = 2, lease_start = 2 + ninodeblocks,
                bmap_start = 2 + ninodeblocks + leaseblocks, datablock_start = nmeta,
                log_start = nmeta + ndata,
                map_table_start = (dev_size g_root_dev - map_size_blks * g_block_size_bytes) div g_block_size_bytes,
                nmap = 1, nmapentry = entries, nmapblocks = map_size_blks\<rparr>, nmeta))"

text \<open>
  \<open>write_bitmap\<close>: the first bitmap block with the metadata blocks marked, byte by byte.
\<close>

definition write_bitmap :: "nat \<Rightarrow> fault + u8 list" where
  "write_bitmap used =
     (if used < g_block_size_bytes * 8
      then Inr (fold (\<lambda>i buf. buf[i div 8 := buf ! (i div 8) OR push_bit (i mod 8) 1])
             [0..<used] (replicate g_block_size_bytes 0))
      else Inl (Assert ''used''))"

text \<open>The inode table: blocks of \<open>IPB\<close> inodes each.\<close>

definition mkfs_write_inode :: "nat \<Rightarrow> (nat \<Rightarrow> 'd list) \<Rightarrow> nat \<Rightarrow> 'd \<Rightarrow> nat \<Rightarrow> 'd list" where
  "mkfs_write_inode start dev inum d =
     (let blk = mkfs_get_inode_block inum start in dev(blk := (dev blk)[inum mod IPB := d]))"

definition mkfs_read_inode :: "nat \<Rightarrow> (nat \<Rightarrow> 'd list) \<Rightarrow> nat \<Rightarrow> 'd" where
  "mkfs_read_inode start dev inum = dev (mkfs_get_inode_block inum start) ! (inum mod IPB)"

section \<open>Regions\<close>

text \<open>What a device whose regions follow one another looks like.\<close>

definition layout_ok :: "disk_superblock \<Rightarrow> nat \<Rightarrow> bool" where
  "layout_ok dsb blocks \<longleftrightarrow>
     2 \<le> inode_start dsb \<and> inode_start dsb < lease_start dsb \<and> lease_start dsb < bmap_start dsb \<and>
     bmap_start dsb < datablock_start dsb \<and>
     log_start dsb = datablock_start dsb + ndatablocks dsb \<and>
     map_table_start dsb = log_start dsb + nlog dsb \<and>
     map_table_start dsb + nmap dsb * nmapblocks dsb = blocks"

text \<open>What is kept in the regions stays inside them.\<close>

definition contents_fit :: "disk_superblock \<Rightarrow> bool" where
  "contents_fit dsb \<longleftrightarrow>
     (\<forall>inum<ninodes dsb. inode_start dsb \<le> get_inode_block dsb inum \<and> get_inode_block dsb inum < lease_start dsb) \<and>
     (\<forall>inum<ninodes dsb. lease_start dsb \<le> get_lease_block dsb inum \<and> get_lease_block dsb inum < bmap_start dsb) \<and>
     fs_size dsb \<le> (datablock_start dsb - bmap_start dsb) * (g_block_size_bytes * 8) \<and>
     (\<forall>i<g_n_max_libfs + g_n_nodes.
        log_start dsb + i * g_log_size + g_log_size \<le> log_start dsb + nlog dsb) \<and>
     nmapentry dsb * map_blocks_size \<le> nmapblocks dsb * g_block_size_bytes"

definition default_size :: "nat \<Rightarrow> nat" where
  "default_size dev = (if dev = g_root_dev then 3221225472 else 0)"

lemma map_table_blocks_fit: "entries * 24 \<le> map_table_blocks entries * 4096"
  unfolding map_table_blocks_def Let_def
  using div_mult_mod_eq [of "entries * 24" 4096] mod_less_divisor [of 4096 "entries * 24"] by auto

lemma div_fits: "inum < n \<Longrightarrow> inum div k < n div k + 1" for inum n k :: nat
  by (simp add: div_le_mono le_imp_less_Suc less_imp_le)

lemma IPB_LPB: "IPB = 16" "LPB = 36"
  by (simp_all add: IPB_def LPB_def)

definition root_superblock :: "nat \<Rightarrow> nat \<Rightarrow> nat \<Rightarrow> nat \<Rightarrow> disk_superblock" where
  "root_superblock blocks fs nmeta mt =
     \<lparr>fs_size = fs, ndatablocks = fs - nmeta, ninodes = NINODES, nlog = 164864,
      inode_start = 2, lease_start = 18753, bmap_start = 27087, datablock_start = nmeta,
      log_start = fs, map_table_start = fs + 164864, nmap = 1, nmapentry = blocks, nmapblocks = mt\<rparr>"

lemma mkfs_superblock_root:
  assumes "mkfs_superblock 1 dev_size u = Inr (dsb, nmeta)" and "dev_size 1 < 2 ^ 58"
    and "4096 dvd dev_size 1"
  shows "\<exists>fs mt. fs + 164864 + mt = dev_size 1 div 4096 \<and> mt = map_table_blocks (dev_size 1 div 4096) \<and>
    nmeta < fs \<and> nmeta = 27088 + fs div 32768 \<and> dsb = root_superblock (dev_size 1 div 4096) fs nmeta mt"
proof -
  define blocks where "blocks = dev_size 1 div 4096"
  define mt where "mt = map_table_blocks blocks"
  have bytes: "dev_size 1 = blocks * 4096" using assms(3) by (simp add: blocks_def)
  have sb: "mkfs_superblock 1 (\<lambda>d. blocks * 4096) u = mkfs_superblock 1 dev_size u"
    using bytes by (simp only: mkfs_superblock_def cong: if_cong)
  have less: "164864 + mt < blocks"
    using assms(1) unfolding sb [symmetric] mt_def
    by (simp add: mkfs_superblock_def Let_def IPB_LPB split: if_splits)
  define fs where "fs = blocks - (164864 + mt)"
  have fs: "fs + 164864 + mt = blocks" using less by (simp add: fs_def)
  have "fs \<le> 2 ^ 46" using assms(2) fs bytes by simp
  then have "fs div 32768 \<le> 2 ^ 31" by simp
  then have wrap: "Suc (fs div 32768) mod 2 ^ 32 = Suc (fs div 32768)"
    "(27087 + Suc (fs div 32768)) mod 2 ^ 32 = 27088 + fs div 32768" by simp_all
  have start: "(blocks * 4096 - mt * 4096) div 4096 = fs + 164864"
    using fs by (simp flip: diff_mult_distrib)
  have diff: "blocks - (164864 + mt) = fs" "fs + 164864 + mt - mt * 1 = fs + 164864" by (simp_all add: fs_def)
  have "mkfs_superblock 1 (\<lambda>d. blocks * 4096) u = Inr (dsb, nmeta)" using sb assms(1) by simp
  then have "nmeta < fs \<and> nmeta = 27088 + fs div 32768 \<and> dsb = root_superblock blocks fs nmeta mt"
    using wrap start
    by (simp add: mkfs_superblock_def Let_def IPB_LPB root_superblock_def diff mt_def [symmetric]
        not_le not_less split: if_split_asm) auto
  with fs show ?thesis unfolding blocks_def mt_def by blast
qed

lemma root_superblock_ok:
  assumes "fs + 164864 + mt = blocks" and "blocks * 24 \<le> mt * 4096" and "nmeta < fs"
    and "nmeta = 27088 + fs div 32768"
  shows "layout_ok (root_superblock blocks fs nmeta mt) blocks"
    and "contents_fit (root_superblock blocks fs nmeta mt)"
proof -
  show "layout_ok (root_superblock blocks fs nmeta mt) blocks"
    using assms by (simp add: layout_ok_def root_superblock_def)
  have "fs \<le> (fs div 32768 + 1) * 32768"
    using div_mult_mod_eq [of fs 32768] mod_less_divisor [of 32768 fs] by simp
  moreover have "nmeta - 27087 = fs div 32768 + 1" using assms(4) by simp
  moreover have "inum div 16 < 18751" "inum div 36 < 8334" if "inum < 300000" for inum :: nat
    using div_fits [OF that, of 16] div_fits [OF that, of 36] by simp_all
  ultimately show "contents_fit (root_superblock blocks fs nmeta mt)"
    using assms(2)
    by (auto simp: contents_fit_def root_superblock_def get_inode_block_def get_lease_block_def IPB_LPB)
qed

lemma mark_bits:
  assumes "used \<le> 8 * length buf" and "j < 8 * length buf"
  defines "mark \<equiv> \<lambda>i buf. buf[i div 8 := buf ! (i div 8) OR push_bit (i mod 8) (1::u8)]"
  shows "length (fold mark [0..<used] buf) = length buf \<and>
    (bit (fold mark [0..<used] buf ! (j div 8)) (j mod 8) \<longleftrightarrow> bit (buf ! (j div 8)) (j mod 8) \<or> j < used)"
  using assms(1)
proof (induction used)
  case (Suc used)
  define b where "b = fold mark [0..<used] buf"
  have IH: "length b = length buf" "bit (b ! (j div 8)) (j mod 8) \<longleftrightarrow> bit (buf ! (j div 8)) (j mod 8) \<or> j < used"
    using Suc by (simp_all add: b_def)
  have used: "used div 8 < length b" using Suc.prems IH(1) by simp
  have step: "fold mark [0..<Suc used] buf = mark used b" by (simp add: b_def)
  have len: "length (mark used b) = length buf" using IH(1) by (simp add: mark_def)
  have "bit (mark used b ! (j div 8)) (j mod 8) \<longleftrightarrow> bit (b ! (j div 8)) (j mod 8) \<or> j = used"
  proof (cases "j div 8 = used div 8")
    case True
    have "bit (push_bit (used mod 8) (1::u8)) (j mod 8) \<longleftrightarrow> j mod 8 = used mod 8"
      by (auto simp: bit_push_bit_iff bit_1_iff simp del: push_bit_of_1)
    moreover have "j = used \<longleftrightarrow> j mod 8 = used mod 8" using True by (metis div_mult_mod_eq)
    ultimately show ?thesis using True used by (simp add: mark_def bit_or_iff del: push_bit_of_1)
  next
    case False
    then show ?thesis by (auto simp: mark_def)
  qed
  with IH step len show ?case by (auto simp: less_Suc_eq)
qed simp

section \<open>Correctness of the layout\<close>

text \<open>
  C22: on the root device \<open>mkfs\<close> lays out superblock, inodes, leases, bitmap, data blocks,
  per-process logs and the map table one after the other up to the end of the device, every
  inode, lease, log and map table entry is inside its region, the bitmap has a bit for every
  block, and the first bitmap block marks exactly the metadata blocks.
\<close>

theorem mkfs_layout_correct:
  assumes "mkfs_superblock g_root_dev dev_size u = Inr (dsb, nmeta)"
    and "4096 dvd dev_size g_root_dev" and "dev_size g_root_dev < 2 ^ 58"
  shows "layout_ok dsb (dev_size g_root_dev div g_block_size_bytes) \<and> contents_fit dsb \<and>
    (\<forall>buf. write_bitmap nmeta = Inr buf \<longrightarrow>
       (\<forall>i<g_block_size_bytes * 8. bit (buf ! (i div 8)) (i mod 8) \<longleftrightarrow> i < datablock_start dsb))"
proof -
  obtain fs mt where sb: "fs + 164864 + mt = dev_size 1 div 4096" "mt = map_table_blocks (dev_size 1 div 4096)"
      "nmeta < fs" "nmeta = 27088 + fs div 32768" "dsb = root_superblock (dev_size 1 div 4096) fs nmeta mt"
    using mkfs_superblock_root [OF assms(1,3,2)] by blast
  have "bit (buf ! (i div 8)) (i mod 8) \<longleftrightarrow> i < nmeta"
    if "write_bitmap nmeta = Inr buf" "i < 32768" for buf i
    using that mark_bits [of nmeta "replicate 4096 0" i]
    by (auto simp: write_bitmap_def simp del: push_bit_of_1 split: if_splits)
  moreover have "datablock_start dsb = nmeta" using sb(5) by (simp add: root_superblock_def)
  ultimately show ?thesis
    using root_superblock_ok [OF sb(1) _ sb(3,4)] map_table_blocks_fit [of "dev_size 1 div 4096"] sb(2,5) by simp
qed

theorem mkfs_layout_correct_witness:
  "\<exists>dsb nmeta. mkfs_superblock g_root_dev default_size 0 = Inr (dsb, nmeta) \<and>
     layout_ok dsb 786432 \<and> datablock_start dsb = 27106"
proof -
  have "\<exists>dsb nmeta. mkfs_superblock 1 default_size 0 = Inr (dsb, nmeta)"
    by (simp add: mkfs_superblock_def default_size_def map_table_blocks_def IPB_LPB Let_def)
  then obtain dsb nmeta where run: "mkfs_superblock 1 default_size 0 = Inr (dsb, nmeta)" by blast
  moreover have "datablock_start dsb = 27106"
    using run by (auto simp: mkfs_superblock_def default_size_def map_table_blocks_def IPB_LPB Let_def)
  moreover have "layout_ok dsb 786432"
    using mkfs_layout_correct [OF run] by (simp add: default_size_def)
  ultimately show ?thesis by blast
qed

lemma inode_slot: "inum div IPB = inum' div IPB \<Longrightarrow> inum mod IPB = inum' mod IPB \<Longrightarrow> inum = inum'"
  by (metis div_mult_mod_eq)

lemma mkfs_read_write_inode:
  assumes "\<forall>b. length (dev b) = IPB"
  shows "mkfs_read_inode start (mkfs_write_inode start dev inum d) inum' =
    (if inum' = inum then d else mkfs_read_inode start dev inum')"
proof -
  have "inum mod IPB < IPB" by (simp add: IPB_LPB)
  then show ?thesis
    using assms inode_slot [of inum' inum]
    by (auto simp: mkfs_read_inode_def mkfs_write_inode_def mkfs_get_inode_block_def Let_def nth_list_update)
qed

end
