(* ===== verification/Map_Table.thy ===== *)
theory Map_Table
  imports Layout
begin

text \<open>
  The map table of \<open>src/libfs/src/log/map_table.c\<close> (the copy \<open>src/kernfs/map_table.c\<close> has
  the same operations): one entry per block of the device that says where the contents of a
  logical block are. Digesting a log block swaps the entries of the log block and of the
  file block instead of copying the data. The theorems show that the table always is a
  permutation of the blocks, what an update does to it, and where its entries are stored.
\<close>

section \<open>Entries\<close>

record map_blocks =
  m_pblk :: nat
  m_lblk :: nat
  m_len :: nat
  m_flags :: u32

abbreviation (input) MLFS_MAP_INIT :: u32 where "MLFS_MAP_INIT \<equiv> 1"
abbreviation (input) MLFS_MAP_UNINIT :: u32 where "MLFS_MAP_UNINIT \<equiv> 0"
abbreviation (input) MLFS_MAP_CACHE :: u32 where "MLFS_MAP_CACHE \<equiv> 2"
abbreviation (input) MLFS_MAP_UNCACHE :: u32 where "MLFS_MAP_UNCACHE \<equiv> 1"
abbreviation (input) KERNFS_ID :: nat where "KERNFS_ID \<equiv> 0"

text \<open>The device as far as the map table is concerned: the entry stored at a byte address.\<close>

type_synonym map_table = "nat \<Rightarrow> map_blocks"

text \<open>The address is computed in 64 bits and stored in a 32-bit variable.\<close>

definition get_blkno_and_offset :: "disk_superblock \<Rightarrow> nat \<Rightarrow> nat \<Rightarrow> nat \<times> nat" where
  "get_blkno_and_offset dsb libfs_id lblk =
     (let addr = (map_table_start dsb * g_block_size_bytes + libfs_id * nmapblocks dsb * g_block_size_bytes
                  + lblk * map_blocks_size) mod 2 ^ 32
      in (addr div g_block_size_bytes, addr mod g_block_size_bytes))"

definition get_map_entry_helper :: "map_table \<Rightarrow> nat \<Rightarrow> nat \<Rightarrow> map_blocks" where
  "get_map_entry_helper t blkno offset_in_blk = t (blkno * g_block_size_bytes + offset_in_blk)"

definition set_map_entry_helper :: "map_table \<Rightarrow> nat \<Rightarrow> nat \<Rightarrow> map_blocks \<Rightarrow> map_table" where
  "set_map_entry_helper t blkno offset_in_blk d = t(blkno * g_block_size_bytes + offset_in_blk := d)"

definition set_map_table_entry :: "disk_superblock \<Rightarrow> map_table \<Rightarrow> nat \<Rightarrow> nat \<Rightarrow> map_blocks \<Rightarrow> map_table" where
  "set_map_table_entry dsb t lblk libfs_id d =
     (let (blkno, off) = get_blkno_and_offset dsb libfs_id lblk in set_map_entry_helper t blkno off d)"

text \<open>An entry that was never used is initialised to the identity when it is first read.\<close>

definition get_map_table_entry :: "disk_superblock \<Rightarrow> map_table \<Rightarrow> nat \<Rightarrow> nat \<Rightarrow> map_blocks \<times> map_table" where
  "get_map_table_entry dsb t lblk libfs_id =
     (let (blkno, off) = get_blkno_and_offset dsb libfs_id lblk;
          d = get_map_entry_helper t blkno off in
      if m_flags d AND MLFS_MAP_INIT = MLFS_MAP_UNINIT
      then let d = d\<lparr>m_lblk := lblk mod 2 ^ 32, m_pblk := lblk, m_len := g_block_size_bytes,
                      m_flags := m_flags d OR MLFS_MAP_INIT\<rparr>
           in (d, set_map_entry_helper t blkno off d)
      else (d, t))"

definition update_map_table :: "disk_superblock \<Rightarrow> map_table \<Rightarrow> nat \<Rightarrow> nat \<Rightarrow> nat \<Rightarrow> map_table" where
  "update_map_table dsb t kernfs_lblk libfs_lblk libfs_id =
     (let (km, t) = get_map_table_entry dsb t kernfs_lblk libfs_id;
          (lm, t) = get_map_table_entry dsb t libfs_lblk libfs_id;
          kernfs_pblk = m_pblk km;
          libfs_pblk = m_pblk lm;
          (km, lm) =
            (if m_flags km AND MLFS_MAP_INIT = MLFS_MAP_INIT
             then (km\<lparr>m_lblk := kernfs_pblk mod 2 ^ 32\<rparr>, lm\<lparr>m_pblk := kernfs_pblk\<rparr>)
             else (km\<lparr>m_lblk := kernfs_lblk mod 2 ^ 32\<rparr>, lm\<lparr>m_pblk := kernfs_lblk\<rparr>));
          (km, lm) =
            (if m_flags lm AND MLFS_MAP_INIT = MLFS_MAP_INIT
             then (km\<lparr>m_pblk := libfs_pblk\<rparr>, lm\<lparr>m_lblk := libfs_pblk mod 2 ^ 32\<rparr>)
             else (km\<lparr>m_pblk := libfs_lblk\<rparr>, lm\<lparr>m_lblk := libfs_lblk mod 2 ^ 32\<rparr>));
          km = km\<lparr>m_flags := m_flags km OR MLFS_MAP_INIT\<rparr>;
          lm = lm\<lparr>m_flags := m_flags km OR MLFS_MAP_INIT\<rparr>;
          km = km\<lparr>m_flags := m_flags km OR MLFS_MAP_CACHE\<rparr>;
          lm = lm\<lparr>m_flags := m_flags km OR MLFS_MAP_CACHE\<rparr>;
          t = set_map_table_entry dsb t kernfs_lblk libfs_id km
      in set_map_table_entry dsb t libfs_lblk libfs_id lm)"

definition unset_map_table_entry_cache_bit :: "disk_superblock \<Rightarrow> map_table \<Rightarrow> nat \<Rightarrow> nat \<Rightarrow> map_table" where
  "unset_map_table_entry_cache_bit dsb t lblk libfs_id =
     (let (d, t) = get_map_table_entry dsb t lblk libfs_id;
          d = d\<lparr>m_flags := (m_flags d AND MLFS_MAP_UNCACHE) AND m_flags d\<rparr>
      in set_map_table_entry dsb t lblk libfs_id d)"

definition lblk2pblk :: "disk_superblock \<Rightarrow> map_table \<Rightarrow> nat \<Rightarrow> nat \<Rightarrow> nat \<times> map_table" where
  "lblk2pblk dsb t lblk libfs_id =
     (let (d, t) = get_map_table_entry dsb t lblk libfs_id in (m_pblk d, t))"

definition lblk2pblk4cache :: "disk_superblock \<Rightarrow> map_table \<Rightarrow> nat \<Rightarrow> nat \<Rightarrow> nat \<times> map_table" where
  "lblk2pblk4cache dsb t lblk libfs_id =
     (let (d, t) = get_map_table_entry dsb t lblk libfs_id in
      (if m_flags d AND MLFS_MAP_CACHE = MLFS_MAP_CACHE then m_lblk d else m_pblk d, t))"

section \<open>Reading a range of logical blocks\<close>





section \<open>The table as a function\<close>

definition entry_addr :: "disk_superblock \<Rightarrow> nat \<Rightarrow> nat" where
  "entry_addr dsb lblk = (map_table_start dsb * g_block_size_bytes + lblk * map_blocks_size) mod 2 ^ 32"

text \<open>Where a logical block is, and where it was before its last remapping.\<close>

definition pmap :: "disk_superblock \<Rightarrow> map_table \<Rightarrow> nat \<Rightarrow> nat" where
  "pmap dsb t l = (let e = t (entry_addr dsb l) in if m_flags e AND 1 = 0 then l else m_pblk e)"

definition prevmap :: "disk_superblock \<Rightarrow> map_table \<Rightarrow> nat \<Rightarrow> nat" where
  "prevmap dsb t l =
     (let e = t (entry_addr dsb l) in
      if m_flags e AND 2 = 0 then pmap dsb t l
      else if m_flags e AND 1 = 0 then l mod 2 ^ 32 else m_lblk e)"

inductive map_step :: "disk_superblock \<Rightarrow> map_table \<Rightarrow> map_table \<Rightarrow> bool" for dsb where
  lookup: "l < nmapentry dsb \<Longrightarrow> map_step dsb t (snd (lblk2pblk dsb t l KERNFS_ID))"
| lookup4cache: "l < nmapentry dsb \<Longrightarrow> map_step dsb t (snd (lblk2pblk4cache dsb t l KERNFS_ID))"
| update: "k < nmapentry dsb \<Longrightarrow> l < nmapentry dsb \<Longrightarrow> map_step dsb t (update_map_table dsb t k l KERNFS_ID)"
| unset: "l < nmapentry dsb \<Longrightarrow> map_step dsb t (unset_map_table_entry_cache_bit dsb t l KERNFS_ID)"

definition map_initial :: "map_table \<Rightarrow> bool" where
  "map_initial t \<longleftrightarrow> (\<forall>a. m_flags (t a) = 0)"

definition map_good :: "disk_superblock \<Rightarrow> map_table \<Rightarrow> bool" where
  "map_good dsb t \<longleftrightarrow> bij_betw (pmap dsb t) {..<nmapentry dsb} {..<nmapentry dsb}"

definition tiny_dsb :: disk_superblock where
  "tiny_dsb = root_superblock 200000 30000 27088 1172"

definition fresh_table :: map_table where
  "fresh_table = (\<lambda>_. \<lparr>m_pblk = 0, m_lblk = 0, m_len = 0, m_flags = 0\<rparr>)"

section \<open>Lemmas\<close>

lemma flag_and:
  fixes w :: u32
  shows "w AND 1 = (if bit w 0 then 1 else 0)" "w AND 2 = (if bit w 1 then 2 else 0)"
  by (rule bit_word_eqI; auto simp: bit_simps intro!: gr0I)+

lemma flag_or:
  fixes w :: u32
  shows "bit (w OR 1) 0" "bit (w OR 2) (Suc 0)" "bit (w OR 1) (Suc 0) \<longleftrightarrow> bit w (Suc 0)" "bit (w OR 2) 0 \<longleftrightarrow> bit w 0"
  by (simp_all add: bit_simps)

lemmas flag_simps = flag_and flag_or bit_and_iff bit_1_iff

lemma entry_addr_inj:
  assumes "l < n" and "k < n" and "n * 24 \<le> 2 ^ 32" and "entry_addr dsb l = entry_addr dsb k"
  shows "l = k"
proof (rule ccontr)
  have wrong: False if "l < k" "k < n" "entry_addr dsb l = entry_addr dsb k" for l k
  proof -
    let ?c = "map_table_start dsb * 4096"
    have "(2::nat) ^ 32 dvd (?c + k * 24) - (?c + l * 24)"
      using that by (intro mod_eq_dvd_iff_nat [THEN iffD1]) (simp_all add: entry_addr_def)
    moreover have "(?c + k * 24) - (?c + l * 24) = (k - l) * 24" using that(1) by (simp add: diff_mult_distrib)
    moreover have "0 < (k - l) * 24" "(k - l) * 24 < 2 ^ 32" using that assms(3) by simp_all
    ultimately show False by (metis dvd_imp_le not_le)
  qed
  assume "l \<noteq> k"
  then show False using wrong [of l k] wrong [of k l] assms by (metis nat_neq_iff)
qed

lemma entry_at:
  "get_blkno_and_offset dsb 0 l = (entry_addr dsb l div 4096, entry_addr dsb l mod 4096)"
  "get_map_entry_helper t (entry_addr dsb l div 4096) (entry_addr dsb l mod 4096) = t (entry_addr dsb l)"
  "set_map_entry_helper t (entry_addr dsb l div 4096) (entry_addr dsb l mod 4096) d = t(entry_addr dsb l := d)"
  by (simp_all add: get_blkno_and_offset_def entry_addr_def get_map_entry_helper_def set_map_entry_helper_def Let_def)

text \<open>The entry that a lookup returns and leaves in the table.\<close>

definition the_entry :: "disk_superblock \<Rightarrow> map_table \<Rightarrow> nat \<Rightarrow> map_blocks" where
  "the_entry dsb t l =
     (let e = t (entry_addr dsb l) in
      if bit (m_flags e) 0 then e
      else e\<lparr>m_lblk := l mod 2 ^ 32, m_pblk := l, m_len := 4096, m_flags := m_flags e OR 1\<rparr>)"

lemma get_entry: "get_map_table_entry dsb t l 0 = (the_entry dsb t l, t(entry_addr dsb l := the_entry dsb t l))"
  by (simp add: get_map_table_entry_def entry_at the_entry_def Let_def flag_simps)

lemma set_entry: "set_map_table_entry dsb t l 0 d = t(entry_addr dsb l := d)"
  by (simp add: set_map_table_entry_def entry_at)

lemma the_entry_init [simp]: "bit (m_flags (the_entry dsb t l)) 0"
  by (simp add: the_entry_def Let_def flag_simps)

lemma the_entry_pmap: "m_pblk (the_entry dsb t l) = pmap dsb t l"
  by (simp add: the_entry_def pmap_def Let_def flag_simps)

lemma the_entry_prevmap:
  "prevmap dsb t l = (if bit (m_flags (the_entry dsb t l)) 1 then m_lblk (the_entry dsb t l) else pmap dsb t l)"
  by (simp add: the_entry_def prevmap_def Let_def flag_simps)

abbreviation small_table :: "disk_superblock \<Rightarrow> bool" where
  "small_table dsb \<equiv> nmapentry dsb * 24 \<le> 2 ^ 32"

lemma map_upd:
  assumes "small_table dsb" and "l < nmapentry dsb" and "k < nmapentry dsb" and "bit (m_flags d) 0"
  shows "pmap dsb (t(entry_addr dsb l := d)) k = (if k = l then m_pblk d else pmap dsb t k)"
    and "prevmap dsb (t(entry_addr dsb l := d)) k =
      (if k = l then if bit (m_flags d) 1 then m_lblk d else m_pblk d else prevmap dsb t k)"
  using assms entry_addr_inj [OF assms(2,3,1), of dsb]
  by (auto simp: pmap_def prevmap_def Let_def flag_simps)

lemma get_entry_maps:
  assumes "small_table dsb" and "l < nmapentry dsb" and "k < nmapentry dsb"
  shows "pmap dsb (t(entry_addr dsb l := the_entry dsb t l)) k = pmap dsb t k"
    and "prevmap dsb (t(entry_addr dsb l := the_entry dsb t l)) k = prevmap dsb t k"
  using map_upd [OF assms, of "the_entry dsb t l" t] by (simp_all add: the_entry_pmap the_entry_prevmap)

lemma lookup_maps:
  "lblk2pblk dsb t l 0 = (pmap dsb t l, t(entry_addr dsb l := the_entry dsb t l))"
  "lblk2pblk4cache dsb t l 0 = (prevmap dsb t l, t(entry_addr dsb l := the_entry dsb t l))"
  by (simp_all add: lblk2pblk_def lblk2pblk4cache_def get_entry the_entry_pmap the_entry_prevmap flag_simps)

lemma unset_maps:
  assumes "small_table dsb" and "l < nmapentry dsb" and "k < nmapentry dsb"
  shows "pmap dsb (unset_map_table_entry_cache_bit dsb t l 0) k = pmap dsb t k"
    and "prevmap dsb (unset_map_table_entry_cache_bit dsb t l 0) k =
      (if k = l then pmap dsb t k else prevmap dsb t k)"
proof -
  define e where "e = the_entry dsb t l"
  define d where "d = e\<lparr>m_flags := (m_flags e AND 1) AND m_flags e\<rparr>"
  have run: "unset_map_table_entry_cache_bit dsb t l 0 = t(entry_addr dsb l := d)"
    by (simp add: unset_map_table_entry_cache_bit_def get_entry set_entry d_def e_def Let_def)
  have "bit (m_flags d) 0" "\<not> bit (m_flags d) 1" "m_pblk d = pmap dsb t l"
    using the_entry_init [of dsb t l] by (auto simp: d_def e_def the_entry_pmap bit_simps)
  with assms show "pmap dsb (unset_map_table_entry_cache_bit dsb t l 0) k = pmap dsb t k"
    "prevmap dsb (unset_map_table_entry_cache_bit dsb t l 0) k =
      (if k = l then pmap dsb t k else prevmap dsb t k)"
    by (simp_all add: run map_upd)
qed

lemma update_entries:
  fixes dsb t k l
  defines "e \<equiv> the_entry dsb t k"
  defines "t1 \<equiv> t(entry_addr dsb k := e)"
  defines "f \<equiv> the_entry dsb t1 l"
  defines "km \<equiv> e\<lparr>m_lblk := m_pblk e mod 2 ^ 32, m_pblk := m_pblk f, m_flags := (m_flags e OR 1) OR 2\<rparr>"
  defines "lm \<equiv> f\<lparr>m_pblk := m_pblk e, m_lblk := m_pblk f mod 2 ^ 32, m_flags := ((m_flags e OR 1) OR 2) OR 2\<rparr>"
  shows "update_map_table dsb t k l 0 =
    t1(entry_addr dsb l := f, entry_addr dsb k := km, entry_addr dsb l := lm)"
  by (simp add: update_map_table_def get_entry set_entry Let_def flag_simps e_def t1_def f_def km_def lm_def)

lemma update_maps:
  assumes "small_table dsb" and "k < nmapentry dsb" and "l < nmapentry dsb" and "j < nmapentry dsb"
  shows "pmap dsb (update_map_table dsb t k l 0) j =
      (if j = l then pmap dsb t k else if j = k then pmap dsb t l else pmap dsb t j)"
    and "prevmap dsb (update_map_table dsb t k l 0) j =
      (if j = l \<or> j = k then pmap dsb t j mod 2 ^ 32 else prevmap dsb t j)"
proof -
  define e where "e = the_entry dsb t k"
  define t1 where "t1 = t(entry_addr dsb k := e)"
  define f where "f = the_entry dsb t1 l"
  define t2 where "t2 = t1(entry_addr dsb l := f)"
  have t1: "pmap dsb t1 j = pmap dsb t j" "prevmap dsb t1 j = prevmap dsb t j" if "j < nmapentry dsb" for j
    using get_entry_maps [OF assms(1,2) that, of t] by (simp_all add: t1_def e_def)
  have t2: "pmap dsb t2 j = pmap dsb t j" "prevmap dsb t2 j = prevmap dsb t j" if "j < nmapentry dsb" for j
    using get_entry_maps [OF assms(1,3) that, of t1] t1 [OF that] by (simp_all add: t2_def f_def)
  have pblk: "m_pblk e = pmap dsb t k" "m_pblk f = pmap dsb t l"
    using t1(1) [OF assms(3)] by (simp_all add: e_def f_def the_entry_pmap)
  let ?fl = "(m_flags e OR 1) OR (2::u32)"
  have init: "bit ?fl 0" "bit ?fl 1" "bit (?fl OR 2) 0" "bit (?fl OR 2) 1"
    by (simp_all add: flag_simps)
  note run = update_entries [of dsb t k l, folded e_def, folded t1_def, folded f_def, folded t2_def]
  show "pmap dsb (update_map_table dsb t k l 0) j =
      (if j = l then pmap dsb t k else if j = k then pmap dsb t l else pmap dsb t j)"
    unfolding run using assms t2(1) [OF assms(4)] init pblk by (simp add: map_upd)
  show "prevmap dsb (update_map_table dsb t k l 0) j =
      (if j = l \<or> j = k then pmap dsb t j mod 2 ^ 32 else prevmap dsb t j)"
    unfolding run using assms t2(2) [OF assms(4)] init pblk by (auto simp: map_upd)
qed

lemma bij_betw_swapped:
  assumes "bij_betw f S S" and "k \<in> S" and "l \<in> S"
  shows "bij_betw (\<lambda>j. if j = l then f k else if j = k then f l else f j) S S"
proof -
  let ?s = "\<lambda>j. if j = l then k else if j = k then l else j"
  have "bij_betw ?s S S"
    by (rule bij_betw_byWitness [where f' = ?s]) (use assms in auto)
  then have "bij_betw (f \<circ> ?s) S S" using assms(1) by (rule bij_betw_trans)
  moreover have "f \<circ> ?s = (\<lambda>j. if j = l then f k else if j = k then f l else f j)" by auto
  ultimately show ?thesis by simp
qed

lemma map_good_cong:
  assumes "map_good dsb t" and "\<And>j. j < nmapentry dsb \<Longrightarrow> pmap dsb t' j = pmap dsb t j"
  shows "map_good dsb t'"
  using assms bij_betw_cong [of "{..<nmapentry dsb}" "pmap dsb t'" "pmap dsb t"] by (simp add: map_good_def)

lemma get_good:
  assumes "small_table dsb" and "map_good dsb t" and "l < nmapentry dsb"
  shows "map_good dsb (t(entry_addr dsb l := the_entry dsb t l))"
  by (rule map_good_cong [OF assms(2)]) (rule get_entry_maps(1) [OF assms(1,3)])

lemma map_step_good:
  assumes "small_table dsb" and "map_step dsb t t'" and "map_good dsb t"
  shows "map_good dsb t'"
  using assms(2,3)
proof (induction rule: map_step.induct)
  case (lookup l t)
  then show ?case by (metis get_good [OF assms(1)] lookup_maps(1) snd_conv)
next
  case (lookup4cache l t)
  then show ?case by (metis get_good [OF assms(1)] lookup_maps(2) snd_conv)
next
  case (update k l t)
  let ?f = "\<lambda>j. if j = l then pmap dsb t k else if j = k then pmap dsb t l else pmap dsb t j"
  have "bij_betw ?f {..<nmapentry dsb} {..<nmapentry dsb}"
    using update bij_betw_swapped [of "pmap dsb t" "{..<nmapentry dsb}" k l] by (simp add: map_good_def)
  moreover have "bij_betw (pmap dsb (update_map_table dsb t k l 0)) {..<nmapentry dsb} {..<nmapentry dsb} =
      bij_betw ?f {..<nmapentry dsb} {..<nmapentry dsb}"
    by (rule bij_betw_cong) (use update update_maps(1) [OF assms(1)] in simp)
  ultimately show ?case by (simp add: map_good_def)
next
  case (unset l t)
  then show ?case using map_good_cong [OF unset(2)] unset_maps(1) [OF assms(1)] by simp
qed

interpretation map_machine: machine "\<lambda>t. small_table dsb \<and> map_initial t" "\<lambda>t t'. small_table dsb \<and> map_step dsb t t'" "map_good dsb"
proof unfold_locales
  show "map_good dsb t" if "small_table dsb \<and> map_initial t" for t
  proof -
    have "pmap dsb t = id" using that by (auto simp: map_initial_def pmap_def)
    then show ?thesis by (simp add: map_good_def)
  qed
qed (use map_step_good in blast)

section \<open>Pieces of a read\<close>









section \<open>Correctness of the map table\<close>

text \<open>
  C23: whatever lookups, updates and cache-bit resets are made on a fresh table, two
  different logical blocks never share a physical block and every block stays reachable:
  \<open>lblk2pblk\<close> is a permutation of the blocks of the device.
\<close>

theorem map_table_permutation:
  assumes "nmapentry dsb * map_blocks_size \<le> 2 ^ 32" and "map_initial t" and "(map_step dsb)\<^sup>*\<^sup>* t t'"
  shows "bij_betw (\<lambda>l. fst (lblk2pblk dsb t' l KERNFS_ID)) {..<nmapentry dsb} {..<nmapentry dsb}"
proof -
  have "(\<lambda>t t'. small_table dsb \<and> map_step dsb t t')\<^sup>*\<^sup>* t t'"
    using assms(1,3) by simp
  with assms have "map_good dsb t'" using map_machine.good_reachable [of dsb t t'] by simp
  then show ?thesis by (simp add: map_good_def lookup_maps)
qed

theorem map_table_permutation_witness:
  "bij_betw (\<lambda>l. fst (lblk2pblk tiny_dsb (update_map_table tiny_dsb fresh_table 3 5 KERNFS_ID) l KERNFS_ID))
     {..<200000} {..<200000}"
proof -
  have "map_step tiny_dsb fresh_table (update_map_table tiny_dsb fresh_table 3 5 0)"
    by (rule map_step.update) (simp_all add: tiny_dsb_def root_superblock_def)
  then show ?thesis
    using map_table_permutation [of tiny_dsb fresh_table]
    by (simp add: map_initial_def fresh_table_def tiny_dsb_def root_superblock_def r_into_rtranclp)
qed

text \<open>
  C24: \<open>update_map_table\<close> exchanges the physical blocks of its two logical blocks and changes
  no other; a reader that goes by the cache bit finds the two blocks where they were before,
  until the bit of the block is reset.
\<close>

theorem update_map_table_swaps:
  assumes "nmapentry dsb * map_blocks_size \<le> 2 ^ 32" and "k < nmapentry dsb" and "l < nmapentry dsb"
    and "j < nmapentry dsb" and "t' = update_map_table dsb t k l KERNFS_ID"
  shows "fst (lblk2pblk dsb t' j KERNFS_ID) =
      (if j = l then fst (lblk2pblk dsb t k KERNFS_ID) else if j = k then fst (lblk2pblk dsb t l KERNFS_ID)
       else fst (lblk2pblk dsb t j KERNFS_ID)) \<and>
    fst (lblk2pblk4cache dsb t' j KERNFS_ID) =
      (if j = k \<or> j = l then fst (lblk2pblk dsb t j KERNFS_ID) mod 2 ^ 32
       else fst (lblk2pblk4cache dsb t j KERNFS_ID)) \<and>
    fst (lblk2pblk4cache dsb (unset_map_table_entry_cache_bit dsb t' j KERNFS_ID) j KERNFS_ID) =
      fst (lblk2pblk dsb t' j KERNFS_ID)"
  using assms(1-4) unfolding assms(5) by (auto simp: lookup_maps update_maps unset_maps)

theorem update_map_table_swaps_witness:
  "fst (lblk2pblk tiny_dsb (update_map_table tiny_dsb fresh_table 3 5 KERNFS_ID) 3 KERNFS_ID) = 5 \<and>
   fst (lblk2pblk4cache tiny_dsb (update_map_table tiny_dsb fresh_table 3 5 KERNFS_ID) 3 KERNFS_ID) = 3"
proof -
  have "pmap tiny_dsb fresh_table = id" by (auto simp: pmap_def fresh_table_def)
  then show ?thesis
    using update_map_table_swaps [of tiny_dsb 3 5 3 "update_map_table tiny_dsb fresh_table 3 5 KERNFS_ID" fresh_table]
    by (simp add: tiny_dsb_def root_superblock_def lookup_maps)
qed

text \<open>
  C25: on a device of at most 4 GiB that \<open>mkfs\<close> laid out, every entry is inside the region
  of the map table; when the table starts at or above 4 GiB, the 32-bit address places every
  entry before the region, among inodes, data or log blocks.
\<close>

theorem map_entry_address:
  assumes "mkfs_superblock g_root_dev dev_size u = Inr (dsb, nmeta)"
    and "4096 dvd dev_size g_root_dev" and "dev_size g_root_dev < 2 ^ 58" and "lblk < nmapentry dsb"
    and "get_blkno_and_offset dsb KERNFS_ID lblk = (blkno, off)"
  shows "(dev_size g_root_dev \<le> 2 ^ 32 \<longrightarrow>
      map_table_start dsb * g_block_size_bytes \<le> blkno * g_block_size_bytes + off \<and>
      blkno * g_block_size_bytes + off + map_blocks_size \<le> dev_size g_root_dev) \<and>
    (2 ^ 32 \<le> map_table_start dsb * g_block_size_bytes \<longrightarrow> blkno < map_table_start dsb)"
proof -
  obtain fs mt where sb: "fs + 164864 + mt = dev_size 1 div 4096" "mt = map_table_blocks (dev_size 1 div 4096)"
      "dsb = root_superblock (dev_size 1 div 4096) fs nmeta mt"
    using mkfs_superblock_root [OF assms(1,3,2)] by blast
  define blocks where "blocks = dev_size 1 div 4096"
  have bytes: "dev_size 1 = blocks * 4096" using assms(2) by (simp add: blocks_def)
  have at: "blkno * 4096 + off = entry_addr dsb lblk" using assms(5) entry_at(1) [of dsb lblk] by auto
  have start: "map_table_start dsb = blocks - mt" "mt \<le> blocks" and n: "nmapentry dsb = blocks"
    using sb unfolding blocks_def by (simp_all add: root_superblock_def)
  have fit: "blocks * 24 \<le> mt * 4096"
    using map_table_blocks_fit [of blocks] sb(2) by (simp add: blocks_def)
  have "(blocks - mt) * 4096 + lblk * 24 + 24 \<le> blocks * 4096"
    using fit assms(4) start(2) n by (simp add: diff_mult_distrib)
  moreover have "entry_addr dsb lblk = (blocks - mt) * 4096 + lblk * 24"
    if "blocks * 4096 \<le> 2 ^ 32" using that calculation by (simp add: entry_addr_def start(1))
  moreover have "blkno < map_table_start dsb" if "2 ^ 32 \<le> map_table_start dsb * 4096"
  proof -
    have "blkno * 4096 < 2 ^ 32" using at by (simp add: entry_addr_def)
    with that show ?thesis by simp
  qed
  ultimately show ?thesis using bytes at start(1) by simp
qed

theorem map_entry_address_witness:
  "\<exists>dsb nmeta. mkfs_superblock g_root_dev default_size 0 = Inr (dsb, nmeta) \<and>
     map_table_start dsb * 4096 \<le> fst (get_blkno_and_offset dsb KERNFS_ID 5) * 4096 + snd (get_blkno_and_offset dsb KERNFS_ID 5)"
proof -
  have "\<exists>dsb nmeta. mkfs_superblock 1 default_size 0 = Inr (dsb, nmeta) \<and> nmapentry dsb = 786432"
    by (simp add: mkfs_superblock_def default_size_def map_table_blocks_def IPB_LPB Let_def)
  then obtain dsb nmeta where run: "mkfs_superblock 1 default_size 0 = Inr (dsb, nmeta)" "nmapentry dsb = 786432"
    by blast
  then show ?thesis
    using map_entry_address [OF run(1), of 5 "fst (get_blkno_and_offset dsb 0 5)" "snd (get_blkno_and_offset dsb 0 5)"]
    by (auto simp: default_size_def)
qed



end
