(* ===== verification/Log.thy ===== *)
theory Log
  imports Prelude
begin

text \<open>
  Transactions of the update log of a LibFS process, from
  \<open>src/libfs/src/log/log.c\<close> and the structures of \<open>src/libfs/src/filesystem/shared.h\<close>:
  building a log header (\<open>start_log_tx\<close>, \<open>add_to_loghdr\<close>, \<open>add_to_log\<close>), the
  number of blocks of a transaction (\<open>compute_log_blocks\<close>), and writing the blocks and the
  header (\<open>persist_log_blocks\<close>, \<open>persist_log_header\<close>). Inodes, the file cache and the device
  belong to other components; what the log does to them is returned as a list of effects, in
  the order of the code. The theorems show that the blocks of a transaction fit exactly into
  the space it allocates.
\<close>

section \<open>Log headers\<close>

abbreviation (input) L_TYPE_DIR_ADD :: nat where "L_TYPE_DIR_ADD \<equiv> 1"
abbreviation (input) L_TYPE_DIR_RENAME :: nat where "L_TYPE_DIR_RENAME \<equiv> 2"
abbreviation (input) L_TYPE_DIR_DEL :: nat where "L_TYPE_DIR_DEL \<equiv> 3"
abbreviation (input) L_TYPE_INODE_CREATE :: nat where "L_TYPE_INODE_CREATE \<equiv> 4"
abbreviation (input) L_TYPE_INODE_UPDATE :: nat where "L_TYPE_INODE_UPDATE \<equiv> 5"
abbreviation (input) L_TYPE_FILE :: nat where "L_TYPE_FILE \<equiv> 6"
abbreviation (input) L_TYPE_UNLINK :: nat where "L_TYPE_UNLINK \<equiv> 7"
abbreviation (input) L_TYPE_ALLOC :: nat where "L_TYPE_ALLOC \<equiv> 8"
abbreviation (input) LH_COMMIT_MAGIC :: nat where "LH_COMMIT_MAGIC \<equiv> 0x1FB9"
abbreviation (input) T_DIR :: nat where "T_DIR \<equiv> 1"
abbreviation (input) T_FILE :: nat where "T_FILE \<equiv> 2"

text \<open>
  The arrays \<open>type\<close>, \<open>inode_no\<close>, \<open>data\<close>, \<open>length\<close> and \<open>blocks\<close> of a log header as a list of
  entries whose length is \<open>n\<close>.
\<close>

record log_entry =
  le_type :: nat
  le_inum :: nat
  le_data :: nat
  le_length :: nat
  le_block :: nat

record loghdr =
  entries :: "log_entry list"
  nr_log_blocks :: nat
  inuse :: nat

text \<open>
  The in-memory side: \<open>hdr\<close> is the header when \<open>is_hdr_allocated\<close> is set, \<open>io_vec\<close> the
  buffers of the user, \<open>loghdr_ext\<close> the bytes of the extension that are in use.
\<close>

record loghdr_meta =
  hdr :: "loghdr option"
  hdr_blkno :: nat
  pos :: nat
  io_vec :: "u8 list list"
  loghdr_ext :: "u8 list"

definition start_log_tx :: loghdr_meta where
  "start_log_tx = \<lparr>hdr = None, hdr_blkno = 0, pos = 0, io_vec = [], loghdr_ext = []\<rparr>"

definition empty_hdr :: loghdr where
  "empty_hdr = \<lparr>entries = [], nr_log_blocks = 0, inuse = 0\<rparr>"

text \<open>The extension gets the index of the entry as a digit, the extra bytes and a bar.\<close>

definition add_ext :: "nat \<Rightarrow> u8 list \<Rightarrow> u8 list \<Rightarrow> fault + u8 list" where
  "add_ext i extra ext =
     (if extra = [] then Inr ext
      else let ext = ext @ [48 + of_nat i] @ extra @ [124] in
        if length ext \<le> 2048 then Inr ext else Inl (Assert ''ext_used''))"

definition data_type :: "nat \<Rightarrow> bool" where
  "data_type type \<longleftrightarrow> type = L_TYPE_FILE \<or> type = L_TYPE_DIR_ADD \<or> type = L_TYPE_DIR_RENAME \<or>
     type = L_TYPE_DIR_DEL \<or> type = L_TYPE_ALLOC"

text \<open>\<open>limit\<close> is \<open>g_fs_log->size\<close>.\<close>

definition add_to_loghdr :: "nat \<Rightarrow> nat \<Rightarrow> nat \<Rightarrow> nat \<Rightarrow> nat \<Rightarrow> u8 list \<Rightarrow> loghdr_meta \<Rightarrow> fault + loghdr_meta" where
  "add_to_loghdr limit type inum data len extra meta =
     (let lh = (case hdr meta of None \<Rightarrow> empty_hdr | Some lh \<Rightarrow> lh);
          i = length (entries lh) in
      if i \<ge> limit then Inl (Panic ''too big a transaction for log'')
      else if i \<ge> g_max_blocks_per_operation then Inl (Panic ''log header is too small'')
      else
        let e = \<lparr>le_type = type, le_inum = inum, le_data = (if data_type type then data else 0),
                 le_length = len, le_block = 0\<rparr>;
            lh = lh\<lparr>entries := entries lh @ [e]\<rparr> in
        bindF (add_ext i extra (loghdr_ext meta)) (\<lambda>ext.
          Inr (meta\<lparr>hdr := Some lh, loghdr_ext := ext\<rparr>)))"

text \<open>
  \<open>add_to_log\<close> of \<open>src/libfs/src/filesystem/fs.c\<close>: one more buffer, and the file grows. The
  results are the number of bytes, the size of the file and the transaction.
\<close>

definition add_to_log :: "nat \<Rightarrow> nat \<Rightarrow> nat \<Rightarrow> u8 list \<Rightarrow> nat \<Rightarrow> nat \<Rightarrow> loghdr_meta \<Rightarrow> fault + nat \<times> nat \<times> loghdr_meta" where
  "add_to_log limit inum fsize buf off ltype meta =
     (let sz = length buf in
      if \<not> off < uadd64 off sz then Inl (Assert ''off + size > off'')
      else
        let meta = meta\<lparr>io_vec := io_vec meta @ [buf]\<rparr> in
        if length (io_vec meta) > 9 then Inl (Assert ''nr_iovec'')
        else
          bindF (add_to_loghdr limit ltype inum off sz [] meta) (\<lambda>meta.
            Inr (sz, if 0 < sz \<and> off + sz > fsize then off + sz else fsize, meta)))"

section \<open>Blocks of a transaction\<close>

definition inode_type :: "nat \<Rightarrow> bool" where
  "inode_type type \<longleftrightarrow> type = L_TYPE_UNLINK \<or> type = L_TYPE_INODE_CREATE \<or> type = L_TYPE_INODE_UPDATE"

definition file_type :: "nat \<Rightarrow> bool" where
  "file_type type \<longleftrightarrow> type = L_TYPE_DIR_ADD \<or> type = L_TYPE_DIR_RENAME \<or> type = L_TYPE_DIR_DEL \<or> type = L_TYPE_FILE"

definition io_blocks :: "nat \<Rightarrow> nat" where
  "io_blocks sz = (if sz < g_block_size_bytes then 1 else sz div g_block_size_bytes)"

text \<open>The entries are walked together with the buffers of those that carry data.\<close>

fun count_log_blocks :: "log_entry list \<Rightarrow> u8 list list \<Rightarrow> fault + nat" where
  "count_log_blocks [] vec = Inr 0"
| "count_log_blocks (e # es) vec =
     (if inode_type (le_type e) \<or> le_type e = L_TYPE_ALLOC
      then bindF (count_log_blocks es vec) (\<lambda>n. Inr (n + 1))
      else if file_type (le_type e)
      then (case vec of
              [] \<Rightarrow> Inl NullDeref
            | buf # vec \<Rightarrow> bindF (count_log_blocks es vec) (\<lambda>n. Inr (n + io_blocks (length buf))))
      else Inl (Panic ''unsupported log type''))"

definition compute_log_blocks :: "loghdr_meta \<Rightarrow> fault + nat" where
  "compute_log_blocks meta = bindF (deref (hdr meta)) (\<lambda>lh. count_log_blocks (entries lh) (io_vec meta))"

section \<open>Writing the blocks\<close>

text \<open>
  Effects of a commit on the rest of the system: writing bytes at an offset of a logical
  block of the log (through the map table), clearing the cache bit of a map table entry, the
  updates of the file cache, freeing the number of a deleted inode, and writing a header.
\<close>

datatype log_effect =
    Write_Block nat nat "u8 list"
  | Unset_Cache nat
  | Fcache_Add nat nat nat nat nat
  | Fcache_Replace nat nat nat nat nat
  | Fcache_Del_All nat nat
  | Inode_Freed nat
  | Write_Header nat loghdr "u8 list"

record inode_view =
  iv_type :: nat
  iv_dinode :: "u8 list"
  iv_deleting :: bool

definition persist_log_inode :: "(nat \<Rightarrow> inode_view option) \<Rightarrow> nat \<Rightarrow> nat \<Rightarrow> log_entry \<Rightarrow> nat \<Rightarrow> fault + log_entry \<times> nat \<times> log_effect list" where
  "persist_log_inode icache blkno nr e p =
     (if p + 1 > nr then Inl (Assert ''pos'')
      else case icache (le_inum e) of
        None \<Rightarrow> Inl (Assert ''ip'')
      | Some ip \<Rightarrow>
          Inr (e\<lparr>le_block := p\<rparr>, p + 1,
            (if iv_deleting ip then [Inode_Freed (le_inum e)] else []) @
            [Write_Block (blkno + p) 0 (iv_dinode ip)]))"

definition block_of :: "u8 list \<Rightarrow> nat \<Rightarrow> u8 list" where
  "block_of buf i = take g_block_size_bytes (drop (i * g_block_size_bytes) buf)"

definition persist_log_file :: "(nat \<Rightarrow> inode_view option) \<Rightarrow> nat \<Rightarrow> nat \<Rightarrow> log_entry \<Rightarrow> u8 list \<Rightarrow> nat \<Rightarrow> fault + log_entry \<times> nat \<times> log_effect list" where
  "persist_log_file icache blkno nr e buf p =
     (case icache (le_inum e) of
        None \<Rightarrow> Inl (Assert ''inode'')
      | Some ip \<Rightarrow>
          let sz = length buf; logblk_no = blkno + p; key = le_data e div g_block_size_bytes in
          if sz < g_block_size_bytes then
            let ofs = le_data e mod g_block_size_bytes in
            if ofs + sz \<le> g_block_size_bytes then
              Inr (e\<lparr>le_block := p\<rparr>, p + 1,
                [if iv_type ip = T_DIR then Fcache_Replace (le_inum e) key logblk_no ofs sz
                 else Fcache_Add (le_inum e) key logblk_no ofs sz,
                 Write_Block logblk_no ofs buf, Unset_Cache logblk_no])
            else Inl (Panic ''do not support this case yet'')
          else if le_data e mod g_block_size_bytes \<noteq> 0 then Inl (Assert ''data aligned'')
          else if sz mod g_block_size_bytes \<noteq> 0 then Inl (Assert ''size aligned'')
          else
            let nb = sz div g_block_size_bytes in
            if p + nb > nr then Inl (Assert ''pos'')
            else
              Inr (e\<lparr>le_block := p\<rparr>, p + nb,
                concat (map (\<lambda>i. [Write_Block (logblk_no + i) 0 (block_of buf i), Unset_Cache (logblk_no + i)])
                  [0..<nb]) @
                concat (map (\<lambda>k. [Fcache_Del_All (le_inum e) (key + k),
                                   Fcache_Add (le_inum e) (key + k) (logblk_no + k) 0 g_block_size_bytes])
                  [0..<nb])))"

fun persist_entries :: "(nat \<Rightarrow> inode_view option) \<Rightarrow> nat \<Rightarrow> nat \<Rightarrow> log_entry list \<Rightarrow> u8 list list \<Rightarrow> nat \<Rightarrow> fault + log_entry list \<times> nat \<times> log_effect list" where
  "persist_entries icache blkno nr [] vec p = Inr ([], p, [])"
| "persist_entries icache blkno nr (e # es) vec p =
     (if inode_type (le_type e) then
        bindF (persist_log_inode icache blkno nr e p) (\<lambda>(e, p, fx).
        bindF (persist_entries icache blkno nr es vec p) (\<lambda>(es, p, fxs). Inr (e # es, p, fx @ fxs)))
      else if file_type (le_type e) then
        (case vec of
           [] \<Rightarrow> Inl NullDeref
         | buf # vec \<Rightarrow>
             bindF (persist_log_file icache blkno nr e buf p) (\<lambda>(e, p, fx).
             bindF (persist_entries icache blkno nr es vec p) (\<lambda>(es, p, fxs). Inr (e # es, p, fx @ fxs))))
      else if le_type e = L_TYPE_ALLOC then
        bindF (persist_entries icache blkno nr es vec p) (\<lambda>(es, p, fxs). Inr (e # es, p, fxs))
      else Inl (Panic ''unsupported log type''))"

definition persist_log_blocks :: "(nat \<Rightarrow> inode_view option) \<Rightarrow> loghdr_meta \<Rightarrow> fault + loghdr_meta \<times> log_effect list" where
  "persist_log_blocks icache meta =
     bindF (deref (hdr meta)) (\<lambda>lh.
     bindF (persist_entries icache (hdr_blkno meta) (nr_log_blocks lh) (entries lh) (io_vec meta) (pos meta))
       (\<lambda>(es, p, fxs). Inr (meta\<lparr>hdr := Some (lh\<lparr>entries := es\<rparr>), pos := p\<rparr>, fxs)))"

definition persist_log_header :: "loghdr_meta \<Rightarrow> nat \<Rightarrow> fault + log_effect list" where
  "persist_log_header meta blk =
     bindF (deref (hdr meta)) (\<lambda>lh. Inr [Write_Header blk lh (loghdr_ext meta)])"

text \<open>
  The part of \<open>commit_log\<close> before and after the allocation of log space: the number of blocks
  to allocate, and, with the block that \<open>log_alloc\<close> returned, the writes. \<open>nr_log_blocks\<close> of
  the header is a 16-bit field.
\<close>

definition commit_log_blocks :: "loghdr_meta \<Rightarrow> fault + nat" where
  "commit_log_blocks meta =
     bindF (deref (hdr meta)) (\<lambda>lh.
       if entries lh = [] then Inl (Panic ''empty log header'')
       else bindF (compute_log_blocks meta) (\<lambda>n. Inr (n + 1)))"

definition commit_log_at :: "(nat \<Rightarrow> inode_view option) \<Rightarrow> nat \<Rightarrow> nat \<Rightarrow> loghdr_meta \<Rightarrow> fault + loghdr_meta \<times> log_effect list" where
  "commit_log_at icache nr blk meta =
     bindF (deref (hdr meta)) (\<lambda>lh.
     let meta = meta\<lparr>hdr_blkno := blk, pos := 1,
           hdr := Some (lh\<lparr>nr_log_blocks := nr mod 2 ^ 16, inuse := LH_COMMIT_MAGIC\<rparr>)\<rparr> in
     bindF (persist_log_blocks icache meta) (\<lambda>(meta, fxs).
     bindF (persist_log_header meta blk) (\<lambda>hfx. Inr (meta, fxs @ hfx))))"

section \<open>Transactions that the file system builds\<close>

text \<open>
  A buffer is smaller than a block and does not cross a block boundary, or it consists of
  whole blocks at a block boundary; the inodes are in the cache.
\<close>

definition io_ok :: "nat \<Rightarrow> nat \<Rightarrow> bool" where
  "io_ok off sz \<longleftrightarrow> (if sz < g_block_size_bytes then off mod g_block_size_bytes + sz \<le> g_block_size_bytes
     else off mod g_block_size_bytes = 0 \<and> sz mod g_block_size_bytes = 0)"

definition dinode_ok :: "inode_view \<Rightarrow> bool" where
  "dinode_ok ip \<longleftrightarrow> length (iv_dinode ip) \<le> g_block_size_bytes"

fun tx_ok :: "(nat \<Rightarrow> inode_view option) \<Rightarrow> log_entry list \<Rightarrow> u8 list list \<Rightarrow> bool" where
  "tx_ok icache [] vec \<longleftrightarrow> True"
| "tx_ok icache (e # es) vec \<longleftrightarrow>
     (if inode_type (le_type e)
      then (case icache (le_inum e) of None \<Rightarrow> False | Some ip \<Rightarrow> dinode_ok ip) \<and> tx_ok icache es vec
      else if file_type (le_type e)
      then icache (le_inum e) \<noteq> None \<and>
        (case vec of [] \<Rightarrow> False | buf # vec \<Rightarrow> io_ok (le_data e) (length buf) \<and> tx_ok icache es vec)
      else le_type e = L_TYPE_ALLOC \<and> tx_ok icache es vec)"

text \<open>The blocks that are written, in order, and the contents of the device afterwards.\<close>

primrec written :: "log_effect \<Rightarrow> nat list" where
  "written (Write_Block b ofs d) = [b]"
| "written (Unset_Cache b) = []"
| "written (Fcache_Add i k b ofs sz) = []"
| "written (Fcache_Replace i k b ofs sz) = []"
| "written (Fcache_Del_All i k) = []"
| "written (Inode_Freed i) = []"
| "written (Write_Header b lh ext) = [b]"

definition splice :: "u8 list \<Rightarrow> nat \<Rightarrow> u8 list \<Rightarrow> u8 list" where
  "splice blk ofs d = take ofs blk @ d @ drop (ofs + length d) blk"

primrec apply_write :: "log_effect \<Rightarrow> (nat \<Rightarrow> u8 list) \<Rightarrow> nat \<Rightarrow> u8 list" where
  "apply_write (Write_Block b ofs d) dev = dev(b := splice (dev b) ofs d)"
| "apply_write (Unset_Cache b) dev = dev"
| "apply_write (Fcache_Add i k b ofs sz) dev = dev"
| "apply_write (Fcache_Replace i k b ofs sz) dev = dev"
| "apply_write (Fcache_Del_All i k) dev = dev"
| "apply_write (Inode_Freed i) dev = dev"
| "apply_write (Write_Header b lh ext) dev = dev"

text \<open>What a reader of the log finds for the entries of a transaction.\<close>

definition file_stored :: "(nat \<Rightarrow> u8 list) \<Rightarrow> nat \<Rightarrow> log_entry \<Rightarrow> u8 list \<Rightarrow> bool" where
  "file_stored dev blkno e buf \<longleftrightarrow>
     (if length buf < g_block_size_bytes
      then take (length buf) (drop (le_data e mod g_block_size_bytes) (dev (blkno + le_block e))) = buf
      else concat (map (\<lambda>i. dev (blkno + le_block e + i)) [0..<length buf div g_block_size_bytes]) = buf)"

fun tx_stored :: "(nat \<Rightarrow> inode_view option) \<Rightarrow> (nat \<Rightarrow> u8 list) \<Rightarrow> nat \<Rightarrow> log_entry list \<Rightarrow> u8 list list \<Rightarrow> bool" where
  "tx_stored icache dev blkno [] vec \<longleftrightarrow> True"
| "tx_stored icache dev blkno (e # es) vec \<longleftrightarrow>
     (if inode_type (le_type e)
      then (case icache (le_inum e) of None \<Rightarrow> False
            | Some ip \<Rightarrow> take (length (iv_dinode ip)) (dev (blkno + le_block e)) = iv_dinode ip) \<and>
        tx_stored icache dev blkno es vec
      else if file_type (le_type e)
      then (case vec of [] \<Rightarrow> False | buf # vec \<Rightarrow> file_stored dev blkno e buf \<and> tx_stored icache dev blkno es vec)
      else tx_stored icache dev blkno es vec)"

definition dev_ok :: "(nat \<Rightarrow> u8 list) \<Rightarrow> bool" where
  "dev_ok dev \<longleftrightarrow> (\<forall>b. length (dev b) = g_block_size_bytes)"

definition apply_writes :: "log_effect list \<Rightarrow> (nat \<Rightarrow> u8 list) \<Rightarrow> nat \<Rightarrow> u8 list" where
  "apply_writes fxs dev = fold apply_write fxs dev"

declare tx_stored.simps(2) [simp del] persist_entries.simps(2) [simp del]

section \<open>Lemmas\<close>

lemma length_splice [simp]: "ofs + length d \<le> length blk \<Longrightarrow> length (splice blk ofs d) = length blk"
  by (simp add: splice_def)

lemma take_splice: "ofs + length d \<le> length blk \<Longrightarrow> take (length d) (drop ofs (splice blk ofs d)) = d"
  by (simp add: splice_def)

lemma splice_whole: "length d = length blk \<Longrightarrow> splice blk 0 d = d"
  by (simp add: splice_def)

lemma apply_writes_other:
  "b \<notin> set (concat (map written fxs)) \<Longrightarrow> apply_writes fxs dev b = dev b"
proof (induction fxs arbitrary: dev)
  case (Cons fx fxs)
  then have "apply_write fx dev b = dev b" by (cases fx) auto
  with Cons show ?case by (simp add: apply_writes_def)
qed (simp add: apply_writes_def)

lemma apply_writes_append: "apply_writes (fx @ fxs) dev = apply_writes fxs (apply_writes fx dev)"
  by (simp add: apply_writes_def)

lemma block_of_length: "(i + 1) * 4096 \<le> length buf \<Longrightarrow> length (block_of buf i) = 4096"
  by (simp add: block_of_def)

lemma concat_block_of: "n * 4096 \<le> length buf \<Longrightarrow> concat (map (block_of buf) [0..<n]) = take (n * 4096) buf"
proof (induction n)
  case (Suc n)
  then have "concat (map (block_of buf) [0..<Suc n]) = take (n * 4096) buf @ take 4096 (drop (n * 4096) buf)"
    by (simp add: block_of_def [of buf n])
  also have "\<dots> = take (n * 4096 + 4096) buf" by (rule take_add [symmetric])
  finally show ?case by (simp add: add.commute)
qed simp

abbreviation large_writes :: "nat \<Rightarrow> u8 list \<Rightarrow> nat \<Rightarrow> log_effect list" where
  "large_writes b buf n \<equiv> concat (map (\<lambda>i. [Write_Block (b + i) 0 (block_of buf i), Unset_Cache (b + i)]) [0..<n])"

lemma large_writes_store:
  assumes "dev_ok dev" and "n * 4096 \<le> length buf"
  shows "apply_writes (large_writes b buf n) dev =
    (\<lambda>c. if b \<le> c \<and> c < b + n then block_of buf (c - b) else dev c)"
  using assms(2)
proof (induction n)
  case (Suc n)
  have "apply_writes (large_writes b buf (Suc n)) dev =
      (apply_writes (large_writes b buf n) dev)(b + n := splice (apply_writes (large_writes b buf n) dev (b + n)) 0 (block_of buf n))"
    by (simp add: apply_writes_append) (simp add: apply_writes_def)
  moreover have "apply_writes (large_writes b buf n) dev (b + n) = dev (b + n)"
    using Suc by simp
  moreover have "splice (dev (b + n)) 0 (block_of buf n) = block_of buf n"
    using assms(1) Suc.prems block_of_length [of n buf] by (intro splice_whole) (simp add: dev_ok_def)
  ultimately show ?case using Suc by (auto simp: fun_eq_iff less_Suc_eq)
qed (auto simp: apply_writes_def fun_eq_iff)

text \<open>What one entry does: the blocks it writes and what they hold afterwards.\<close>

definition entry_done :: "nat \<Rightarrow> nat \<Rightarrow> nat \<Rightarrow> log_effect list \<Rightarrow> bool" where
  "entry_done blkno p p' fx \<longleftrightarrow> p \<le> p' \<and> concat (map written fx) = [blkno + p..<blkno + p'] \<and>
     (\<forall>dev. dev_ok dev \<longrightarrow> dev_ok (apply_writes fx dev))"

lemma persist_log_inode_ok:
  assumes "icache (le_inum e) = Some ip" and "dinode_ok ip" and "p < nr"
  shows "\<exists>fx. persist_log_inode icache blkno nr e p = Inr (e\<lparr>le_block := p\<rparr>, p + 1, fx) \<and>
    entry_done blkno p (p + 1) fx \<and>
    (\<forall>dev. dev_ok dev \<longrightarrow> take (length (iv_dinode ip)) (apply_writes fx dev (blkno + p)) = iv_dinode ip)"
  using assms take_splice [of 0 "iv_dinode ip"]
  by (auto simp: persist_log_inode_def entry_done_def dinode_ok_def dev_ok_def apply_writes_def)

lemma small_file_ok:
  assumes "icache (le_inum e) \<noteq> None" and "length buf < 4096" and "le_data e mod 4096 + length buf \<le> 4096"
  shows "\<exists>fx. persist_log_file icache blkno nr e buf p = Inr (e\<lparr>le_block := p\<rparr>, p + 1, fx) \<and>
    entry_done blkno p (p + 1) fx \<and>
    (\<forall>dev. dev_ok dev \<longrightarrow> file_stored (apply_writes fx dev) blkno (e\<lparr>le_block := p\<rparr>) buf)"
  using assms take_splice [of "le_data e mod 4096" buf]
  by (auto simp: persist_log_file_def Let_def entry_done_def dev_ok_def apply_writes_def file_stored_def)

lemma written_large: "concat (map written (large_writes b buf n)) = [b..<b + n]"
  by (induction n) simp_all

lemma large_file_ok:
  assumes "icache (le_inum e) \<noteq> None" and "\<not> length buf < 4096" and "le_data e mod 4096 = 0"
    and "length buf mod 4096 = 0" and "p + length buf div 4096 \<le> nr"
  shows "\<exists>fx. persist_log_file icache blkno nr e buf p = Inr (e\<lparr>le_block := p\<rparr>, p + length buf div 4096, fx) \<and>
    entry_done blkno p (p + length buf div 4096) fx \<and>
    (\<forall>dev. dev_ok dev \<longrightarrow> file_stored (apply_writes fx dev) blkno (e\<lparr>le_block := p\<rparr>) buf)"
proof -
  let ?n = "length buf div 4096" and ?b = "blkno + p"
  let ?fc = "concat (map (\<lambda>k. [Fcache_Del_All (le_inum e) (le_data e div 4096 + k),
    Fcache_Add (le_inum e) (le_data e div 4096 + k) (?b + k) 0 4096]) [0..<?n])"
  have all: "?n * 4096 = length buf" using assms(4) by auto
  have run: "persist_log_file icache blkno nr e buf p =
      Inr (e\<lparr>le_block := p\<rparr>, p + ?n, large_writes ?b buf ?n @ ?fc)"
    using assms by (auto simp: persist_log_file_def Let_def)
  have no: "concat (map written ?fc) = []" by (simp add: concat_eq_Nil_conv)
  have same: "apply_writes (large_writes ?b buf ?n @ ?fc) dev =
      (\<lambda>c. if ?b \<le> c \<and> c < ?b + ?n then block_of buf (c - ?b) else dev c)" if "dev_ok dev" for dev
  proof -
    have "apply_writes ?fc d = d" for d using no apply_writes_other [of _ ?fc d] by fastforce
    then show ?thesis using large_writes_store [OF that, of ?n buf ?b] all by (simp add: apply_writes_append)
  qed
  have "length (block_of buf i) = 4096" if "i < ?n" for i
  proof -
    have "(i + 1) * 4096 \<le> ?n * 4096" using that by (intro mult_right_mono) simp_all
    then show ?thesis using all by (intro block_of_length) simp
  qed
  then have "length (block_of buf (c - ?b)) = 4096" if "?b \<le> c" "c < ?b + ?n" for c
    using that by (simp add: less_diff_conv2)
  then have "dev_ok (apply_writes (large_writes ?b buf ?n @ ?fc) dev)" if "dev_ok dev" for dev
    using that by (simp add: same) (simp add: dev_ok_def)
  moreover have "concat (map written (large_writes ?b buf ?n @ ?fc)) = [?b..<blkno + (p + ?n)]"
    using no written_large [of ?b buf ?n] by (simp add: add.assoc)
  moreover have "file_stored (apply_writes (large_writes ?b buf ?n @ ?fc) dev) blkno (e\<lparr>le_block := p\<rparr>) buf"
    if "dev_ok dev" for dev
  proof -
    have "concat (map (\<lambda>i. apply_writes (large_writes ?b buf ?n @ ?fc) dev (?b + i)) [0..<?n]) =
        concat (map (block_of buf) [0..<?n])"
      by (intro arg_cong [where f = concat] map_cong) (simp_all add: same that)
    then show ?thesis using concat_block_of [of ?n buf] all assms(2) by (simp add: file_stored_def)
  qed
  ultimately show ?thesis using run by (auto simp: entry_done_def)
qed

lemma persist_log_file_ok:
  assumes "icache (le_inum e) \<noteq> None" and "io_ok (le_data e) (length buf)" and "p + io_blocks (length buf) \<le> nr"
  shows "\<exists>fx. persist_log_file icache blkno nr e buf p = Inr (e\<lparr>le_block := p\<rparr>, p + io_blocks (length buf), fx) \<and>
    entry_done blkno p (p + io_blocks (length buf)) fx \<and>
    (\<forall>dev. dev_ok dev \<longrightarrow> file_stored (apply_writes fx dev) blkno (e\<lparr>le_block := p\<rparr>) buf)"
  using small_file_ok [of icache e buf blkno nr p] large_file_ok [of icache e buf p nr blkno] assms
  by (cases "length buf < 4096") (simp_all add: io_ok_def io_blocks_def)

lemma entry_done_append:
  assumes "entry_done blkno p p1 fx" and "entry_done blkno p1 p2 fxs"
  shows "entry_done blkno p p2 (fx @ fxs)"
  using assms upt_add_eq_append [of "blkno + p" "blkno + p1" "p2 - p1"]
  by (auto simp: entry_done_def apply_writes_append)

lemma entry_done_keeps:
  assumes "entry_done blkno p1 p2 fxs" and "c < blkno + p1"
  shows "apply_writes fxs dev c = dev c"
  using assms by (intro apply_writes_other) (simp add: entry_done_def)

lemma file_stored_keeps:
  assumes "file_stored dev blkno e buf" and "\<And>c. c < blkno + le_block e + io_blocks (length buf) \<Longrightarrow> dev' c = dev c"
  shows "file_stored dev' blkno e buf"
proof -
  have "concat (map (\<lambda>i. dev' (blkno + le_block e + i)) [0..<length buf div 4096]) =
      concat (map (\<lambda>i. dev (blkno + le_block e + i)) [0..<length buf div 4096])" if "\<not> length buf < 4096"
    using that assms(2) by (intro arg_cong [where f = concat] map_cong) (simp_all add: io_blocks_def)
  then show ?thesis using assms unfolding file_stored_def by (simp add: io_blocks_def split: if_splits)
qed

text \<open>What the entries from a position on do.\<close>

definition entries_done :: "(nat \<Rightarrow> inode_view option) \<Rightarrow> nat \<Rightarrow> nat \<Rightarrow> log_entry list \<Rightarrow> u8 list list \<Rightarrow> nat \<Rightarrow> nat \<Rightarrow> bool" where
  "entries_done icache blkno nr es vec p n \<longleftrightarrow>
     (\<exists>es' p' fxs. persist_entries icache blkno nr es vec p = Inr (es', p', fxs) \<and> p' \<le> p + n \<and>
        entry_done blkno p p' fxs \<and> map (\<lambda>e. e\<lparr>le_block := 0\<rparr>) es' = map (\<lambda>e. e\<lparr>le_block := 0\<rparr>) es \<and>
        (\<forall>dev. dev_ok dev \<longrightarrow> tx_stored icache (apply_writes fxs dev) blkno es' vec))"

lemma entries_doneI:
  assumes "persist_entries icache blkno nr es vec p = Inr (es', p', fxs)" and "p' \<le> p + n"
    and "entry_done blkno p p' fxs" and "map (\<lambda>e. e\<lparr>le_block := 0\<rparr>) es' = map (\<lambda>e. e\<lparr>le_block := 0\<rparr>) es"
    and "\<And>dev. dev_ok dev \<Longrightarrow> tx_stored icache (apply_writes fxs dev) blkno es' vec"
  shows "entries_done icache blkno nr es vec p n"
  unfolding entries_done_def using assms by blast

lemma entries_done_inode:
  assumes "inode_type (le_type e)" and ip: "icache (le_inum e) = Some ip" "dinode_ok ip" and "p < nr"
    and "entries_done icache blkno nr es vec (p + 1) m"
  shows "entries_done icache blkno nr (e # es) vec p (m + 1)"
proof -
  obtain fx where fx: "persist_log_inode icache blkno nr e p = Inr (e\<lparr>le_block := p\<rparr>, p + 1, fx)"
      "entry_done blkno p (p + 1) fx"
      "\<forall>dev. dev_ok dev \<longrightarrow> take (length (iv_dinode ip)) (apply_writes fx dev (blkno + p)) = iv_dinode ip"
    using persist_log_inode_ok [of icache e ip p nr blkno] ip assms(4) by blast
  obtain es' p' fxs where IH: "persist_entries icache blkno nr es vec (p + 1) = Inr (es', p', fxs)" "p' \<le> p + 1 + m"
      "entry_done blkno (p + 1) p' fxs" "map (\<lambda>e. e\<lparr>le_block := 0\<rparr>) es' = map (\<lambda>e. e\<lparr>le_block := 0\<rparr>) es"
      "\<forall>dev. dev_ok dev \<longrightarrow> tx_stored icache (apply_writes fxs dev) blkno es' vec"
    using assms(5) unfolding entries_done_def by blast
  have "tx_stored icache (apply_writes (fx @ fxs) dev) blkno (e\<lparr>le_block := p\<rparr> # es') vec" if "dev_ok dev" for dev
    using that assms(1) ip fx(2,3) IH(5) entry_done_keeps [OF IH(3), of "blkno + p" "apply_writes fx dev"]
    by (simp add: apply_writes_append entry_done_def tx_stored.simps)
  moreover have "persist_entries icache blkno nr (e # es) vec p = Inr (e\<lparr>le_block := p\<rparr> # es', p', fx @ fxs)"
    using assms(1) fx(1) IH(1) by (simp add: persist_entries.simps)
  ultimately show ?thesis
    using IH(2,4) entry_done_append [OF fx(2) IH(3)]
    by (intro entries_doneI [of icache blkno nr _ _ _ "e\<lparr>le_block := p\<rparr> # es'" p' "fx @ fxs"]) simp_all
qed

lemma entries_done_file:
  assumes "\<not> inode_type (le_type e)" and "file_type (le_type e)" and "icache (le_inum e) \<noteq> None"
    and "io_ok (le_data e) (length buf)" and "p + io_blocks (length buf) \<le> nr"
    and "entries_done icache blkno nr es vec (p + io_blocks (length buf)) m"
  shows "entries_done icache blkno nr (e # es) (buf # vec) p (m + io_blocks (length buf))"
proof -
  let ?k = "io_blocks (length buf)"
  obtain fx where fx: "persist_log_file icache blkno nr e buf p = Inr (e\<lparr>le_block := p\<rparr>, p + ?k, fx)"
      "entry_done blkno p (p + ?k) fx"
      "\<forall>dev. dev_ok dev \<longrightarrow> file_stored (apply_writes fx dev) blkno (e\<lparr>le_block := p\<rparr>) buf"
    using persist_log_file_ok [of icache e buf p nr blkno] assms(3-5) by blast
  obtain es' p' fxs where IH: "persist_entries icache blkno nr es vec (p + ?k) = Inr (es', p', fxs)" "p' \<le> p + ?k + m"
      "entry_done blkno (p + ?k) p' fxs" "map (\<lambda>e. e\<lparr>le_block := 0\<rparr>) es' = map (\<lambda>e. e\<lparr>le_block := 0\<rparr>) es"
      "\<forall>dev. dev_ok dev \<longrightarrow> tx_stored icache (apply_writes fxs dev) blkno es' vec"
    using assms(6) unfolding entries_done_def by blast
  have "file_stored (apply_writes fxs (apply_writes fx dev)) blkno (e\<lparr>le_block := p\<rparr>) buf" if "dev_ok dev" for dev
  proof (rule file_stored_keeps)
    show "file_stored (apply_writes fx dev) blkno (e\<lparr>le_block := p\<rparr>) buf" using that fx(3) by blast
    show "apply_writes fxs (apply_writes fx dev) c = apply_writes fx dev c"
      if "c < blkno + le_block (e\<lparr>le_block := p\<rparr>) + ?k" for c
      using that by (intro entry_done_keeps [OF IH(3)]) simp
  qed
  then have "tx_stored icache (apply_writes (fx @ fxs) dev) blkno (e\<lparr>le_block := p\<rparr> # es') (buf # vec)"
    if "dev_ok dev" for dev
    using that assms(1,2) fx(2) IH(5) by (simp add: apply_writes_append entry_done_def tx_stored.simps)
  moreover have "persist_entries icache blkno nr (e # es) (buf # vec) p = Inr (e\<lparr>le_block := p\<rparr> # es', p', fx @ fxs)"
    using assms(1,2) fx(1) IH(1) by (simp add: persist_entries.simps)
  ultimately show ?thesis
    using IH(2,4) entry_done_append [OF fx(2) IH(3)]
    by (intro entries_doneI [of icache blkno nr _ _ _ "e\<lparr>le_block := p\<rparr> # es'" p' "fx @ fxs"]) simp_all
qed

lemma entries_done_alloc:
  assumes "\<not> inode_type (le_type e)" and "\<not> file_type (le_type e)" and "le_type e = 8"
    and "entries_done icache blkno nr es vec p m"
  shows "entries_done icache blkno nr (e # es) vec p (m + 1)"
proof -
  obtain es' p' fxs where IH: "persist_entries icache blkno nr es vec p = Inr (es', p', fxs)" "p' \<le> p + m"
      "entry_done blkno p p' fxs" "map (\<lambda>e. e\<lparr>le_block := 0\<rparr>) es' = map (\<lambda>e. e\<lparr>le_block := 0\<rparr>) es"
      "\<forall>dev. dev_ok dev \<longrightarrow> tx_stored icache (apply_writes fxs dev) blkno es' vec"
    using assms(4) unfolding entries_done_def by blast
  then show ?thesis
    using assms(1-3) by (intro entries_doneI [of icache blkno nr _ _ _ "e # es'" p' fxs])
      (simp_all add: persist_entries.simps tx_stored.simps)
qed

lemma persist_entries_ok:
  assumes "tx_ok icache es vec" and "count_log_blocks es vec = Inr n" and "p + n \<le> nr"
  shows "entries_done icache blkno nr es vec p n"
  using assms
proof (induction es arbitrary: vec n p)
  case Nil
  then show ?case by (simp add: entries_done_def entry_done_def apply_writes_def)
next
  case (Cons e es)
  consider (ino) "inode_type (le_type e)" | (fil) "\<not> inode_type (le_type e)" "file_type (le_type e)"
    | (all) "\<not> inode_type (le_type e)" "\<not> file_type (le_type e)" "le_type e = 8"
    using Cons.prems(1) by (metis tx_ok.simps(2))
  then show ?case
  proof cases
    case ino
    obtain ip where ip: "icache (le_inum e) = Some ip" "dinode_ok ip" and tx: "tx_ok icache es vec"
      using ino Cons.prems(1) by (auto split: option.splits)
    obtain m where m: "count_log_blocks es vec = Inr m" "n = m + 1"
      using ino Cons.prems(2) by (auto simp: bindF_Inr)
    have "entries_done icache blkno nr es vec (p + 1) m"
      by (rule Cons.IH [OF tx m(1)]) (use Cons.prems(3) m(2) in simp)
    then have "entries_done icache blkno nr (e # es) vec p (m + 1)"
      by (intro entries_done_inode [where icache = icache, OF ino ip]) (use Cons.prems(3) m(2) in simp_all)
    then show ?thesis using m(2) by simp
  next
    case fil
    obtain buf vec' where vec: "vec = buf # vec'" and tx: "io_ok (le_data e) (length buf)"
        "icache (le_inum e) \<noteq> None" "tx_ok icache es vec'"
      using fil Cons.prems(1) by (auto split: list.splits)
    have "le_type e \<noteq> 8" using fil by (auto simp: file_type_def)
    then obtain m where m: "count_log_blocks es vec' = Inr m" "n = m + io_blocks (length buf)"
      using fil Cons.prems(2) vec by (auto simp: bindF_Inr)
    have "entries_done icache blkno nr es vec' (p + io_blocks (length buf)) m"
      by (rule Cons.IH [OF tx(3) m(1)]) (use Cons.prems(3) m(2) in simp)
    then have "entries_done icache blkno nr (e # es) (buf # vec') p (m + io_blocks (length buf))"
      by (intro entries_done_file [where icache = icache, OF fil tx(2,1)]) (use Cons.prems(3) m(2) in simp_all)
    then show ?thesis using m(2) vec by simp
  next
    case all
    obtain m where m: "count_log_blocks es vec = Inr m" "n = m + 1"
      using all Cons.prems(2) by (auto simp: bindF_Inr)
    have tx: "tx_ok icache es vec" using all Cons.prems(1) by simp
    have "entries_done icache blkno nr es vec p m"
      by (rule Cons.IH [OF tx m(1)]) (use Cons.prems(3) m(2) in simp)
    then have "entries_done icache blkno nr (e # es) vec p (m + 1)"
      by (rule entries_done_alloc [OF all])
    then show ?thesis using m(2) by simp
  qed
qed

lemma tx_ok_count: "tx_ok icache es vec \<Longrightarrow> \<exists>n. count_log_blocks es vec = Inr n"
proof (induction es arbitrary: vec)
  case (Cons e es)
  show ?case
  proof (cases "inode_type (le_type e) \<or> le_type e = 8")
    case True
    have "\<not> file_type 8" by (simp add: file_type_def)
    then have "tx_ok icache es vec" using Cons.prems True by (metis tx_ok.simps(2))
    from Cons.IH [OF this] obtain n where "count_log_blocks es vec = Inr n" by blast
    then show ?thesis using True by simp
  next
    case False
    then have fil: "file_type (le_type e)" using Cons.prems by (metis tx_ok.simps(2))
    with False Cons.prems obtain buf vec' where vec: "vec = buf # vec'" "tx_ok icache es vec'"
      by (cases vec) simp_all
    from Cons.IH [OF vec(2)] obtain n where "count_log_blocks es vec' = Inr n" by blast
    then show ?thesis using vec(1) fil False by simp
  qed
qed simp

section \<open>Correctness of a commit\<close>

definition sample_inode :: inode_view where
  "sample_inode = \<lparr>iv_type = T_FILE, iv_dinode = replicate 256 7, iv_deleting = False\<rparr>"

definition sample_tx :: loghdr_meta where
  "sample_tx = \<lparr>hdr = Some \<lparr>entries = [\<lparr>le_type = L_TYPE_INODE_UPDATE, le_inum = 5, le_data = 0, le_length = 0, le_block = 0\<rparr>,
       \<lparr>le_type = L_TYPE_FILE, le_inum = 5, le_data = 4096, le_length = 8192, le_block = 0\<rparr>],
       nr_log_blocks = 0, inuse = 0\<rparr>,
     hdr_blkno = 0, pos = 0, io_vec = [replicate 8192 3], loghdr_ext = []\<rparr>"

text \<open>
  C27: for a transaction with well-formed entries the number of blocks that \<open>commit_log\<close>
  allocates is always enough: no assertion of the writing code fails, the blocks written are
  consecutive blocks behind the header inside the allocation, the header is written last,
  and afterwards the log holds for every entry exactly the inode or the bytes of its buffer
  at the block the header names.
\<close>

theorem commit_log_correct:
  assumes "hdr meta = Some lh" and "entries lh \<noteq> []" and "tx_ok icache (entries lh) (io_vec meta)"
    and "commit_log_blocks meta = Inr nr" and "nr < 2 ^ 16"
  shows "\<exists>meta' fxs lh'. commit_log_at icache nr blk meta = Inr (meta', fxs @ [Write_Header blk lh' (loghdr_ext meta)]) \<and>
    concat (map written fxs) = [blk + 1..<blk + pos meta'] \<and> pos meta' \<le> nr \<and>
    inuse lh' = LH_COMMIT_MAGIC \<and> nr_log_blocks lh' = nr \<and>
    map (\<lambda>e. e\<lparr>le_block := 0\<rparr>) (entries lh') = map (\<lambda>e. e\<lparr>le_block := 0\<rparr>) (entries lh) \<and>
    (\<forall>dev. dev_ok dev \<longrightarrow> tx_stored icache (apply_writes fxs dev) blk (entries lh') (io_vec meta))"
proof -
  obtain n where n: "count_log_blocks (entries lh) (io_vec meta) = Inr n" "nr = n + 1"
    using assms(1,2,4) by (auto simp: commit_log_blocks_def compute_log_blocks_def bindF_Inr deref_Inr split: if_splits)
  have "entries_done icache blk nr (entries lh) (io_vec meta) 1 n"
    by (rule persist_entries_ok [OF assms(3) n(1)]) (simp add: n(2))
  then obtain es' p' fxs where run: "persist_entries icache blk nr (entries lh) (io_vec meta) 1 = Inr (es', p', fxs)"
      "p' \<le> 1 + n" "entry_done blk 1 p' fxs" "map (\<lambda>e. e\<lparr>le_block := 0\<rparr>) es' = map (\<lambda>e. e\<lparr>le_block := 0\<rparr>) (entries lh)"
      "\<forall>dev. dev_ok dev \<longrightarrow> tx_stored icache (apply_writes fxs dev) blk es' (io_vec meta)"
    unfolding entries_done_def by blast
  let ?lh = "lh\<lparr>nr_log_blocks := nr, inuse := 0x1FB9, entries := es'\<rparr>"
  have "commit_log_at icache nr blk meta =
      Inr (meta\<lparr>hdr_blkno := blk, hdr := Some ?lh, pos := p'\<rparr>, fxs @ [Write_Header blk ?lh (loghdr_ext meta)])"
    using assms(1,5) run(1)
    by (simp add: commit_log_at_def persist_log_blocks_def persist_log_header_def Let_def)
  then show ?thesis using run(2-5) n(2) by (auto simp: entry_done_def)
qed

theorem commit_log_correct_witness:
  "\<exists>nr meta' fxs. commit_log_blocks sample_tx = Inr nr \<and>
     commit_log_at (\<lambda>_. Some sample_inode) nr 100 sample_tx = Inr (meta', fxs) \<and> pos meta' \<le> 4"
proof -
  let ?lh = "the (hdr sample_tx)"
  have "commit_log_blocks sample_tx = Inr 4"
    by (simp add: commit_log_blocks_def compute_log_blocks_def sample_tx_def inode_type_def file_type_def io_blocks_def)
  moreover have "hdr sample_tx = Some ?lh" "entries ?lh \<noteq> []"
    "tx_ok (\<lambda>_. Some sample_inode) (entries ?lh) (io_vec sample_tx)"
    by (simp_all add: sample_tx_def sample_inode_def inode_type_def file_type_def dinode_ok_def io_ok_def)
  ultimately show ?thesis
    using commit_log_correct [of sample_tx ?lh "\<lambda>_. Some sample_inode" 4 100] by auto
qed

end
