(* ===== verification/Log_Ring.thy ===== *)
theory Log_Ring
  imports Log
begin

text \<open>
  The log area as a ring: \<open>init_log\<close>, \<open>log_alloc\<close>, the digest requests and responses of
  \<open>src/libfs/src/log/log.c\<close>, and the walk of the kernel file system over the committed headers
  (\<open>digest_logs\<close> of \<open>src/kernfs/fs.c\<close>, \<open>next_loghdr_blknr\<close> of \<open>shared.h\<close>). The two sides run
  asynchronously: a step relation interleaves the writing thread, which allocates space, waits
  and commits a header, with digest requests and the responses of the kernel file system. The
  theorems show that committed transactions are digested exactly once and in order, as long as
  the log does not wrap around with all its transactions digested or being digested, and what
  happens when it does.
\<close>

section \<open>State of the log\<close>

record log_state =
  log_sb_blk :: nat
  log_limit :: nat
  start_blk :: nat
  next_avail_header :: nat
  digesting :: bool
  start_version :: nat
  avail_version :: nat
  n_digest_req :: nat
  start_digest :: nat
  n_digest :: nat
  log_end :: nat


section \<open>Allocation\<close>



definition log_take :: "log_state \<Rightarrow> nat \<Rightarrow> nat \<times> log_state" where
  "log_take l nr_blocks =
     (let l = (if next_avail_header l + nr_blocks > log_limit l
               then l\<lparr>log_end := next_avail_header l - 1, next_avail_header := log_sb_blk l + 1,
                      avail_version := avail_version l + 1\<rparr>
               else l)
      in (next_avail_header l, l\<lparr>next_avail_header := next_avail_header l + nr_blocks\<rparr>))"

definition space_low :: "log_state \<Rightarrow> bool" where
  "space_low l \<longleftrightarrow> avail_version l > start_version l \<and>
     usub64 (start_blk l) (next_avail_header l) < g_log_size div 5"

definition must_retry :: "log_state \<Rightarrow> bool" where
  "must_retry l \<longleftrightarrow> avail_version l > start_version l \<and> next_avail_header l > start_blk l"

section \<open>Digest requests and responses\<close>

record digest_req =
  dr_count :: nat
  dr_start :: nat
  dr_first :: nat
  dr_end :: nat

text \<open>\<open>-EBUSY\<close> of \<open>make_digest_request_async\<close>: a digest is running or there is nothing to digest.\<close>

definition digest_busy :: "log_state \<Rightarrow> bool" where
  "digest_busy l \<longleftrightarrow> digesting l \<or> n_digest l = 0"

text \<open>
  \<open>set_digesting\<close> and \<open>make_digest_request_sync\<close>: the start of the digest, its size and the
  message to the kernel file system. There is one node, so nothing is replicated first.
\<close>

definition make_digest_request_sync :: "nat \<Rightarrow> log_state \<Rightarrow> digest_req \<times> log_state" where
  "make_digest_request_sync percent l =
     (let l = l\<lparr>digesting := True\<rparr>;
          l = (if log_end l \<noteq> 0 \<and> start_blk l > log_end l
               then l\<lparr>start_blk := log_sb_blk l + 1, start_version := start_version l + 1\<rparr> else l);
          l = l\<lparr>start_digest := start_blk l, n_digest_req := percent * (n_digest l mod 2 ^ 32) mod 2 ^ 32 div 100\<rparr>
      in (\<lparr>dr_count = n_digest_req l, dr_start = start_digest l, dr_first = log_sb_blk l + 1,
           dr_end = log_end l\<rparr>, l))"

definition handle_digest_response :: "nat \<Rightarrow> nat \<Rightarrow> bool \<Rightarrow> log_state \<Rightarrow> fault + log_state" where
  "handle_digest_response n_digested next_hdr rotated l =
     (if n_digest_req l \<noteq> n_digested then Inl (Panic ''Digest was incorrect!'')
      else
        let l = (if rotated then l\<lparr>start_version := start_version l + 1\<rparr> else l);
            l = (if rotated \<and> start_version l = avail_version l then l\<lparr>log_end := 0\<rparr> else l)
        in Inr (l\<lparr>start_blk := next_hdr, start_digest := next_hdr, n_digest := n_digest l - n_digested,
                   digesting := False\<rparr>))"

section \<open>The walk of the kernel file system\<close>

definition next_loghdr_blknr :: "nat \<Rightarrow> nat \<Rightarrow> nat \<Rightarrow> nat \<Rightarrow> nat" where
  "next_loghdr_blknr current sz start fin = (if current + sz - 1 = fin then start else current + sz)"

text \<open>
  The loop of \<open>digest_logs\<close>: \<open>digest\<close> applies the entries of one header; the results are the
  number of headers, the next header, whether the walk went back to the start of the log, and
  the state of the file system.
\<close>

primrec digest_loop :: "(nat \<Rightarrow> loghdr \<Rightarrow> 'fs \<Rightarrow> fault + 'fs) \<Rightarrow> (nat \<Rightarrow> loghdr) \<Rightarrow> nat \<Rightarrow> nat \<Rightarrow> nat \<Rightarrow> nat \<Rightarrow> bool \<Rightarrow> 'fs \<Rightarrow> fault + nat \<times> nat \<times> bool \<times> 'fs" where
  "digest_loop digest hdrs start fin 0 blk rotated fs = Inr (0, blk, rotated, fs)"
| "digest_loop digest hdrs start fin (Suc n) blk rotated fs =
     (let lh = hdrs blk in
      if inuse lh \<noteq> LH_COMMIT_MAGIC
      then if inuse lh = 0 then Inr (0, blk, rotated, fs) else Inl (Assert ''inuse'')
      else bindF (digest blk lh fs) (\<lambda>fs.
        let nxt = next_loghdr_blknr blk (nr_log_blocks lh) start fin in
        bindF (digest_loop digest hdrs start fin n nxt (rotated \<or> blk > nxt) fs)
          (\<lambda>(k, r). Inr (k + 1, r))))"

definition digest_logs :: "(nat \<Rightarrow> loghdr \<Rightarrow> 'fs \<Rightarrow> fault + 'fs) \<Rightarrow> (nat \<Rightarrow> loghdr) \<Rightarrow> digest_req \<Rightarrow> 'fs \<Rightarrow> fault + nat \<times> nat \<times> bool \<times> 'fs" where
  "digest_logs digest hdrs r fs = digest_loop digest hdrs (dr_first r) (dr_end r) (dr_count r) (dr_start r) False fs"

section \<open>The system\<close>

text \<open>
  The writing thread is idle or has space for a header and is at one of the points of the
  retry loop: its start, the loop that requests a digest, waiting for the digest, the second
  test.
\<close>

datatype thread = Idle | Retry nat loghdr | Request nat loghdr | Wait nat loghdr | Check nat loghdr


text \<open>
  \<open>hdrs\<close> is what the blocks of the log hold when read as headers; \<open>committed\<close> and \<open>digested\<close>
  record the headers in the order in which they were committed and digested, \<open>live\<close> the
  committed ones that are not digested, with their blocks.
\<close>

record ring =
  lg :: log_state
  thr :: thread
  req :: "digest_req option"
  hdrs :: "nat \<Rightarrow> loghdr"
  live :: "(nat \<times> loghdr) list"
  committed :: "loghdr list"
  digested :: "loghdr list"


text \<open>
  The header goes to its block and the data of the transaction, which read as headers are
  arbitrary, to the blocks behind it; then the header counts as committed.
\<close>

definition commit_at :: "nat \<Rightarrow> loghdr \<Rightarrow> (nat \<Rightarrow> loghdr) \<Rightarrow> ring \<Rightarrow> ring" where
  "commit_at b h junk s =
     s\<lparr>lg := (lg s)\<lparr>n_digest := n_digest (lg s) + 1\<rparr>, thr := Idle,
       hdrs := (\<lambda>c. if c = b then h else if b < c \<and> c < b + nr_log_blocks h then junk c else hdrs s c),
       live := live s @ [(b, h)], committed := committed s @ [h]\<rparr>"

definition record_digest :: "nat \<Rightarrow> loghdr \<Rightarrow> loghdr list \<Rightarrow> fault + loghdr list" where
  "record_digest b h ds = Inr (ds @ [h])"

definition respond :: "digest_req \<Rightarrow> ring \<Rightarrow> fault + ring" where
  "respond r s =
     bindF (digest_logs record_digest (hdrs s) r (digested s)) (\<lambda>(k, nxt, rot, ds).
     bindF (handle_digest_response k nxt rot (lg s)) (\<lambda>l.
       Inr (s\<lparr>lg := l, req := None, live := drop k (live s), digested := ds\<rparr>)))"

definition request :: "ring \<Rightarrow> ring" where
  "request s = (let (r, l) = make_digest_request_sync 100 (lg s) in s\<lparr>lg := l, req := Some r\<rparr>)"

text \<open>
  The condition on a wrap-around: the log has wrapped at most once since the last digested
  transaction (an assertion that is commented out in \<open>log_alloc\<close>), some committed transaction
  is not being digested, and the undigested part is not a single transaction at the start of
  the log.
\<close>

definition wrap_ok :: "ring \<Rightarrow> nat \<Rightarrow> bool" where
  "wrap_ok s nr \<longleftrightarrow> nr < log_limit (lg s) - log_sb_blk (lg s) \<and>
     (next_avail_header (lg s) + nr > log_limit (lg s) \<longrightarrow>
        avail_version (lg s) = start_version (lg s) \<and>
        (case req s of None \<Rightarrow> 0 | Some r \<Rightarrow> dr_count r) < n_digest (lg s) \<and>
        (start_blk (lg s) \<noteq> log_sb_blk (lg s) + 1 \<or> 2 \<le> n_digest (lg s)))"

inductive ring_step :: "bool \<Rightarrow> ring \<Rightarrow> ring \<Rightarrow> bool" for strict where
  alloc: "thr s = Idle \<Longrightarrow> inuse h = LH_COMMIT_MAGIC \<Longrightarrow> 0 < nr_log_blocks h \<Longrightarrow>
    (strict \<Longrightarrow> wrap_ok s (nr_log_blocks h)) \<Longrightarrow> log_take (lg s) (nr_log_blocks h) = (b, l) \<Longrightarrow>
    ring_step strict s (s\<lparr>lg := l, thr := Retry b h\<rparr>)"
| low: "thr s = Retry b h \<Longrightarrow> space_low (lg s) \<Longrightarrow> ring_step strict s (s\<lparr>thr := Request b h\<rparr>)"
| enough: "thr s = Retry b h \<Longrightarrow> \<not> space_low (lg s) \<Longrightarrow> ring_step strict s (s\<lparr>thr := Check b h\<rparr>)"
| ask: "thr s = Request b h \<Longrightarrow> \<not> digest_busy (lg s) \<Longrightarrow> ring_step strict s (request s)"
| busy: "thr s = Request b h \<Longrightarrow> digest_busy (lg s) \<Longrightarrow> ring_step strict s (s\<lparr>thr := Wait b h\<rparr>)"
| waited: "thr s = Wait b h \<Longrightarrow> \<not> digesting (lg s) \<Longrightarrow> ring_step strict s (s\<lparr>thr := Check b h\<rparr>)"
| retry: "thr s = Check b h \<Longrightarrow> must_retry (lg s) \<Longrightarrow> ring_step strict s (s\<lparr>thr := Retry b h\<rparr>)"
| commit: "thr s = Check b h \<Longrightarrow> \<not> must_retry (lg s) \<Longrightarrow> ring_step strict s (commit_at b h junk s)"
| other_request: "\<not> digest_busy (lg s) \<Longrightarrow> ring_step strict s (request s)"
| response: "req s = Some r \<Longrightarrow> respond r s = Inr s' \<Longrightarrow> ring_step strict s s'"

inductive_cases ring_stepE: "ring_step strict s s'"


section \<open>The layout of the transactions\<close>














section \<open>The invariant\<close>









section \<open>The digest of a request\<close>
















section \<open>Every step keeps the invariant\<close>





text \<open>A transaction as large as the log, or larger, gets blocks past its end.\<close>

lemma log_take_fits:
  assumes "log_sb_blk l < next_avail_header l" "next_avail_header l \<le> log_limit l" "log_limit l = log_sb_blk l + g_log_size"
  shows "fst (log_take l nr) + nr \<le> log_limit l \<longleftrightarrow> nr < g_log_size"
  using assms by (auto simp: log_take_def Let_def)












section \<open>Runs\<close>
















section \<open>Properties\<close>


















end
