(* ===== verification/File_Write.thy ===== *)
theory File_Write
  imports Log
begin

text \<open>
  Writing to a file, from \<open>src/libfs/src/filesystem/file.c\<close>: \<open>mlfs_file_write\<close> cuts a write
  into an unaligned head, whole blocks and an unaligned tail and enters the pieces into the
  log; \<open>mlfs_file_fallocate\<close> is meant to extend a file with zeros. The theorems show that the
  pieces are exactly the data of the user and satisfy what the log requires of them, and that
  \<open>mlfs_file_fallocate\<close> does not return for an empty file.
\<close>

section \<open>The transaction of a write\<close>

record open_file =
  f_writable :: bool
  f_is_inode :: bool
  f_inum :: nat
  f_size :: nat

abbreviation (input) EPERM :: int where "EPERM \<equiv> 1"
abbreviation (input) max_io_size :: nat where "max_io_size \<equiv> 134217728"
abbreviation (input) ALLOC_IO_SIZE :: nat where "ALLOC_IO_SIZE \<equiv> 65536"

definition ALIGN_block :: "nat \<Rightarrow> nat" where
  "ALIGN_block x = uadd64 x (g_block_size_bytes - 1) div g_block_size_bytes * g_block_size_bytes"

text \<open>The sizes of the three parts: \<open>size_prepended\<close>, \<open>size_aligned\<close>, \<open>size_appended\<close>.\<close>

definition split_write :: "nat \<Rightarrow> nat \<Rightarrow> fault + nat \<times> nat \<times> nat" where
  "split_write offset n =
     (let offset_end = uadd64 offset n; offset_aligned = ALIGN_block offset in
      if offset_end < offset_aligned then Inr (n, 0, 0)
      else
        let size_prepended = (if offset < offset_aligned then offset_aligned - offset else 0) in
        if \<not> size_prepended < g_block_size_bytes then Inl (Assert ''size_prepended'')
        else
          let rest = usub64 (ALIGN_block offset_end) offset_end;
              size_appended = (if 0 < rest then g_block_size_bytes - rest else 0) in
          Inr (size_prepended, usub64 (usub64 n size_prepended) size_appended, size_appended))"

text \<open>
  The loop over the aligned part: \<open>i\<close> bytes are done of \<open>limit = n - size_appended\<close>. \<open>io_size\<close>
  is a 32-bit variable. \<open>add_to_log\<close> refuses an empty piece, so that \<open>r = 0\<close> does not occur.
\<close>

definition loop_io_size :: "nat \<Rightarrow> nat \<Rightarrow> nat" where
  "loop_io_size limit i = min ((limit - i) mod 2 ^ 32) max_io_size"

function aligned_loop :: "nat \<Rightarrow> nat \<Rightarrow> u8 list \<Rightarrow> nat \<Rightarrow> nat \<Rightarrow> nat \<Rightarrow> nat \<Rightarrow> loghdr_meta \<Rightarrow> fault + nat \<times> nat \<times> nat \<times> loghdr_meta" where
  "aligned_loop log_limit inum buf limit offset i fsize meta =
     (if \<not> i < limit then Inr (offset, i, fsize, meta)
      else if offset mod g_block_size_bytes \<noteq> 0 then Inl (Assert ''offset aligned'')
      else
        let io_size = loop_io_size limit i in
        case add_to_log log_limit inum fsize (take io_size (drop i buf)) offset L_TYPE_FILE meta of
          Inl e \<Rightarrow> Inl e
        | Inr (r, fsize, meta) \<Rightarrow>
            if r \<noteq> io_size \<or> r = 0 then Inl (Panic ''short filewrite'')
            else aligned_loop log_limit inum buf limit (offset + r) (i + r) fsize meta)"
  by pat_completeness auto
termination
  by (relation "measure (\<lambda>(_, _, _, limit, _, i, _, _). limit - i)") auto

text \<open>
  The part of \<open>mlfs_file_write\<close> between \<open>start_log_tx\<close> and \<open>commit_log_tx\<close>, for a write that
  does not start behind the end of the file. The results are \<open>i\<close>, the size of the file and the
  transaction.
\<close>

definition file_write_tx :: "nat \<Rightarrow> nat \<Rightarrow> nat \<Rightarrow> u8 list \<Rightarrow> nat \<Rightarrow> fault + nat \<times> nat \<times> loghdr_meta" where
  "file_write_tx log_limit inum fsize buf offset =
     (let n = length buf in
      bindF (split_write offset n) (\<lambda>(pre, al, app).
      bindF (if 0 < pre
             then bindF (add_to_log log_limit inum fsize (take pre buf) offset L_TYPE_FILE start_log_tx)
               (\<lambda>(r, fsize, meta). if 0 < r then Inr (offset + r, r, fsize, meta) else Inl (Assert ''r''))
             else Inr (offset, 0, fsize, start_log_tx)) (\<lambda>(offset, i, fsize, meta).
      bindF (aligned_loop log_limit inum buf (usub64 n app) offset i fsize meta) (\<lambda>(offset, i, fsize, meta).
      if 0 < app
      then bindF (add_to_log log_limit inum fsize (take app (drop i buf)) offset L_TYPE_FILE meta)
        (\<lambda>(r, fsize, meta). if 0 < r then Inr (i + r, fsize, meta) else Inl (Assert ''r''))
      else Inr (i, fsize, meta)))))"

section \<open>Sparse writes and fallocate\<close>

text \<open>
  \<open>mlfs_file_write\<close> and \<open>mlfs_file_fallocate\<close> call each other; the first argument bounds the
  depth of the calls, and \<open>Diverges\<close> is returned when it is exceeded. As in the code,
  \<open>mlfs_file_fallocate\<close> passes the offset where \<open>mlfs_file_write\<close> expects the number of bytes
  and the number of bytes where it expects the offset. A write of \<open>n\<close> bytes reads that many
  bytes from the buffer; a fault stands for reading behind its end. The results are the return value and the new size of the file.
\<close>

function (sequential) mlfs_file_write :: "nat \<Rightarrow> nat \<Rightarrow> open_file \<Rightarrow> u8 list \<Rightarrow> nat \<Rightarrow> nat \<Rightarrow> fault + int \<times> nat"
  and sparse_loop :: "nat \<Rightarrow> nat \<Rightarrow> open_file \<Rightarrow> nat \<Rightarrow> fault + nat"
  and mlfs_file_fallocate :: "nat \<Rightarrow> nat \<Rightarrow> open_file \<Rightarrow> nat \<Rightarrow> nat \<Rightarrow> fault + nat"
  and fallocate_loop :: "nat \<Rightarrow> nat \<Rightarrow> open_file \<Rightarrow> nat \<Rightarrow> nat \<Rightarrow> nat \<Rightarrow> fault + nat"
where
  "mlfs_file_write 0 lim f buf n offset = Inl Diverges"
| "mlfs_file_write (Suc k) lim f buf n offset =
     (if \<not> f_writable f then Inr (- EPERM, f_size f)
      else if \<not> f_is_inode f then Inl (Panic ''filewrite'')
      else case sparse_loop k lim f offset of
        Inl e \<Rightarrow> Inl e
      | Inr fsize \<Rightarrow>
          if length buf < n then Inl (Panic ''buffer overread'')
          else case file_write_tx lim (f_inum f) fsize (take n buf) offset of
            Inl e \<Rightarrow> Inl e
          | Inr (i, fsize, meta) \<Rightarrow> Inr (if i = n then int n else - 1, fsize))"
| "sparse_loop 0 lim f offset = Inl Diverges"
| "sparse_loop (Suc k) lim f offset =
     (if \<not> offset > f_size f then Inr (f_size f)
      else case mlfs_file_fallocate k lim f (f_size f) (offset - f_size f) of
        Inl e \<Rightarrow> Inl e
      | Inr fsize \<Rightarrow> sparse_loop k lim (f\<lparr>f_size := fsize\<rparr>) offset)"
| "mlfs_file_fallocate 0 lim f offset len = Inl Diverges"
| "mlfs_file_fallocate (Suc k) lim f offset len =
     (if offset > f_size f then Inl (Panic ''does not support sparse file'')
      else if offset + len > f_size f
      then fallocate_loop k lim f (f_size f) 0 (len - (f_size f - offset))
      else Inr (f_size f))"
| "fallocate_loop 0 lim f offset i len = Inl Diverges"
| "fallocate_loop (Suc k) lim f offset i len =
     (if \<not> i < len then Inr (f_size f)
      else case mlfs_file_write k lim f (replicate ALLOC_IO_SIZE 0) offset (min (len - i) ALLOC_IO_SIZE) of
        Inl e \<Rightarrow> Inl e
      | Inr (ret, fsize) \<Rightarrow>
          if ret < 0 then Inl (Panic ''fail to do fallocate'')
          else fallocate_loop k lim (f\<lparr>f_size := fsize\<rparr>) (offset + nat ret) (i + ALLOC_IO_SIZE) len)"
  by pat_completeness auto
termination by (relation "measure (\<lambda>x. case x of
    Inl (Inl (k, _)) \<Rightarrow> k | Inl (Inr (k, _)) \<Rightarrow> k | Inr (Inl (k, _)) \<Rightarrow> k | Inr (Inr (k, _)) \<Rightarrow> k)") auto

section \<open>Lemmas\<close>

declare aligned_loop.simps [simp del]

lemma ALIGN_block_small:
  assumes "x + 4095 < 2 ^ 64"
  shows "x \<le> ALIGN_block x" "ALIGN_block x < x + 4096" "ALIGN_block x mod 4096 = 0"
    "x mod 4096 = 0 \<Longrightarrow> ALIGN_block x = x" "x mod 4096 \<noteq> 0 \<Longrightarrow> ALIGN_block x = x - x mod 4096 + 4096"
proof -
  have a: "ALIGN_block x = (x + 4095) div 4096 * 4096" using assms by (simp add: ALIGN_block_def wrap_simps)
  define q r where "q = x div 4096" and "r = x mod 4096"
  have x: "x = q * 4096 + r" "r < 4096" by (simp_all add: q_def r_def)
  have "(x + 4095) div 4096 = (if r = 0 then q else q + 1)"
    using x by (intro div_nat_eqI) (auto split: if_splits)
  then have "ALIGN_block x = (if r = 0 then x else x - r + 4096)" using a x(1) by (auto split: if_splits)
  moreover have "x mod 4096 = r" "r \<le> x" using r_def x(1) by simp_all
  ultimately show "x \<le> ALIGN_block x" "ALIGN_block x < x + 4096"  "x mod 4096 = 0 \<Longrightarrow> ALIGN_block x = x"
    "x mod 4096 \<noteq> 0 \<Longrightarrow> ALIGN_block x = x - x mod 4096 + 4096"
    using x(2) by (simp_all split: if_splits)
  show "ALIGN_block x mod 4096 = 0" by (simp add: a)
qed

lemma split_write_ok:
  assumes "offset + n + 8192 < 2 ^ 64"
  shows "\<exists>pre al app. split_write offset n = Inr (pre, al, app) \<and> pre + al + app = n \<and>
    offset mod 4096 + pre \<le> 4096 \<and> pre < 4096 \<and> al mod 4096 = 0 \<and> app < 4096 \<and>
    (0 < al + app \<longrightarrow> (offset + pre) mod 4096 = 0)"
proof -
  have small: "offset + 4095 < 2 ^ 64" "offset + n + 4095 < 2 ^ 64" using assms by simp_all
  note A = ALIGN_block_small [OF small(1)] and E = ALIGN_block_small [OF small(2)]
  have fin: "uadd64 offset n = offset + n" using assms by (simp add: wrap_simps)
  show ?thesis
  proof (cases "offset + n < ALIGN_block offset")
    case True
    then have "offset mod 4096 \<noteq> 0" using A(4) by auto
    with True A(5) have "offset mod 4096 + n < 4096" using mod_less_eq_dividend [of offset 4096] by linarith
    with True show ?thesis by (simp add: split_write_def fin)
  next
    case False
    define pre where "pre = ALIGN_block offset - offset"
    define app where "app = (offset + n) mod 4096"
    have pre: "offset + pre = ALIGN_block offset" "pre < 4096" "pre \<le> n" using A(1,2) False by (simp_all add: pre_def)
    have head: "offset mod 4096 + pre \<le> 4096"
      using A(4,5) pre(1) mod_less_eq_dividend [of offset 4096] mod_less_divisor [of 4096 offset]
      by (cases "offset mod 4096 = 0") simp_all
    have app: "app < 4096" "app \<le> offset + n" by (simp_all add: app_def)
    obtain q where q: "ALIGN_block offset = q * 4096" using A(3) by (metis add.right_neutral div_mult_mod_eq)
    have fl: "offset + n - app = (offset + n) div 4096 * 4096" unfolding app_def by (rule minus_mod_eq_div_mult)
    have "q \<le> (offset + n) div 4096" using False q by (simp add: less_eq_div_iff_mult_less_eq)
    then have "q * 4096 \<le> (offset + n) div 4096 * 4096" by (rule mult_right_mono) simp
    then have up: "offset + pre + app \<le> offset + n" using pre(1) q fl app(2) by linarith
    have "usub64 (ALIGN_block (offset + n)) (offset + n) = (if app = 0 then 0 else 4096 - app)"
      using E(1,2,4,5) assms app(2) by (subst usub64_small) (auto simp: app_def)
    moreover have "usub64 (usub64 n pre) app = n - pre - app"
      using up pre(3) assms by (simp add: wrap_simps)
    ultimately have "split_write offset n = Inr (pre, n - pre - app, app)"
      using False pre(2) app(1) A(1) unfolding split_write_def fin Let_def
      by (auto simp: pre_def)
    moreover have "(n - pre - app) mod 4096 = 0"
    proof -
      have "n - pre - app = ((offset + n) div 4096 - q) * 4096"
        using fl up pre(1) q by (simp add: diff_mult_distrib)
      then show ?thesis by simp
    qed
    moreover have "(offset + pre) mod 4096 = 0" using pre(1) A(3) by simp
    ultimately show ?thesis using head pre(2) app(1) up by auto
  qed
qed

section \<open>Transactions as lists of pieces\<close>

definition piece_entry :: "nat \<Rightarrow> nat \<times> u8 list \<Rightarrow> log_entry" where
  "piece_entry inum p = \<lparr>le_type = L_TYPE_FILE, le_inum = inum, le_data = fst p, le_length = length (snd p), le_block = 0\<rparr>"

definition tx_of :: "nat \<Rightarrow> (nat \<times> u8 list) list \<Rightarrow> loghdr_meta" where
  "tx_of inum ps = start_log_tx
     \<lparr>hdr := if ps = [] then None else Some \<lparr>entries = map (piece_entry inum) ps, nr_log_blocks = 0, inuse = 0\<rparr>,
      io_vec := map snd ps\<rparr>"

lemma add_piece:
  assumes "length ps < 4" and "4 \<le> lim" and "buf \<noteq> []" and "off + length buf < 2 ^ 64"
  shows "add_to_log lim inum fsize buf off L_TYPE_FILE (tx_of inum ps) =
    Inr (length buf, max fsize (off + length buf), tx_of inum (ps @ [(off, buf)]))"
  using assms
  by (cases "ps = []")
    (auto simp: add_to_log_def add_to_loghdr_def tx_of_def start_log_tx_def empty_hdr_def add_ext_def data_type_def
      piece_entry_def wrap_simps Let_def max_def)

lemma aligned_loop_once:
  assumes "length ps < 4" and "4 \<le> lim" and "offset + (limit - i) < 2 ^ 64" and "i \<le> limit" and "limit - i \<le> 134217728"
    and "limit \<le> length buf" and "offset mod 4096 = 0 \<or> i = limit"
  shows "aligned_loop lim inum buf limit offset i fsize (tx_of inum ps) =
    (if i = limit then Inr (offset, i, fsize, tx_of inum ps)
     else Inr (offset + (limit - i), limit, max fsize (offset + (limit - i)),
       tx_of inum (ps @ [(offset, take (limit - i) (drop i buf))])))"
proof (cases "i = limit")
  case False
  let ?b = "take (limit - i) (drop i buf)"
  have len: "length ?b = limit - i" "?b \<noteq> []" using assms(4,6) False by auto
  have io: "loop_io_size limit i = limit - i" using assms(5) by (simp add: loop_io_size_def)
  have "add_to_log lim inum fsize ?b offset 6 (tx_of inum ps) =
      Inr (limit - i, max fsize (offset + (limit - i)), tx_of inum (ps @ [(offset, ?b)]))"
    using add_piece [OF assms(1,2) len(2), of offset inum fsize] len(1) assms(3) by simp
  then have "aligned_loop lim inum buf limit offset i fsize (tx_of inum ps) =
      aligned_loop lim inum buf limit (offset + (limit - i)) limit (max fsize (offset + (limit - i)))
        (tx_of inum (ps @ [(offset, ?b)]))"
    using False assms(4,7) by (subst aligned_loop.simps) (simp add: io Let_def)
  then show ?thesis using False by (simp add: aligned_loop.simps)
qed (simp add: aligned_loop.simps)

text \<open>The pieces of a write with its three parts.\<close>

definition pieces :: "nat \<Rightarrow> u8 list \<Rightarrow> nat \<Rightarrow> nat \<Rightarrow> nat \<Rightarrow> (nat \<times> u8 list) list" where
  "pieces offset buf pre al app =
     (if 0 < pre then [(offset, take pre buf)] else []) @
     (if 0 < al then [(offset + pre, take al (drop pre buf))] else []) @
     (if 0 < app then [(offset + pre + al, take app (drop (pre + al) buf))] else [])"

lemma max_chain: "a \<le> b \<Longrightarrow> max (max f a) b = max f b" for f a b :: nat
  by simp

lemma file_write_tx_pieces:
  assumes "split_write offset (length buf) = Inr (pre, al, app)" and sum: "pre + al + app = length buf"
    and "offset + length buf + 8192 < 2 ^ 64" and "length buf \<le> 134217728" and "4 \<le> lim"
    and "0 < al + app \<longrightarrow> (offset + pre) mod 4096 = 0"
  shows "file_write_tx lim inum fsize buf offset =
    Inr (length buf, if buf = [] then fsize else max fsize (offset + length buf), tx_of inum (pieces offset buf pre al app))"
proof -
  define P where "P = (if 0 < pre then [(offset, take pre buf)] else [])"
  define F where "F = (if 0 < pre then max fsize (offset + pre) else fsize)"
  define Q where "Q = P @ (if 0 < al then [(offset + pre, take al (drop pre buf))] else [])"
  define G where "G = (if 0 < al then max F (offset + pre + al) else F)"
  have start: "start_log_tx = tx_of inum []" by (simp add: tx_of_def start_log_tx_def)
  have pre: "add_to_log lim inum fsize (take pre buf) offset 6 (tx_of inum []) = Inr (pre, F, tx_of inum P)" if "0 < pre"
  proof -
    have "buf \<noteq> []" using that sum by auto
    then show ?thesis
      using that add_piece [of "[]" lim "take pre buf" offset inum fsize] sum assms(3,5) by (auto simp: F_def P_def)
  qed
  have lim: "usub64 (length buf) app = pre + al" using sum assms(4) by (simp add: wrap_simps)
  have "aligned_loop lim inum buf (pre + al) (offset + pre) pre F (tx_of inum P) =
      Inr (offset + pre + al, pre + al, G, tx_of inum Q)"
    using aligned_loop_once [of P lim "offset + pre" "pre + al" pre buf inum F] assms(3-6) sum
    by (auto simp: G_def Q_def P_def)
  moreover have "add_to_log lim inum G (take app (drop (pre + al) buf)) (offset + pre + al) 6 (tx_of inum Q) =
      Inr (app, max G (offset + length buf), tx_of inum (pieces offset buf pre al app))" if "0 < app"
  proof -
    have "length Q < 4" by (simp add: Q_def P_def)
    moreover have "Q @ [(offset + pre + al, take app (drop (pre + al) buf))] = pieces offset buf pre al app"
      using that by (simp add: Q_def P_def pieces_def)
    moreover have "length (take app (drop (pre + al) buf)) = app" using sum by simp
    moreover from this have "take app (drop (pre + al) buf) \<noteq> []" using that by auto
    ultimately show ?thesis
      using add_piece [of Q lim "take app (drop (pre + al) buf)" "offset + pre + al" inum G] assms(3,5) sum
      by (simp add: add.assoc)
  qed
  moreover have "Q = pieces offset buf pre al app" if "app = 0" using that by (simp add: Q_def P_def pieces_def)
  moreover have "(if 0 < app then max G (offset + length buf) else G) =
      (if buf = [] then fsize else max fsize (offset + length buf))"
  proof -
    have "buf = [] \<longleftrightarrow> pre = 0 \<and> al = 0 \<and> app = 0" using sum by auto
    then show ?thesis
      by (cases "pre = 0"; cases "al = 0"; cases "app = 0") (simp_all add: G_def F_def max_chain flip: sum)
  qed
  moreover have head: "(if 0 < pre
      then bindF (add_to_log lim inum fsize (take pre buf) offset 6 start_log_tx)
        (\<lambda>(r, fsize, meta). if 0 < r then Inr (offset + r, r, fsize, meta) else Inl (Assert ''r''))
      else Inr (offset, 0, fsize, start_log_tx)) = Inr (offset + pre, pre, F, tx_of inum P)"
    using pre by (cases "0 < pre") (simp_all add: start F_def P_def)
  moreover have "file_write_tx lim inum fsize buf offset =
      bindF (aligned_loop lim inum buf (pre + al) (offset + pre) pre F (tx_of inum P)) (\<lambda>(offset, i, fsize, meta).
        if 0 < app
        then bindF (add_to_log lim inum fsize (take app (drop i buf)) offset 6 meta)
          (\<lambda>(r, fsize, meta). if 0 < r then Inr (i + r, fsize, meta) else Inl (Assert ''r''))
        else Inr (i, fsize, meta))"
    unfolding file_write_tx_def Let_def assms(1) bindF.simps split_conv head lim ..
  ultimately show ?thesis
    using sum by (cases "0 < app") (simp_all only: bindF.simps split_conv if_True simp_thms, auto)
qed

lemma pieces_concat:
  assumes "pre + al + app = length buf"
  shows "concat (map snd (pieces offset buf pre al app)) = buf"
proof -
  have "take pre buf @ take al (drop pre buf) @ take app (drop (pre + al) buf) = take (pre + al + app) buf"
    by (simp add: take_add)
  then show ?thesis using assms by (auto simp: pieces_def)
qed

lemma pieces_offsets:
  assumes "pre + al + app = length buf" and "k < length (pieces offset buf pre al app)"
  shows "fst (pieces offset buf pre al app ! k) = offset + length (concat (take k (map snd (pieces offset buf pre al app))))"
  using assms by (auto simp: pieces_def nth_Cons less_Suc_eq split: nat.splits if_splits)

lemma piece_lengths:
  assumes "pre + al + app = length buf"
  shows "length (take pre buf) = pre" "length (take al (drop pre buf)) = al"
    "length (take app (drop (pre + al) buf)) = app"
  using assms by simp_all

lemma pieces_ok:
  assumes "pre + al + app = length buf" and "offset mod 4096 + pre \<le> 4096" and "pre < 4096" and "al mod 4096 = 0"
    and "app < 4096" and "0 < al + app \<longrightarrow> (offset + pre) mod 4096 = 0" and "p \<in> set (pieces offset buf pre al app)"
  shows "io_ok (fst p) (length (snd p))"
proof -
  have "(offset + pre + al) mod 4096 = 0" if "0 < al + app"
    using assms(4,6) that mod_add_eq [of "offset + pre" 4096 al] by auto
  moreover have "\<not> al < 4096" if "0 < al" using assms(4) that by auto
  ultimately show ?thesis
    using assms(2-7) piece_lengths [OF assms(1)]
    by (auto simp: pieces_def io_ok_def simp del: length_take length_drop split: if_splits)
qed

lemma tx_ok_pieces:
  assumes "icache inum \<noteq> None" and "\<And>p. p \<in> set ps \<Longrightarrow> io_ok (fst p) (length (snd p))"
  shows "tx_ok icache (map (piece_entry inum) ps) (map snd ps)"
  using assms(2) by (induction ps) (auto simp: assms(1) piece_entry_def inode_type_def file_type_def)

lemma count_pieces:
  "count_log_blocks (map (piece_entry inum) ps) (map snd ps) = Inr (sum_list (map (\<lambda>p. io_blocks (length (snd p))) ps))"
  by (induction ps) (simp_all add: piece_entry_def inode_type_def file_type_def)

lemma pieces_blocks:
  assumes "pre + al + app = length buf" and "pre < 4096" and "app < 4096"
  shows "sum_list (map (\<lambda>p. io_blocks (length (snd p))) (pieces offset buf pre al app)) \<le> length buf div 4096 + 3"
proof -
  have "al div 4096 \<le> length buf div 4096" using assms(1) by (simp add: div_le_mono)
  moreover have "io_blocks al \<le> al div 4096 + 1" by (simp add: io_blocks_def)
  ultimately show ?thesis
    using assms(2,3) piece_lengths [OF assms(1)]
    by (auto simp: pieces_def io_blocks_def simp del: length_take length_drop)
qed

section \<open>Correctness of a write\<close>

text \<open>
  C34: a write of up to 128 MiB that does not start behind the end of the file becomes one
  transaction whose buffers are together exactly the data of the user, at consecutive offsets
  from the requested one on; every piece satisfies what the log requires, so that the
  assertions of the log code hold; the file grows to the end of the write, and the
  transaction takes at most four blocks more than the data.
\<close>

theorem file_write_correct:
  assumes "buf \<noteq> []" and "length buf \<le> max_io_size" and "offset + length buf + 8192 < 2 ^ 64"
    and "4 \<le> log_limit" and "icache inum \<noteq> None"
  shows "\<exists>meta lh. file_write_tx log_limit inum fsize buf offset =
      Inr (length buf, max fsize (offset + length buf), meta) \<and> hdr meta = Some lh \<and> entries lh \<noteq> [] \<and>
    concat (io_vec meta) = buf \<and>
    (\<forall>k<length (entries lh). le_data (entries lh ! k) = offset + length (concat (take k (io_vec meta))) \<and>
       le_length (entries lh ! k) = length (io_vec meta ! k)) \<and>
    tx_ok icache (entries lh) (io_vec meta) \<and>
    (\<exists>nr. commit_log_blocks meta = Inr nr \<and> nr \<le> length buf div g_block_size_bytes + 4)"
proof -
  obtain pre al app where split: "split_write offset (length buf) = Inr (pre, al, app)" "pre + al + app = length buf"
      "offset mod 4096 + pre \<le> 4096" "pre < 4096" "al mod 4096 = 0" "app < 4096"
      "0 < al + app \<longrightarrow> (offset + pre) mod 4096 = 0"
    using split_write_ok [OF assms(3)] by auto
  define ps where "ps = pieces offset buf pre al app"
  have ne: "ps \<noteq> []" using assms(1) split(2) pieces_concat [OF split(2), of offset] by (auto simp: ps_def)
  have run: "file_write_tx log_limit inum fsize buf offset = Inr (length buf, max fsize (offset + length buf), tx_of inum ps)"
    using file_write_tx_pieces [OF split(1,2) assms(3,2,4) split(7)] assms(1) by (simp add: ps_def)
  have "\<forall>k<length ps. fst (ps ! k) = offset + length (concat (take k (map snd ps)))"
    using pieces_offsets [OF split(2)] by (simp add: ps_def)
  moreover have "tx_ok icache (map (piece_entry inum) ps) (map snd ps)"
    using pieces_ok [OF split(2-7)] by (intro tx_ok_pieces) (simp_all add: ps_def assms(5))
  moreover have "sum_list (map (\<lambda>p. io_blocks (length (snd p))) ps) \<le> length buf div 4096 + 3"
    using pieces_blocks [OF split(2,4,6)] by (simp add: ps_def)
  then have "\<exists>nr. commit_log_blocks (tx_of inum ps) = Inr nr \<and> nr \<le> length buf div 4096 + 4"
    using ne by (simp add: commit_log_blocks_def compute_log_blocks_def tx_of_def count_pieces)
  ultimately show ?thesis
    using run ne pieces_concat [OF split(2), of offset]
    by (intro exI [of _ "tx_of inum ps"] exI [of _ "the (hdr (tx_of inum ps))"])
      (simp add: tx_of_def piece_entry_def ps_def)
qed

theorem file_write_correct_witness:
  "\<exists>meta lh. file_write_tx g_log_size 5 100 (replicate 10000 7) 100 = Inr (10000, 10100, meta) \<and> hdr meta = Some lh \<and>
     concat (io_vec meta) = replicate 10000 7"
  using file_write_correct [of "replicate 10000 7" 100 g_log_size "\<lambda>_. Some sample_inode" 5 100] by auto

text \<open>
  C35: extending an empty file with \<open>mlfs_file_fallocate\<close>, or writing to it behind its end,
  never returns: whatever depth of calls is allowed, it is exceeded. The call of
  \<open>mlfs_file_write\<close> has its length and offset exchanged, so that nothing is ever written.
\<close>

theorem fallocate_empty_diverges:
  assumes "f_writable f" and "f_is_inode f" and "f_size f = 0" and "0 < len"
  shows "mlfs_file_fallocate k lim f 0 len = Inl Diverges \<and> mlfs_file_write k lim f buf n len = Inl Diverges"
proof -
  have fall: "mlfs_file_fallocate k lim f 0 len = Inl Diverges" if "0 < len" for k len
    using that
  proof (induction k arbitrary: len rule: less_induct)
    case (less k)
    have sparse: "sparse_loop j lim f (min len 65536) = Inl Diverges" if "j < k" for j
      using that less assms(3) by (cases j) simp_all
    have wr: "mlfs_file_write j lim f b 0 (min len 65536) = Inl Diverges" if "j < k" for j b
      using that sparse assms by (cases j) simp_all
    have "fallocate_loop j lim f 0 0 len = Inl Diverges" if "j < k" for j
      using that wr less.prems by (cases j) simp_all
    then show ?case using less.prems assms(3) by (cases k) simp_all
  qed
  have "sparse_loop j lim f len = Inl Diverges" for j
    using fall [OF assms(4)] assms(3,4) by (cases j) simp_all
  then have "mlfs_file_write k lim f buf n len = Inl Diverges" using assms by (cases k) simp_all
  with fall [OF assms(4)] show ?thesis by blast
qed

theorem fallocate_empty_diverges_witness:
  "mlfs_file_fallocate 1000 g_log_size \<lparr>f_writable = True, f_is_inode = True, f_inum = 3, f_size = 0\<rparr> 0 4096 = Inl Diverges"
  using fallocate_empty_diverges [of "\<lparr>f_writable = True, f_is_inode = True, f_inum = 3, f_size = 0\<rparr>" 4096 1000] by simp

end
