(* ===== verification/Buffer_Cache.thy ===== *)
theory Buffer_Cache
  imports Rbtree
begin

text \<open>
  The cache of device blocks that the kernel file system uses for the nodes of the extent
  trees: \<open>__getblk\<close>, \<open>brelse\<close>, the lists of free and of dirty buffers and
  \<open>sync_all_buffers\<close> of \<open>src/libfs/src/io/block_io.c\<close>, and \<open>fs_bread\<close>, \<open>fs_get_bh\<close> and
  \<open>fs_mark_buffer_dirty\<close> of \<open>src/kernfs/extents_bh.c\<close>. There is one buffer for a block, so a
  buffer is named by its block number. The theorem is a refinement: seen through the cache the
  device is a plain array of blocks, whatever is dropped or written back when.
\<close>

section \<open>Search and order\<close>

definition blocknr_ok :: "nat \<Rightarrow> bool" where
  "blocknr_ok b \<longleftrightarrow> b < 2 ^ 63"

definition sdiff64 :: "nat \<Rightarrow> nat \<Rightarrow> int" where
  "sdiff64 a b = (let d = usub64 a b in if d < 2 ^ 63 then int d else int d - 2 ^ 64)"

definition buffer_blocknr_cmp :: "nat \<Rightarrow> nat \<Rightarrow> int" where
  "buffer_blocknr_cmp a b = (if sdiff64 a b < 0 then -1 else if sdiff64 a b > 0 then 1 else 0)"

primrec buffer_search :: "nat \<Rightarrow> nat rb_tree \<Rightarrow> nat option" where
  "buffer_search blocknr Leaf = None"
| "buffer_search blocknr (Node c l b r) =
     (let result = sdiff64 blocknr b in
      if result < 0 then buffer_search blocknr l
      else if result > 0 then buffer_search blocknr r
      else Some b)"

section \<open>State\<close>

record 'd buffer =
  b_count :: int
  b_uptodate :: bool
  b_dirty :: bool
  b_data :: 'd

record 'd bdev =
  bd_bh_root :: "nat rb_tree"
  bufs :: "nat \<rightharpoonup> 'd buffer"
  bd_bh_free :: "nat list"
  bd_nr_free :: int
  bd_bh_dirty :: "nat list"
  buffer_dirty_count :: int
  disk :: "nat \<Rightarrow> 'd"

definition set_buf :: "nat \<Rightarrow> 'd buffer \<Rightarrow> 'd bdev \<Rightarrow> 'd bdev" where
  "set_buf b bh s = s\<lparr>bufs := (bufs s)(b \<mapsto> bh)\<rparr>"

definition bdev_alloc :: "(nat \<Rightarrow> 'd) \<Rightarrow> 'd bdev" where
  "bdev_alloc d = \<lparr>bd_bh_root = Leaf, bufs = Map.empty, bd_bh_free = [], bd_nr_free = 0, bd_bh_dirty = [],
     buffer_dirty_count = 0, disk = d\<rparr>"

section \<open>Free list\<close>

abbreviation (input) buffer_free_threshold :: int where "buffer_free_threshold \<equiv> 90000"

definition attach_bh_to_freelist :: "nat \<Rightarrow> 'd bdev \<Rightarrow> 'd bdev" where
  "attach_bh_to_freelist b s =
     (if b \<in> set (bd_bh_free s) then s else s\<lparr>bd_bh_free := bd_bh_free s @ [b], bd_nr_free := bd_nr_free s + 1\<rparr>)"

definition detach_bh_from_freelist :: "nat \<Rightarrow> 'd bdev \<Rightarrow> 'd bdev" where
  "detach_bh_from_freelist b s =
     (if b \<in> set (bd_bh_free s) then s\<lparr>bd_bh_free := remove1 b (bd_bh_free s), bd_nr_free := bd_nr_free s - 1\<rparr> else s)"

definition buffer_remove :: "nat \<Rightarrow> 'd bdev \<Rightarrow> fault + 'd bdev" where
  "buffer_remove b s =
     (case rb_erase b (bd_bh_root s) of
        None \<Rightarrow> Inl NullDeref
      | Some t \<Rightarrow> Inr (s\<lparr>bd_bh_root := t, bufs := (bufs s)(b := None)\<rparr>))"

definition remove_first_bh_from_freelist :: "'d bdev \<Rightarrow> fault + 'd bdev" where
  "remove_first_bh_from_freelist s =
     (case bd_bh_free s of
        [] \<Rightarrow> Inr s
      | b # bs \<Rightarrow> buffer_remove b (s\<lparr>bd_bh_free := bs, bd_nr_free := bd_nr_free s - 1\<rparr>))"

text \<open>The loop takes one buffer off the free list in every round; on an empty list it would not end.\<close>

primrec drop_loop :: "nat list \<Rightarrow> 'd bdev \<Rightarrow> fault + 'd bdev" where
  "drop_loop [] s = (if bd_nr_free s > buffer_free_threshold then Inl Diverges else Inr s)"
| "drop_loop (b # bs) s =
     (if bd_nr_free s > buffer_free_threshold then bindF (remove_first_bh_from_freelist s) (drop_loop bs) else Inr s)"

definition try_to_drop_buffers :: "'d bdev \<Rightarrow> fault + 'd bdev" where
  "try_to_drop_buffers s = drop_loop (bd_bh_free s) s"

definition reclaim_buffer :: "nat \<Rightarrow> 'd bdev \<Rightarrow> fault + 'd bdev" where
  "reclaim_buffer b s = bindF (try_to_drop_buffers s) (\<lambda>s. Inr (attach_bh_to_freelist b s))"

section \<open>Dirty list\<close>

definition move_buffer_to_writeback :: "nat \<Rightarrow> 'd bdev \<Rightarrow> 'd bdev" where
  "move_buffer_to_writeback b s =
     (if b \<in> set (bd_bh_dirty s) then s
      else s\<lparr>bd_bh_dirty := bd_bh_dirty s @ [b], buffer_dirty_count := buffer_dirty_count s + 1\<rparr>)"

text \<open>
  \<open>locked\<close> tells which buffers another thread has locked. The result is 0 when the buffer is
  no longer dirty. The size of a buffer of the cache is the block size and its offset 0, so
  \<open>mlfs_write\<close> writes the whole block.
\<close>

definition sync_dirty_buffer :: "(nat \<Rightarrow> bool) \<Rightarrow> nat \<Rightarrow> 'd bdev \<Rightarrow> fault + int \<times> 'd bdev" where
  "sync_dirty_buffer locked b s =
     bindF (deref (bufs s b)) (\<lambda>bh.
       if locked b then Inr (1, s)
       else if b_dirty bh
       then let s = s\<lparr>disk := (disk s)(b := b_data bh)\<rparr>; bh = bh\<lparr>b_uptodate := True\<rparr> in
            if b_count bh = 0
            then Inr (0, attach_bh_to_freelist b (set_buf b (bh\<lparr>b_dirty := False\<rparr>) s))
            else Inr (1, set_buf b bh s)
       else Inr (0, s))"

primrec sync_loop :: "(nat \<Rightarrow> bool) \<Rightarrow> nat list \<Rightarrow> 'd bdev \<Rightarrow> fault + 'd bdev" where
  "sync_loop locked [] s = Inr s"
| "sync_loop locked (b # bs) s =
     bindF (sync_dirty_buffer locked b s) (\<lambda>(ret, s).
       sync_loop locked bs
         (if ret = 0 then s\<lparr>bd_bh_dirty := remove1 b (bd_bh_dirty s), buffer_dirty_count := buffer_dirty_count s - 1\<rparr> else s))"

definition sync_all_buffers :: "(nat \<Rightarrow> bool) \<Rightarrow> 'd bdev \<Rightarrow> fault + 'd bdev" where
  "sync_all_buffers locked s = sync_loop locked (bd_bh_dirty s) s"

section \<open>Getting and releasing buffers\<close>

text \<open>
  A new buffer has arbitrary contents (\<open>junk\<close>). The result of the insertion is not looked at.
\<close>

definition getblk :: "'d \<Rightarrow> nat \<Rightarrow> 'd bdev \<Rightarrow> fault + 'd bdev" where
  "getblk junk b s =
     (case buffer_search b (bd_bh_root s) of
        Some b \<Rightarrow> bindF (deref (bufs s b)) (\<lambda>bh.
          Inr (set_buf b (bh\<lparr>b_count := b_count bh + 1\<rparr>) (detach_bh_from_freelist b s)))
      | None \<Rightarrow>
          let new = \<lparr>b_count = 1, b_uptodate = False, b_dirty = False, b_data = junk\<rparr> in
          (case rb_insert buffer_blocknr_cmp (bd_bh_root s) b of
             None \<Rightarrow> Inl NullDeref
           | Some (Inl e) \<Rightarrow> Inr (set_buf b new s)
           | Some (Inr t) \<Rightarrow> Inr (set_buf b new (s\<lparr>bd_bh_root := t\<rparr>))))"

definition fs_bread :: "'d \<Rightarrow> nat \<Rightarrow> 'd bdev \<Rightarrow> fault + 'd bdev" where
  "fs_bread junk b s =
     bindF (getblk junk b s) (\<lambda>s. bindF (deref (bufs s b)) (\<lambda>bh.
       if b_uptodate bh then Inr s
       else Inr (set_buf b (bh\<lparr>b_data := disk s b, b_uptodate := True\<rparr>) s)))"

definition fs_get_bh :: "'d \<Rightarrow> nat \<Rightarrow> 'd bdev \<Rightarrow> fault + 'd bdev" where
  "fs_get_bh junk b s = getblk junk b s"

definition brelse :: "nat \<Rightarrow> 'd bdev \<Rightarrow> fault + 'd bdev" where
  "brelse b s =
     bindF (deref (bufs s b)) (\<lambda>bh.
       let refcount = b_count bh - 1; s = set_buf b (bh\<lparr>b_count := refcount\<rparr>) s in
       if refcount \<ge> 1 then Inr s
       else if refcount \<noteq> 0 then Inl (Assert ''refcount == 0'')
       else if \<not> b_dirty bh then reclaim_buffer b s
       else Inr (move_buffer_to_writeback b s))"

text \<open>
  The two ways in which the holder of a buffer changes it: new tree nodes are filled, set up
  to date and handed to \<open>mlfs_handle_dirty_metadata\<close>, changed ones to \<open>fs_mark_buffer_dirty\<close>.
\<close>

definition fill_and_dirty :: "'d \<Rightarrow> nat \<Rightarrow> 'd bdev \<Rightarrow> fault + 'd bdev" where
  "fill_and_dirty d b s =
     bindF (deref (bufs s b)) (\<lambda>bh. Inr (set_buf b (bh\<lparr>b_data := d, b_uptodate := True, b_dirty := True\<rparr>) s))"

definition change_and_mark :: "'d \<Rightarrow> nat \<Rightarrow> 'd bdev \<Rightarrow> fault + 'd bdev" where
  "change_and_mark d b s =
     bindF (deref (bufs s b)) (\<lambda>bh.
       Inr (set_buf b (bh\<lparr>b_data := d, b_uptodate := True, b_dirty := True\<rparr>) (move_buffer_to_writeback b s)))"

section \<open>Operations\<close>

datatype 'd bh_op = Bread 'd nat | Get_Bh 'd nat | Fill 'd nat | Change 'd nat | Release nat | Sync "nat \<Rightarrow> bool"

primrec exec :: "'d bh_op \<Rightarrow> 'd bdev \<Rightarrow> fault + 'd bdev" where
  "exec (Bread junk b) s = fs_bread junk b s"
| "exec (Get_Bh junk b) s = fs_get_bh junk b s"
| "exec (Fill d b) s = fill_and_dirty d b s"
| "exec (Change d b) s = change_and_mark d b s"
| "exec (Release b) s = brelse b s"
| "exec (Sync locked) s = sync_all_buffers locked s"

text \<open>A buffer is changed and released only by a holder; block numbers are below \<open>2 ^ 63\<close>.\<close>

definition held :: "nat \<Rightarrow> 'd bdev \<Rightarrow> bool" where
  "held b s \<longleftrightarrow> (case bufs s b of None \<Rightarrow> False | Some bh \<Rightarrow> b_count bh > 0)"

primrec allowed :: "'d bh_op \<Rightarrow> 'd bdev \<Rightarrow> bool" where
  "allowed (Bread junk b) s = blocknr_ok b"
| "allowed (Get_Bh junk b) s = blocknr_ok b"
| "allowed (Fill d b) s = held b s"
| "allowed (Change d b) s = held b s"
| "allowed (Release b) s = held b s"
| "allowed (Sync locked) s = True"

primrec exec_all :: "'d bh_op list \<Rightarrow> 'd bdev \<Rightarrow> fault + 'd bdev" where
  "exec_all [] s = Inr s"
| "exec_all (x # xs) s = bindF (exec x s) (exec_all xs)"

primrec allowed_all :: "'d bh_op list \<Rightarrow> 'd bdev \<Rightarrow> bool" where
  "allowed_all [] s = True"
| "allowed_all (x # xs) s = (allowed x s \<and> (case exec x s of Inl e \<Rightarrow> True | Inr s' \<Rightarrow> allowed_all xs s'))"

text \<open>The contents of a block as the users of the cache see it, and what the operations do to an array of blocks.\<close>

definition view_of :: "(nat \<rightharpoonup> 'd buffer) \<Rightarrow> (nat \<Rightarrow> 'd) \<Rightarrow> nat \<Rightarrow> 'd" where
  "view_of m d b = (case m b of None \<Rightarrow> d b | Some bh \<Rightarrow> if b_uptodate bh then b_data bh else d b)"

definition view :: "'d bdev \<Rightarrow> nat \<Rightarrow> 'd" where
  "view s = view_of (bufs s) (disk s)"

primrec spec :: "'d bh_op \<Rightarrow> (nat \<Rightarrow> 'd) \<Rightarrow> nat \<Rightarrow> 'd" where
  "spec (Bread junk b) v = v"
| "spec (Get_Bh junk b) v = v"
| "spec (Fill d b) v = v(b := d)"
| "spec (Change d b) v = v(b := d)"
| "spec (Release b) v = v"
| "spec (Sync locked) v = v"

section \<open>Order of the block numbers\<close>

lemma sdiff64_eq:
  assumes "blocknr_ok a" "blocknr_ok b"
  shows "sdiff64 a b = int a - int b"
proof (cases "b \<le> a")
  case True
  then show ?thesis using assms usub64_small [OF True] by (simp add: sdiff64_def Let_def blocknr_ok_def)
next
  case False
  then show ?thesis using assms usub64_wrap [of a b] blocknr_ok_def by (simp add: sdiff64_def Let_def blocknr_ok_def)
qed

lemma buffer_cmp:
  assumes "blocknr_ok a" "blocknr_ok b"
  shows "buffer_blocknr_cmp a b < 0 \<longleftrightarrow> a < b" "buffer_blocknr_cmp a b > 0 \<longleftrightarrow> b < a" "buffer_blocknr_cmp a b = 0 \<longleftrightarrow> a = b"
  using assms by (auto simp: buffer_blocknr_cmp_def sdiff64_eq)

interpretation blk: comparator buffer_blocknr_cmp blocknr_ok
  by unfold_locales (auto simp: buffer_cmp)

abbreviation tree_ok :: "nat rb_tree \<Rightarrow> bool" where
  "tree_ok \<equiv> ordered_by buffer_blocknr_cmp blocknr_ok"

lemma buffer_search_ok:
  "tree_ok t \<Longrightarrow> blocknr_ok b \<Longrightarrow> buffer_search b t = (if b \<in> set (inorder t) then Some b else None)"
proof (induction t)
  case (Node c l y r)
  have valid: "\<forall>z\<in>set (inorder l) \<union> set (inorder r). blocknr_ok z" using Node.prems(1) by (auto simp: ordered_by_def)
  have y: "blocknr_ok y" "tree_ok l" "tree_ok r" using Node.prems(1) by (auto simp: blk.ordered_Node)
  have "\<forall>z\<in>set (inorder l). z < y" "\<forall>z\<in>set (inorder r). y < z"
    using Node.prems(1) valid y(1) by (auto simp: blk.ordered_Node buffer_cmp)
  then show ?case using Node.IH y Node.prems(2) by (auto simp: sdiff64_eq Let_def)
qed simp

section \<open>Invariant\<close>

definition buf_ok :: "'d bdev \<Rightarrow> nat \<Rightarrow> 'd buffer \<Rightarrow> bool" where
  "buf_ok s b bh \<longleftrightarrow> b_count bh \<ge> 0 \<and> (b_dirty bh \<longrightarrow> b_uptodate bh) \<and>
     (b_uptodate bh \<and> \<not> b_dirty bh \<longrightarrow> b_data bh = disk s b) \<and>
     (b \<in> set (bd_bh_free s) \<longleftrightarrow> b_count bh = 0 \<and> \<not> b_dirty bh) \<and>
     (b \<in> set (bd_bh_dirty s) \<longrightarrow> b_dirty bh) \<and> (b_dirty bh \<and> b_count bh = 0 \<longrightarrow> b \<in> set (bd_bh_dirty s))"

definition lists_ok :: "'d bdev \<Rightarrow> bool" where
  "lists_ok s \<longleftrightarrow> distinct (bd_bh_free s) \<and> distinct (bd_bh_dirty s) \<and>
     set (bd_bh_free s) \<subseteq> dom (bufs s) \<and> set (bd_bh_dirty s) \<subseteq> dom (bufs s) \<and>
     bd_nr_free s = int (length (bd_bh_free s)) \<and> buffer_dirty_count s = int (length (bd_bh_dirty s))"

definition cache_ok :: "'d bdev \<Rightarrow> bool" where
  "cache_ok s \<longleftrightarrow> rb_ok (bd_bh_root s) \<and> tree_ok (bd_bh_root s) \<and> set (inorder (bd_bh_root s)) = dom (bufs s) \<and>
     lists_ok s \<and> (\<forall>b bh. bufs s b = Some bh \<longrightarrow> buf_ok s b bh)"

lemma int_length_remove1: "x \<in> set xs \<Longrightarrow> int (length (remove1 x xs)) = int (length xs) - 1"
  by (induction xs) auto

lemma view_of_upd [simp]:
  "view_of (m(b \<mapsto> bh)) d = (view_of m d)(b := if b_uptodate bh then b_data bh else d b)"
  "view_of (m(b := None)) d = (view_of m d)(b := d b)"
  by (auto simp: view_of_def fun_eq_iff)

lemma view_of_get: "m b = Some bh \<Longrightarrow> view_of m d b = (if b_uptodate bh then b_data bh else d b)" "m b = None \<Longrightarrow> view_of m d b = d b"
  by (auto simp: view_of_def)

lemma bdev_alloc_ok: "cache_ok (bdev_alloc d)" "view (bdev_alloc d) = d"
  by (auto simp: cache_ok_def bdev_alloc_def lists_ok_def view_def view_of_def rb_ok_def)

lemma cache_okD:
  assumes "cache_ok s"
  shows "rb_ok (bd_bh_root s)" "tree_ok (bd_bh_root s)" "set (inorder (bd_bh_root s)) = dom (bufs s)" "lists_ok s"
    "bufs s b = Some bh \<Longrightarrow> buf_ok s b bh"
  using assms by (auto simp: cache_ok_def)

lemma held_buf: "held b s \<Longrightarrow> \<exists>bh. bufs s b = Some bh \<and> 0 < b_count bh"
  by (auto simp: held_def split: option.splits)

section \<open>Correctness of the operations\<close>

lemma set_buf_simps [simp]:
  "bufs (set_buf b bh s) = (bufs s)(b \<mapsto> bh)" "bd_bh_root (set_buf b bh s) = bd_bh_root s" "disk (set_buf b bh s) = disk s"
  "bd_bh_free (set_buf b bh s) = bd_bh_free s" "bd_nr_free (set_buf b bh s) = bd_nr_free s"
  "bd_bh_dirty (set_buf b bh s) = bd_bh_dirty s" "buffer_dirty_count (set_buf b bh s) = buffer_dirty_count s"
  by (simp_all add: set_buf_def)

lemma list_simps [simp]:
  "bufs (detach_bh_from_freelist b s) = bufs s" "bd_bh_root (detach_bh_from_freelist b s) = bd_bh_root s"
  "disk (detach_bh_from_freelist b s) = disk s" "bd_bh_dirty (detach_bh_from_freelist b s) = bd_bh_dirty s"
  "bufs (attach_bh_to_freelist b s) = bufs s" "bd_bh_root (attach_bh_to_freelist b s) = bd_bh_root s"
  "disk (attach_bh_to_freelist b s) = disk s" "bd_bh_dirty (attach_bh_to_freelist b s) = bd_bh_dirty s"
  "set (bd_bh_free (attach_bh_to_freelist b s)) = insert b (set (bd_bh_free s))"
  "bufs (move_buffer_to_writeback b s) = bufs s" "bd_bh_root (move_buffer_to_writeback b s) = bd_bh_root s"
  "disk (move_buffer_to_writeback b s) = disk s" "bd_bh_free (move_buffer_to_writeback b s) = bd_bh_free s"
  "set (bd_bh_dirty (move_buffer_to_writeback b s)) = insert b (set (bd_bh_dirty s))"
  by (auto simp: detach_bh_from_freelist_def attach_bh_to_freelist_def move_buffer_to_writeback_def)

lemma detach_set: "lists_ok s \<Longrightarrow> set (bd_bh_free (detach_bh_from_freelist b s)) = set (bd_bh_free s) - {b}"
  by (auto simp: detach_bh_from_freelist_def lists_ok_def)

lemma lists_ok_ops:
  assumes "lists_ok s" "b \<in> dom (bufs s)"
  shows "lists_ok (detach_bh_from_freelist b s)" "lists_ok (attach_bh_to_freelist b s)" "lists_ok (move_buffer_to_writeback b s)"
  using assms
  by (auto simp: lists_ok_def detach_bh_from_freelist_def attach_bh_to_freelist_def move_buffer_to_writeback_def
    int_length_remove1 dest: notin_set_remove1)

lemma lists_ok_set_buf: "lists_ok s \<Longrightarrow> lists_ok (set_buf b bh s)"
  unfolding lists_ok_def by (simp add: subset_insertI2)

lemma lists_ok_put:
  assumes "lists_ok s"
  shows "lists_ok (attach_bh_to_freelist b (set_buf b bh s))" "lists_ok (move_buffer_to_writeback b (set_buf b bh s))"
  using lists_ok_ops [OF lists_ok_set_buf [OF assms], of b b bh] by simp_all

lemma buf_ok_cong:
  "disk s' c = disk s c \<Longrightarrow> (c \<in> set (bd_bh_free s') \<longleftrightarrow> c \<in> set (bd_bh_free s)) \<Longrightarrow>
   (c \<in> set (bd_bh_dirty s') \<longleftrightarrow> c \<in> set (bd_bh_dirty s)) \<Longrightarrow> buf_ok s c ch \<Longrightarrow> buf_ok s' c ch"
  by (simp add: buf_ok_def)

text \<open>A state that differs in the buffer \<open>b\<close> and in the place of \<open>b\<close> on the lists and on the device.\<close>

lemma cache_ok_update:
  assumes ok: "cache_ok s" and b: "b \<in> dom (bufs s)" and s': "bufs s' = (bufs s)(b \<mapsto> bh)" "bd_bh_root s' = bd_bh_root s"
    and lists: "lists_ok s'" and bh: "buf_ok s' b bh"
    and same: "\<And>c. c \<noteq> b \<Longrightarrow> disk s' c = disk s c" "set (bd_bh_free s') - {b} = set (bd_bh_free s) - {b}"
      "set (bd_bh_dirty s') - {b} = set (bd_bh_dirty s) - {b}"
  shows "cache_ok s'"
proof -
  note D = cache_okD [OF ok]
  have "buf_ok s' c ch" if c: "bufs s' c = Some ch" for c ch
  proof (cases "c = b")
    case True
    then show ?thesis using c bh s'(1) by simp
  next
    case False
    then show ?thesis using same c s'(1) by (intro buf_ok_cong [OF _ _ _ D(5)]) auto
  qed
  then show ?thesis using D(1-3) b s' lists by (simp add: cache_ok_def insert_absorb)
qed

lemma getblk_cached:
  assumes ok: "cache_ok s" and b: "blocknr_ok b" and bh: "bufs s b = Some bh"
  shows "\<exists>s'. getblk junk b s = Inr s' \<and> cache_ok s' \<and> view s' = view s \<and> held b s' \<and> disk s' = disk s"
proof -
  let ?s = "set_buf b (bh\<lparr>b_count := b_count bh + 1\<rparr>) (detach_bh_from_freelist b s)"
  note D = cache_okD [OF ok]
  have dom: "b \<in> dom (bufs s)" using bh by auto
  have get: "getblk junk b s = Inr ?s"
    using buffer_search_ok [OF D(2) b] dom D(3) bh by (simp add: getblk_def)
  have "buf_ok ?s b (bh\<lparr>b_count := b_count bh + 1\<rparr>)"
    using D(5) [OF bh] by (simp add: buf_ok_def detach_set [OF D(4)])
  then have "cache_ok ?s"
    by (intro cache_ok_update [OF ok dom]) (auto simp: detach_set [OF D(4)] intro: lists_ok_set_buf lists_ok_ops [OF D(4) dom])
  moreover have "view ?s = view s" by (simp add: view_def) (simp add: fun_eq_iff view_of_get bh)
  moreover have "held b ?s" using D(5) [OF bh] by (simp add: held_def buf_ok_def)
  ultimately show ?thesis using get by auto
qed

lemma getblk_fresh:
  assumes ok: "cache_ok s" and b: "blocknr_ok b" and bh: "bufs s b = None"
  shows "\<exists>s'. getblk junk b s = Inr s' \<and> cache_ok s' \<and> view s' = view s \<and> held b s' \<and> disk s' = disk s"
proof -
  note D = cache_okD [OF ok]
  have dom: "b \<notin> dom (bufs s)" using bh by auto
  obtain t where t: "rb_insert buffer_blocknr_cmp (bd_bh_root s) b = Some (Inr t)" "rb_ok t" "tree_ok t"
      "set (inorder t) = insert b (set (inorder (bd_bh_root s)))"
    using blk.insert_ok [OF D(1,2) b] dom D(3) by auto
  let ?bh = "\<lparr>b_count = 1, b_uptodate = False, b_dirty = False, b_data = junk\<rparr>"
  let ?s = "set_buf b ?bh (s\<lparr>bd_bh_root := t\<rparr>)"
  have get: "getblk junk b s = Inr ?s"
    using buffer_search_ok [OF D(2) b] dom D(3) t(1) by (simp add: getblk_def)
  have new: "b \<notin> set (bd_bh_free s)" "b \<notin> set (bd_bh_dirty s)" using D(4) dom by (auto simp: lists_ok_def)
  have "buf_ok ?s c ch" if "bufs ?s c = Some ch" for c ch
    using that new D(5) [of c ch] by (cases "c = b") (auto simp: buf_ok_def)
  moreover have "lists_ok ?s" using D(4) by (intro lists_ok_set_buf) (simp add: lists_ok_def)
  ultimately have "cache_ok ?s" using t D(3) by (simp add: cache_ok_def)
  moreover have "view ?s = view s" by (simp add: view_def) (simp add: fun_eq_iff view_of_get bh)
  ultimately show ?thesis using get by (auto simp: held_def)
qed

lemma getblk_ok:
  assumes "cache_ok s" "blocknr_ok b"
  shows "\<exists>s'. getblk junk b s = Inr s' \<and> cache_ok s' \<and> view s' = view s \<and> held b s' \<and> disk s' = disk s"
  using getblk_cached [OF assms] getblk_fresh [OF assms] by (cases "bufs s b") blast+

lemma set_buf_ok:
  assumes ok: "cache_ok s" and b: "bufs s b = Some bh" "buf_ok s b ch"
  shows "cache_ok (set_buf b ch s)"
  using b cache_okD(4) [OF ok]
  by (intro cache_ok_update [OF ok, of b]) (auto intro: lists_ok_set_buf simp: buf_ok_def)

lemma view_set_buf: "view (set_buf b bh s) = (view s)(b := if b_uptodate bh then b_data bh else disk s b)"
  by (simp add: view_def set_buf_def)

lemma fs_bread_ok:
  assumes "cache_ok s" "blocknr_ok b"
  shows "\<exists>s'. fs_bread junk b s = Inr s' \<and> cache_ok s' \<and> view s' = view s \<and> (\<exists>bh. bufs s' b = Some bh \<and> b_data bh = view s b)"
proof -
  obtain t where t: "getblk junk b s = Inr t" "cache_ok t" "view t = view s" "held b t" "disk t = disk s"
    using getblk_ok [OF assms, of junk] by blast
  then obtain bh where bh: "bufs t b = Some bh" using held_buf by blast
  show ?thesis
  proof (cases "b_uptodate bh")
    case True
    have "view t b = b_data bh" using True bh by (simp add: view_def view_of_get)
    with True t bh show ?thesis by (auto simp: fs_bread_def)
  next
    case False
    let ?bh = "bh\<lparr>b_data := disk t b, b_uptodate := True\<rparr>"
    have "buf_ok t b ?bh" using cache_okD(5) [OF t(2) bh] False by (auto simp: buf_ok_def)
    then have "cache_ok (set_buf b ?bh t)" by (rule set_buf_ok [OF t(2) bh])
    moreover have "view t b = disk t b" using False bh by (simp add: view_def view_of_get)
    then have "view (set_buf b ?bh t) = view s" using t(3) by (auto simp: view_set_buf)
    ultimately show ?thesis using t bh False \<open>view t b = disk t b\<close> by (auto simp: fs_bread_def set_buf_def)
  qed
qed

lemma fill_ok:
  assumes ok: "cache_ok s" and h: "held b s"
  shows "\<exists>s'. fill_and_dirty d b s = Inr s' \<and> cache_ok s' \<and> view s' = (view s)(b := d)"
proof -
  obtain bh where bh: "bufs s b = Some bh" "0 < b_count bh" using held_buf [OF h] by blast
  have "buf_ok s b (bh\<lparr>b_data := d, b_uptodate := True, b_dirty := True\<rparr>)"
    using cache_okD(5) [OF ok bh(1)] bh(2) by (auto simp: buf_ok_def)
  then show ?thesis using set_buf_ok [OF ok bh(1)] bh by (auto simp: fill_and_dirty_def view_set_buf)
qed

lemma change_ok:
  assumes ok: "cache_ok s" and h: "held b s"
  shows "\<exists>s'. change_and_mark d b s = Inr s' \<and> cache_ok s' \<and> view s' = (view s)(b := d)"
proof -
  obtain bh where bh: "bufs s b = Some bh" "0 < b_count bh" using held_buf [OF h] by blast
  let ?bh = "bh\<lparr>b_data := d, b_uptodate := True, b_dirty := True\<rparr>"
  let ?s = "set_buf b ?bh (move_buffer_to_writeback b s)"
  have dom: "b \<in> dom (bufs s)" using bh by auto
  have "buf_ok ?s b ?bh" using cache_okD(5) [OF ok bh(1)] bh(2) by (simp add: buf_ok_def)
  then have "cache_ok ?s"
    by (intro cache_ok_update [OF ok dom]) (auto intro: lists_ok_set_buf lists_ok_ops [OF cache_okD(4) [OF ok] dom])
  moreover have "view ?s = (view s)(b := d)" by (simp add: view_def)
  ultimately show ?thesis using bh by (auto simp: change_and_mark_def)
qed

section \<open>Dropping and writing back\<close>

lemma remove_first_ok:
  assumes ok: "cache_ok s" and free: "bd_bh_free s = f # fs"
  shows "\<exists>s'. remove_first_bh_from_freelist s = Inr s' \<and> cache_ok s' \<and> view s' = view s \<and> bd_bh_free s' = fs \<and>
     (\<forall>b. b \<noteq> f \<longrightarrow> bufs s' b = bufs s b) \<and> bd_bh_dirty s' = bd_bh_dirty s"
proof -
  note D = cache_okD [OF ok]
  have f: "f \<in> dom (bufs s)" "f \<notin> set fs" using D(4) free by (auto simp: lists_ok_def)
  then obtain bh where bh: "bufs s f = Some bh" by auto
  have clean: "\<not> b_dirty bh" "f \<notin> set (bd_bh_dirty s)" using D(5) [OF bh] free by (auto simp: buf_ok_def)
  obtain t where t: "rb_erase f (bd_bh_root s) = Some t" "rb_ok t" "inorder t = remove1 f (inorder (bd_bh_root s))"
    using rb_erase_ok [OF D(1) blk.ordered_distinct [OF D(2)]] f(1) D(3) by blast
  let ?s = "s\<lparr>bd_bh_free := fs, bd_nr_free := bd_nr_free s - 1, bd_bh_root := t, bufs := (bufs s)(f := None)\<rparr>"
  have r: "remove_first_bh_from_freelist s = Inr ?s"
    using free t(1) by (simp add: remove_first_bh_from_freelist_def buffer_remove_def)
  have "set (inorder t) = dom (bufs s) - {f}" using t(3) D(3) blk.ordered_distinct [OF D(2)] by simp
  moreover have "lists_ok ?s" using D(4) free f clean by (auto simp: lists_ok_def)
  moreover have "tree_ok t" by (rule blk.ordered_remove1 [OF D(2) t(3)])
  moreover have "buf_ok ?s c ch" if "bufs ?s c = Some ch" for c ch
    using that D(5) [of c ch] free by (auto simp: buf_ok_def split: if_splits)
  ultimately have "cache_ok ?s" using t(2) by (auto simp: cache_ok_def)
  moreover have "view ?s = view s" using clean D(5) [OF bh] by (auto simp: view_def view_of_get bh buf_ok_def)
  ultimately show ?thesis using r by auto
qed

lemma drop_loop_ok:
  "cache_ok s \<Longrightarrow> bd_bh_free s = fs \<Longrightarrow> \<exists>s'. drop_loop fs s = Inr s' \<and> cache_ok s' \<and> view s' = view s \<and>
     (\<forall>b. b \<notin> set fs \<longrightarrow> bufs s' b = bufs s b) \<and> set (bd_bh_free s') \<subseteq> set fs"
proof (induction fs arbitrary: s)
  case Nil
  then show ?case using cache_okD(4) [OF Nil.prems(1)] by (auto simp: lists_ok_def)
next
  case (Cons f fs)
  obtain t where t: "remove_first_bh_from_freelist s = Inr t" "cache_ok t" "view t = view s" "bd_bh_free t = fs"
      "\<forall>b. b \<noteq> f \<longrightarrow> bufs t b = bufs s b"
    using remove_first_ok [OF Cons.prems] by blast
  show ?case
    using Cons.IH [OF t(2,4)] t Cons.prems by (auto split: if_splits)
qed

text \<open>Dropping free buffers does not look at a buffer that is not free.\<close>

lemma drop_loop_set_buf:
  "bd_bh_free s = fs \<Longrightarrow> b \<notin> set fs \<Longrightarrow>
   drop_loop fs (set_buf b bh s) = bindF (drop_loop fs s) (\<lambda>s. Inr (set_buf b bh s))"
proof (induction fs arbitrary: s)
  case (Cons f fs)
  have step: "remove_first_bh_from_freelist (set_buf b bh s) = bindF (remove_first_bh_from_freelist s) (\<lambda>s. Inr (set_buf b bh s))"
    using Cons.prems by (simp add: remove_first_bh_from_freelist_def buffer_remove_def set_buf_def fun_upd_twist split: option.split)
  have free: "remove_first_bh_from_freelist s = Inr t \<Longrightarrow> bd_bh_free t = fs" for t
    using Cons.prems by (auto simp: remove_first_bh_from_freelist_def buffer_remove_def split: option.splits)
  show ?case
    using Cons.prems(2) Cons.IH [OF free] step by (cases "remove_first_bh_from_freelist s") auto
qed simp

lemma brelse_clean:
  assumes ok: "cache_ok s" and bh: "bufs s b = Some bh" "b_count bh = 1" "\<not> b_dirty bh"
  shows "\<exists>s'. brelse b s = Inr s' \<and> cache_ok s' \<and> view s' = view s"
proof -
  let ?bh = "bh\<lparr>b_count := 0\<rparr>"
  have nf: "b \<notin> set (bd_bh_free s)" using cache_okD(5) [OF ok bh(1)] bh by (simp add: buf_ok_def)
  obtain t where t: "drop_loop (bd_bh_free s) s = Inr t" "cache_ok t" "view t = view s" "bufs t b = Some bh"
    using drop_loop_ok [OF ok refl] nf bh(1) by auto
  have r: "brelse b s = Inr (attach_bh_to_freelist b (set_buf b ?bh t))"
    using bh t(1) nf by (simp add: brelse_def reclaim_buffer_def try_to_drop_buffers_def drop_loop_set_buf)
  have dom: "b \<in> dom (bufs t)" using t(4) by auto
  have "buf_ok (attach_bh_to_freelist b (set_buf b ?bh t)) b ?bh"
    using cache_okD(5) [OF t(2,4)] bh by (simp add: buf_ok_def)
  then have "cache_ok (attach_bh_to_freelist b (set_buf b ?bh t))"
    by (intro cache_ok_update [OF t(2) dom]) (auto intro: lists_ok_put cache_okD(4) [OF t(2)])
  moreover have "view (attach_bh_to_freelist b (set_buf b ?bh t)) = view s"
    unfolding t(3) [symmetric] using t(4) by (simp add: view_def fun_eq_iff view_of_get)
  ultimately show ?thesis using r by blast
qed

lemma brelse_ok:
  assumes ok: "cache_ok s" and h: "held b s"
  shows "\<exists>s'. brelse b s = Inr s' \<and> cache_ok s' \<and> view s' = view s"
proof -
  obtain bh where bh: "bufs s b = Some bh" "0 < b_count bh" using held_buf [OF h] by blast
  have dom: "b \<in> dom (bufs s)" using bh by auto
  let ?bh = "bh\<lparr>b_count := b_count bh - 1\<rparr>"
  have v: "view (set_buf b ?bh s) = view s" using bh by (simp add: view_def fun_eq_iff view_of_get)
  consider "1 < b_count bh" | "b_count bh = 1" "\<not> b_dirty bh" | "b_count bh = 1" "b_dirty bh" using bh(2) by linarith
  then show ?thesis
  proof cases
    case 1
    then have "buf_ok s b ?bh" using cache_okD(5) [OF ok bh(1)] by (auto simp: buf_ok_def)
    then have "cache_ok (set_buf b ?bh s)" by (rule set_buf_ok [OF ok bh(1)])
    with 1 bh v show ?thesis by (simp add: brelse_def Let_def)
  next
    case 2
    then show ?thesis by (intro brelse_clean [OF ok bh(1)])
  next
    case 3
    let ?s = "move_buffer_to_writeback b (set_buf b ?bh s)"
    have "buf_ok ?s b ?bh" using cache_okD(5) [OF ok bh(1)] 3 by (simp add: buf_ok_def)
    then have "cache_ok ?s"
      by (intro cache_ok_update [OF ok dom]) (auto intro: lists_ok_put cache_okD(4) [OF ok])
    moreover have "view ?s = view s" using v by (simp add: view_def)
    ultimately show ?thesis using 3 bh by (simp add: brelse_def Let_def)
  qed
qed

text \<open>One round of \<open>sync_all_buffers\<close>.\<close>

definition sync_step :: "(nat \<Rightarrow> bool) \<Rightarrow> nat \<Rightarrow> 'd bdev \<Rightarrow> fault + 'd bdev" where
  "sync_step locked b s =
     bindF (sync_dirty_buffer locked b s) (\<lambda>(ret, s). Inr
         (if ret = 0 then s\<lparr>bd_bh_dirty := remove1 b (bd_bh_dirty s), buffer_dirty_count := buffer_dirty_count s - 1\<rparr> else s))"

lemma sync_loop_step: "sync_loop locked (b # bs) s = bindF (sync_step locked b s) (sync_loop locked bs)"
  by (auto simp: sync_step_def bindF_def split: sum.splits prod.splits)

definition counts :: "'d bdev \<Rightarrow> nat \<Rightarrow> int option" where
  "counts s b = map_option b_count (bufs s b)"

lemma sync_step_ok:
  assumes ok: "cache_ok s" and b: "b \<in> set (bd_bh_dirty s)"
  shows "\<exists>s'. sync_step locked b s = Inr s' \<and> cache_ok s' \<and> view s' = view s \<and> counts s' = counts s \<and>
     set (bd_bh_dirty s') = set (bd_bh_dirty s) - (if \<not> locked b \<and> counts s b = Some 0 then {b} else {})"
proof -
  note D = cache_okD [OF ok]
  have dom: "b \<in> dom (bufs s)" using D(4) b by (auto simp: lists_ok_def)
  then obtain bh where bh: "bufs s b = Some bh" by auto
  have d: "b_dirty bh" "b_uptodate bh" "b \<notin> set (bd_bh_free s)" using D(5) [OF bh] b by (auto simp: buf_ok_def)
  have dist: "distinct (bd_bh_dirty s)" using D(4) by (simp add: lists_ok_def)
  let ?s = "s\<lparr>disk := (disk s)(b := b_data bh)\<rparr>"
  consider "locked b" | "\<not> locked b" "b_count bh = 0" | "\<not> locked b" "b_count bh \<noteq> 0" by blast
  then show ?thesis
  proof cases
    case 1
    then show ?thesis using bh ok by (simp add: sync_step_def sync_dirty_buffer_def)
  next
    case 2
    let ?bh = "bh\<lparr>b_uptodate := True, b_dirty := False\<rparr>"
    let ?t = "attach_bh_to_freelist b (set_buf b ?bh ?s)"
    let ?u = "?t\<lparr>bd_bh_dirty := remove1 b (bd_bh_dirty s), buffer_dirty_count := buffer_dirty_count ?t - 1\<rparr>"
    have r: "sync_step locked b s = Inr ?u" using 2 bh d by (simp add: sync_step_def sync_dirty_buffer_def Let_def)
    have "lists_ok ?s" using D(4) by (simp add: lists_ok_def)
    then have "lists_ok ?t" using dom by (auto intro: lists_ok_set_buf lists_ok_ops)
    then have "lists_ok ?u" using b dist by (auto simp: lists_ok_def int_length_remove1)
    moreover have "buf_ok ?u b ?bh" using D(5) [OF bh] 2 dist by (simp add: buf_ok_def)
    ultimately have "cache_ok ?u" using dist by (intro cache_ok_update [OF ok dom]) auto
    moreover have "view ?u = view s" using bh d by (auto simp: view_def view_of_def fun_eq_iff split: option.split)
    moreover have "counts ?u = counts s" using bh by (auto simp: counts_def fun_eq_iff)
    ultimately show ?thesis using r 2 bh dist by (simp add: counts_def)
  next
    case 3
    let ?bh = "bh\<lparr>b_uptodate := True\<rparr>"
    have r: "sync_step locked b s = Inr (set_buf b ?bh ?s)" using 3 bh d by (simp add: sync_step_def sync_dirty_buffer_def Let_def)
    have "lists_ok ?s" using D(4) by (simp add: lists_ok_def)
    moreover have "buf_ok (set_buf b ?bh ?s) b ?bh" using D(5) [OF bh] d by (simp add: buf_ok_def)
    ultimately have "cache_ok (set_buf b ?bh ?s)" by (intro cache_ok_update [OF ok dom]) (auto intro: lists_ok_set_buf)
    moreover have "view (set_buf b ?bh ?s) = view s" using bh d by (auto simp: view_def view_of_def fun_eq_iff split: option.split)
    moreover have "counts (set_buf b ?bh ?s) = counts s" using bh by (auto simp: counts_def fun_eq_iff)
    ultimately show ?thesis using r 3 bh by (simp add: counts_def)
  qed
qed

lemma sync_loop_ok:
  "cache_ok s \<Longrightarrow> set bs \<subseteq> set (bd_bh_dirty s) \<Longrightarrow> distinct bs \<Longrightarrow>
   \<exists>s'. sync_loop locked bs s = Inr s' \<and> cache_ok s' \<and> view s' = view s \<and> counts s' = counts s \<and>
     set (bd_bh_dirty s') = set (bd_bh_dirty s) - {b \<in> set bs. \<not> locked b \<and> counts s b = Some 0}"
proof (induction bs arbitrary: s)
  case (Cons b bs)
  obtain t where t: "sync_step locked b s = Inr t" "cache_ok t" "view t = view s" "counts t = counts s"
      "set (bd_bh_dirty t) = set (bd_bh_dirty s) - (if \<not> locked b \<and> counts s b = Some 0 then {b} else {})"
    using sync_step_ok [OF Cons.prems(1), of b locked] Cons.prems(2) by auto
  have "set bs \<subseteq> set (bd_bh_dirty t)" using t(5) Cons.prems by auto
  with Cons.IH [OF t(2)] Cons.prems(3) obtain u where u: "sync_loop locked bs t = Inr u" "cache_ok u" "view u = view t" "counts u = counts t"
      "set (bd_bh_dirty u) = set (bd_bh_dirty t) - {b \<in> set bs. \<not> locked b \<and> counts t b = Some 0}"
    by (auto simp del: sync_loop.simps)
  have "set (bd_bh_dirty u) = set (bd_bh_dirty s) - {c \<in> set (b # bs). \<not> locked c \<and> counts s c = Some 0}"
    using t(4,5) u(5) by auto
  then show ?case using t u by (simp add: sync_loop_step del: sync_loop.simps)
qed simp

lemma sync_all_ok:
  assumes ok: "cache_ok s"
  shows "\<exists>s'. sync_all_buffers locked s = Inr s' \<and> cache_ok s' \<and> view s' = view s \<and> counts s' = counts s \<and>
     set (bd_bh_dirty s') = {b \<in> set (bd_bh_dirty s). locked b \<or> counts s b \<noteq> Some 0}"
proof -
  have "distinct (bd_bh_dirty s)" using cache_okD(4) [OF ok] by (simp add: lists_ok_def)
  then obtain t where t: "sync_loop locked (bd_bh_dirty s) s = Inr t" "cache_ok t" "view t = view s" "counts t = counts s"
      "set (bd_bh_dirty t) = set (bd_bh_dirty s) - {b \<in> set (bd_bh_dirty s). \<not> locked b \<and> counts s b = Some 0}"
    using sync_loop_ok [OF ok, of "bd_bh_dirty s" locked] by blast
  have "set (bd_bh_dirty t) = {b \<in> set (bd_bh_dirty s). locked b \<or> counts s b \<noteq> Some 0}" using t(5) by auto
  then show ?thesis using t by (simp add: sync_all_buffers_def)
qed

text \<open>When no buffer is held, a state without dirty buffers has all blocks on the device.\<close>

lemma synced_view:
  assumes ok: "cache_ok s" and "bd_bh_dirty s = []" and "\<And>b c. counts s b = Some c \<Longrightarrow> c = 0"
  shows "view s = disk s"
proof
  fix b
  show "view s b = disk s b"
  proof (cases "bufs s b")
    case (Some bh)
    then have "b_count bh = 0" using assms(3) [of b] by (simp add: counts_def)
    then show ?thesis using cache_okD(5) [OF ok Some] assms(2) Some by (auto simp: view_def view_of_get buf_ok_def)
  qed (simp add: view_def view_of_get)
qed

lemma exec_ok:
  assumes "cache_ok s" "allowed x s"
  shows "\<exists>s'. exec x s = Inr s' \<and> cache_ok s' \<and> view s' = spec x (view s)"
proof (cases x)
  case (Bread d b)
  then show ?thesis using fs_bread_ok [OF assms(1), of b d] assms(2) by auto
next
  case (Get_Bh d b)
  then show ?thesis using getblk_ok [OF assms(1), of b d] assms(2) by (auto simp: fs_get_bh_def)
next
  case (Fill d b)
  then show ?thesis using fill_ok [OF assms(1), of b d] assms(2) by auto
next
  case (Change d b)
  then show ?thesis using change_ok [OF assms(1), of b d] assms(2) by auto
next
  case (Release b)
  then show ?thesis using brelse_ok [OF assms(1), of b] assms(2) by auto
next
  case (Sync l)
  then show ?thesis using sync_all_ok [OF assms(1), of l] by auto
qed

lemma exec_all_ok:
  "cache_ok s \<Longrightarrow> allowed_all xs s \<Longrightarrow> \<exists>s'. exec_all xs s = Inr s' \<and> cache_ok s' \<and> view s' = fold spec xs (view s)"
proof (induction xs arbitrary: s)
  case (Cons x xs)
  then obtain t where t: "exec x s = Inr t" "cache_ok t" "view t = spec x (view s)" using exec_ok by force
  then obtain u where "exec_all xs t = Inr u" "cache_ok u" "view u = fold spec xs (view t)"
    using Cons.IH [OF t(2)] Cons.prems(2) by auto
  then show ?case using t by simp
qed simp

section \<open>Properties\<close>

text \<open>
  C32: the cache is transparent. After any sequence of reads, new buffers, changes and
  releases by holders and synchronisations, no step failed, and seen through the cache every
  block has the contents last written to it, although clean buffers are dropped above the
  threshold and dirty ones are written back at any time. When no buffer is held or locked,
  \<open>sync_all_buffers\<close> empties the dirty list and the device holds exactly these contents.
\<close>

theorem buffer_cache_transparent:
  assumes "allowed_all xs (bdev_alloc d)"
  shows "\<exists>s. exec_all xs (bdev_alloc d) = Inr s \<and> view s = fold spec xs d \<and>
    (\<not> (\<exists>b. held b s) \<longrightarrow> (\<exists>t. sync_all_buffers (\<lambda>_. False) s = Inr t \<and> bd_bh_dirty t = [] \<and> disk t = fold spec xs d))"
proof -
  obtain s where s: "exec_all xs (bdev_alloc d) = Inr s" "cache_ok s" "view s = fold spec xs d"
    using exec_all_ok [OF bdev_alloc_ok(1) assms] by (auto simp: bdev_alloc_ok(2))
  have "\<exists>t. sync_all_buffers (\<lambda>_. False) s = Inr t \<and> bd_bh_dirty t = [] \<and> disk t = fold spec xs d" if free: "\<not> (\<exists>b. held b s)"
  proof -
    have zero: "counts s b = Some 0" if "bufs s b = Some bh" for b bh
    proof -
      have "\<not> held b s" "0 \<le> b_count bh" using free cache_okD(5) [OF s(2) that] by (auto simp: buf_ok_def)
      then show ?thesis using that by (simp add: held_def counts_def)
    qed
    obtain t where t: "sync_all_buffers (\<lambda>_. False) s = Inr t" "cache_ok t" "view t = view s" "counts t = counts s"
        "set (bd_bh_dirty t) = {b \<in> set (bd_bh_dirty s). counts s b \<noteq> Some 0}"
      using sync_all_ok [OF s(2), of "\<lambda>_. False"] by auto
    have "counts s b = Some 0" if "b \<in> set (bd_bh_dirty s)" for b
      using that zero cache_okD(4) [OF s(2)] by (auto simp: lists_ok_def)
    then have "set (bd_bh_dirty t) = {}" using t(5) by auto
    then have "bd_bh_dirty t = []" by simp
    moreover have "c = 0" if "counts t b = Some c" for b c using that zero t(4) by (auto simp: counts_def)
    ultimately have "view t = disk t" by (intro synced_view [OF t(2)])
    then show ?thesis using \<open>bd_bh_dirty t = []\<close> t(1,3) s(3) by simp
  qed
  then show ?thesis using s(1,3) by (intro exI [of _ s] conjI) simp_all
qed

lemmas cache_simps = fs_get_bh_def fs_bread_def getblk_def fill_and_dirty_def change_and_mark_def brelse_def reclaim_buffer_def
  try_to_drop_buffers_def set_buf_def attach_bh_to_freelist_def detach_bh_from_freelist_def move_buffer_to_writeback_def
  sdiff64_def usub64_def buffer_blocknr_cmp_def rb_insert_def rb_link_insert_def Let_def

theorem buffer_cache_transparent_witness:
  "\<exists>s. exec_all [Get_Bh 9 5, Fill 1 5, Bread 9 3, Change 4 3, Release 5, Release 3, Bread 9 5, Change 2 5, Release 5] (bdev_alloc (\<lambda>_. 0 :: nat)) = Inr s \<and>
     view s = (\<lambda>_. 0)(5 := 2, 3 := 4)"
proof -
  let ?xs = "[Get_Bh 9 5, Fill 1 5, Bread 9 3, Change 4 3, Release 5, Release 3, Bread 9 5, Change 2 5, Release (5 :: nat)]"
  have "allowed_all ?xs (bdev_alloc (\<lambda>_. 0 :: nat))"
    by (simp add: bdev_alloc_def blocknr_ok_def held_def cache_simps)
  from buffer_cache_transparent [OF this] show ?thesis by (auto simp: fun_upd_twist)
qed

end
