(* ===== verification/Dirty_Inodes.thy ===== *)
theory Dirty_Inodes
  imports Rbtree
begin

text \<open>
  The inodes that a digest has changed: \<open>mlfs_mark_inode_dirty\<close> of \<open>src/kernfs/extents.c\<close>
  inserts an inode into the red-black tree \<open>s_dirty_root\<close> of its log, and
  \<open>persist_dirty_objects_nvm\<close> of \<open>src/kernfs/fs.c\<close> writes the inodes of the tree to the device
  and empties it. The loop erases a node and then asks \<open>rb_next\<close> for the successor of the
  erased node, which still has its old pointers; the theorem shows that this visits every
  inode. There is one inode in memory for an inode number, so the nodes are named by them.
\<close>

definition inode_cmp :: "nat \<Rightarrow> nat \<Rightarrow> int" where
  "inode_cmp a b = (if a < b then -1 else if a > b then 1 else 0)"

interpretation inum: comparator inode_cmp "\<lambda>_. True"
  by unfold_locales (auto simp: inode_cmp_def split: if_splits)

text \<open>
  \<open>dinodes\<close> are the inodes in memory and \<open>ondisk\<close> the inodes on the device, by inode number.
\<close>

record 'i inodes =
  s_dirty_root :: "nat \<Rightarrow> nat rb_tree"
  i_data_dirty :: "nat \<Rightarrow> bool"
  dinodes :: "nat \<Rightarrow> 'i"
  ondisk :: "nat \<Rightarrow> 'i"

text \<open>The result of the insertion is not looked at.\<close>

definition mlfs_mark_inode_dirty :: "nat \<Rightarrow> nat \<Rightarrow> 'i inodes \<Rightarrow> fault + 'i inodes" where
  "mlfs_mark_inode_dirty log_id ino s =
     (let s = s\<lparr>i_data_dirty := (i_data_dirty s)(ino := True)\<rparr> in
      case rb_insert inode_cmp (s_dirty_root s log_id) ino of
        None \<Rightarrow> Inl NullDeref
      | Some (Inl e) \<Rightarrow> Inr s
      | Some (Inr t) \<Rightarrow> Inr (s\<lparr>s_dirty_root := (s_dirty_root s)(log_id := t)\<rparr>))"

definition write_ondisk_inode :: "nat \<Rightarrow> 'i inodes \<Rightarrow> 'i inodes" where
  "write_ondisk_inode ino s = s\<lparr>ondisk := (ondisk s)(ino := dinodes s ino)\<rparr>"

text \<open>
  \<open>rb_next\<close> of a node that has been erased, for a node without left child: the first node of
  its right subtree, which the erasure only moved up, or the parent that its pointer still
  names, which does not have it as a child any more.
\<close>

fun stale_next :: "'a rb_tree \<Rightarrow> 'a path \<Rightarrow> 'a option" where
  "stale_next (Node c l x (Node c' l' y r')) fs = leftmost (Node c' l' y r')"
| "stale_next t (LeftOf c p s # fs) = Some p"
| "stale_next t (RightOf c s p # fs) = Some p"
| "stale_next t [] = None"

text \<open>The fuel is the number of rounds; running out of it stands for a loop that does not end.\<close>

primrec persist_loop :: "nat \<Rightarrow> nat \<Rightarrow> nat option \<Rightarrow> 'i inodes \<Rightarrow> fault + 'i inodes" where
  "persist_loop 0 log_id node s = Inl Diverges"
| "persist_loop (Suc n) log_id node s =
     (case node of
        None \<Rightarrow> Inr s
      | Some ino \<Rightarrow>
          (case rb_locate ino (s_dirty_root s log_id) [] of
             None \<Rightarrow> Inl NullDeref
           | Some (t, fs) \<Rightarrow>
               (case rb_erase_at t fs of
                  None \<Rightarrow> Inl NullDeref
                | Some root \<Rightarrow>
                    persist_loop n log_id (stale_next t fs)
                      (write_ondisk_inode ino (s\<lparr>s_dirty_root := (s_dirty_root s)(log_id := root)\<rparr>)))))"

definition persist_dirty_inodes :: "nat \<Rightarrow> nat \<Rightarrow> 'i inodes \<Rightarrow> fault + 'i inodes" where
  "persist_dirty_inodes fuel log_id s = persist_loop fuel log_id (rb_first (s_dirty_root s log_id)) s"

text \<open>Several inodes are marked one after the other.\<close>

primrec mark_all :: "nat \<Rightarrow> nat list \<Rightarrow> 'i inodes \<Rightarrow> fault + 'i inodes" where
  "mark_all log_id [] s = Inr s"
| "mark_all log_id (i # is) s = bindF (mlfs_mark_inode_dirty log_id i s) (mark_all log_id is)"

section \<open>The walk over erased nodes\<close>

text \<open>The successor of the first node, read off its old pointers, is the first node of what is left.\<close>

lemma first_position:
  assumes loc: "rb_locate x root [] = Some (Node c l x r, fs)" "root = plug (Node c l x r) fs"
    and first: "inorder root = x # xs" "distinct (inorder root)"
  shows "l = Leaf" "before fs = []" "xs = inorder r @ after fs"
proof -
  have io: "x # xs = before fs @ inorder l @ x # inorder r @ after fs" using loc(2) first(1) by simp
  have "distinct (before fs @ inorder l @ x # inorder r @ after fs)" using first loc(2) by simp
  then have "x \<notin> set (before fs @ inorder l)" by auto
  then have "before fs @ inorder l = []" using io by (cases "before fs @ inorder l") (auto simp: append_eq_Cons_conv)
  then show "l = Leaf" "before fs = []" "xs = inorder r @ after fs" using io by auto
qed

lemma stale_next_first:
  assumes "before fs = []"
  shows "stale_next (Node c Leaf x r) fs = (case inorder r @ after fs of [] \<Rightarrow> None | y # _ \<Rightarrow> Some y)"
proof (cases r)
  case Leaf
  show ?thesis
  proof (cases fs)
    case (Cons f gs)
    then show ?thesis using assms Leaf by (cases f) auto
  qed (simp add: Leaf)
next
  case (Node c' l' y r')
  have "inorder r \<noteq> []" by (simp add: Node)
  then obtain z zs where z: "inorder r = z # zs" by (cases "inorder r") auto
  then have "leftmost r = Some z" by (simp add: leftmost_inorder)
  then show ?thesis using z Node by (simp del: leftmost.simps)
qed

lemma rb_first_inorder: "rb_first t = (case inorder t of [] \<Rightarrow> None | x # _ \<Rightarrow> Some x)"
  by (simp add: rb_first_def leftmost_inorder)

definition dirty_ok :: "nat \<Rightarrow> 'i inodes \<Rightarrow> bool" where
  "dirty_ok log_id s \<longleftrightarrow> rb_ok (s_dirty_root s log_id) \<and> ordered_by inode_cmp (\<lambda>_. True) (s_dirty_root s log_id)"

lemma persist_loop_ok:
  "dirty_ok log_id s \<Longrightarrow> length (inorder (s_dirty_root s log_id)) < n \<Longrightarrow>
   persist_loop n log_id (rb_first (s_dirty_root s log_id)) s =
     Inr (s\<lparr>s_dirty_root := (s_dirty_root s)(log_id := Leaf),
       ondisk := (\<lambda>i. if i \<in> set (inorder (s_dirty_root s log_id)) then dinodes s i else ondisk s i)\<rparr>)"
proof (induction n arbitrary: s)
  case (Suc n)
  let ?t = "s_dirty_root s log_id"
  have ok: "rb_ok ?t" "ordered_by inode_cmp (\<lambda>_. True) ?t" "distinct (inorder ?t)"
    using Suc.prems(1) inum.ordered_distinct by (auto simp: dirty_ok_def)
  show ?case
  proof (cases "inorder ?t")
    case Nil
    then have "?t = Leaf" by simp
    then show ?thesis using Nil fun_upd_triv [of "s_dirty_root s" log_id] by (simp add: rb_first_inorder)
  next
    case (Cons x xs)
    obtain c l r fs where loc: "rb_locate x ?t [] = Some (Node c l x r, fs)" "?t = plug (Node c l x r) fs"
      using rb_locate_cases Cons by (metis list.set_intros(1))
    note pos = first_position [OF loc Cons ok(3)]
    obtain t' where t': "rb_erase x ?t = Some t'" "rb_ok t'" "inorder t' = remove1 x (inorder ?t)"
      using rb_erase_ok [OF ok(1,3), of x] Cons by auto
    then have io: "rb_erase_at (Node c l x r) fs = Some t'" "inorder t' = xs" using loc Cons by (auto simp: rb_erase_def)
    let ?s = "write_ondisk_inode x (s\<lparr>s_dirty_root := (s_dirty_root s)(log_id := t')\<rparr>)"
    have "dirty_ok log_id ?s"
      using t' inum.ordered_remove1 [OF ok(2) t'(3)] by (simp add: dirty_ok_def write_ondisk_inode_def)
    moreover have "length (inorder (s_dirty_root ?s log_id)) < n" using Suc.prems(2) Cons io by (simp add: write_ondisk_inode_def)
    moreover have "stale_next (Node c l x r) fs = rb_first (s_dirty_root ?s log_id)"
      using stale_next_first [OF pos(2), of c x r] pos io(2) by (simp add: rb_first_inorder write_ondisk_inode_def)
    moreover have "rb_first ?t = Some x" using Cons by (simp add: rb_first_inorder)
    ultimately show ?thesis
      using Suc.IH [of ?s] loc(1) io Cons by (simp add: write_ondisk_inode_def fun_eq_iff)
  qed
qed simp

lemma mark_ok:
  assumes "dirty_ok log_id s"
  shows "\<exists>s'. mlfs_mark_inode_dirty log_id ino s = Inr s' \<and> dirty_ok log_id s' \<and>
    set (inorder (s_dirty_root s' log_id)) = insert ino (set (inorder (s_dirty_root s log_id))) \<and>
    dinodes s' = dinodes s \<and> ondisk s' = ondisk s"
  using inum.insert_ok [of "s_dirty_root s log_id" ino] assms
  by (cases "ino \<in> set (inorder (s_dirty_root s log_id))") (auto simp: mlfs_mark_inode_dirty_def dirty_ok_def insert_absorb)

lemma mark_all_ok:
  "dirty_ok log_id s \<Longrightarrow> \<exists>s'. mark_all log_id is s = Inr s' \<and> dirty_ok log_id s' \<and>
    set (inorder (s_dirty_root s' log_id)) = set is \<union> set (inorder (s_dirty_root s log_id)) \<and>
    dinodes s' = dinodes s \<and> ondisk s' = ondisk s"
proof (induction "is" arbitrary: s)
  case (Cons i "is")
  then show ?case using mark_ok [OF Cons.prems, of i] by fastforce
qed simp

section \<open>Property\<close>

text \<open>
  C33: after any inodes were marked dirty in any order and any number of times, the end of the
  digest writes exactly these inodes to the device and leaves no dirty inode, although the
  loop steps from a node that is no longer in the tree; it takes one round for each of them.
\<close>

theorem dirty_inodes_persisted:
  assumes "s_dirty_root s log_id = Leaf" and "card (set is) < fuel"
  shows "\<exists>s' t. mark_all log_id is s = Inr s' \<and> persist_dirty_inodes fuel log_id s' = Inr t \<and>
    s_dirty_root t log_id = Leaf \<and> ondisk t = (\<lambda>i. if i \<in> set is then dinodes s i else ondisk s i)"
proof -
  have "dirty_ok log_id s" using assms(1) by (simp add: dirty_ok_def rb_ok_def)
  then obtain s' where s': "mark_all log_id is s = Inr s'" "dirty_ok log_id s'" "dinodes s' = dinodes s" "ondisk s' = ondisk s"
      "set (inorder (s_dirty_root s' log_id)) = set is"
    using mark_all_ok [of log_id s "is"] assms(1) by auto
  have "distinct (inorder (s_dirty_root s' log_id))" using s'(2) inum.ordered_distinct by (auto simp: dirty_ok_def)
  then have "length (inorder (s_dirty_root s' log_id)) < fuel" using s'(5) assms(2) distinct_card by metis
  with persist_loop_ok [OF s'(2)] s' show ?thesis by (simp add: persist_dirty_inodes_def fun_eq_iff)
qed

theorem dirty_inodes_persisted_witness:
  "\<exists>s' t. mark_all 2 [7, 3, 9, 3, 1] \<lparr>s_dirty_root = \<lambda>_. Leaf, i_data_dirty = \<lambda>_. False, dinodes = \<lambda>i. i, ondisk = \<lambda>_. 0 :: nat\<rparr> = Inr s' \<and>
     persist_dirty_inodes 5 2 s' = Inr t \<and> map (ondisk t) [0, 1, 2, 3, 7, 9] = [0, 1, 0, 3, 7, 9]"
proof -
  let ?s = "\<lparr>s_dirty_root = \<lambda>_. Leaf, i_data_dirty = \<lambda>_. False, dinodes = \<lambda>i. i, ondisk = \<lambda>_. 0 :: nat\<rparr>"
  have "card (set [7, 3, 9, 3, 1 :: nat]) < 5" by (simp add: insert_commute)
  from dirty_inodes_persisted [of ?s 2, OF _ this] obtain s' t where
    t: "mark_all 2 [7, 3, 9, 3, 1] ?s = Inr s'" "persist_dirty_inodes 5 2 s' = Inr t"
      "ondisk t = (\<lambda>i. if i \<in> set [7, 3, 9, 3, 1] then dinodes ?s i else ondisk ?s i)" by auto
  have "map (ondisk t) [0, 1, 2, 3, 7, 9] = [0, 1, 0, 3, 7, 9]" unfolding t(3) by simp
  with t(1,2) show ?thesis by (intro exI conjI)
qed

end
