(* ===== verification/Extents.thy ===== *)
theory Extents
  imports Balloc_Sb Block_Bitmap
begin

text \<open>
  The extents of a file in \<open>src/kernfs/extents.c\<close>: lookup, insertion with merging, splitting
  and removal of extents, and the blocks they take from the allocator and give back to it.
  The model is the tree of depth 0, whose extents are in the inode; \<open>mlfs_ext_create_new_leaf\<close>,
  which makes the tree deeper when the inode has no room for another extent, and
  \<open>try_migrate_blocks\<close>, which moves blocks to another device when the device is full, are
  where the model ends. File block numbers and lengths are far below \<open>2 ^ 32\<close>, so that the
  sums of the code do not wrap around; the length of an extent has 16 bits.
\<close>

unbundle bit_operations_syntax

section \<open>Extents\<close>

text \<open>\<open>ee_start\<close> is the 48-bit number that the code keeps in two parts.\<close>

record extent =
  ee_block :: nat
  ee_len :: nat
  ee_start :: nat

abbreviation (input) EXT_INIT_MAX_LEN :: nat where "EXT_INIT_MAX_LEN \<equiv> 32768"
abbreviation (input) EXT_MAX_BLOCKS :: nat where "EXT_MAX_BLOCKS \<equiv> 0xffffffff"
abbreviation (input) MLFS_EXT_MAGIC :: nat where "MLFS_EXT_MAGIC \<equiv> 0xf30a"
abbreviation (input) EIO :: int where "EIO \<equiv> 5"
abbreviation (input) EFSCORRUPTED :: int where "EFSCORRUPTED \<equiv> 117"

definition mlfs_ext_get_actual_len :: "extent \<Rightarrow> nat" where
  "mlfs_ext_get_actual_len x =
     (if ee_len x \<le> EXT_INIT_MAX_LEN then ee_len x else ee_len x - EXT_INIT_MAX_LEN)"

definition mlfs_ext_is_unwritten :: "extent \<Rightarrow> bool" where
  "mlfs_ext_is_unwritten x \<longleftrightarrow> EXT_INIT_MAX_LEN < ee_len x"

definition mlfs_ext_mark_unwritten :: "extent \<Rightarrow> extent" where
  "mlfs_ext_mark_unwritten x = x\<lparr>ee_len := ee_len x OR EXT_INIT_MAX_LEN\<rparr>"

definition mlfs_ext_mark_initialized :: "extent \<Rightarrow> extent" where
  "mlfs_ext_mark_initialized x = x\<lparr>ee_len := mlfs_ext_get_actual_len x\<rparr>"

definition mlfs_ext_store_pblock :: "nat \<Rightarrow> extent \<Rightarrow> extent" where
  "mlfs_ext_store_pblock pb x = x\<lparr>ee_start := pb mod 2 ^ 48\<rparr>"

text \<open>The assignment of a new length that keeps an unwritten extent unwritten.\<close>

definition set_len :: "bool \<Rightarrow> nat \<Rightarrow> extent \<Rightarrow> extent" where
  "set_len unwritten n x =
     (let x = x\<lparr>ee_len := n mod 2 ^ 16\<rparr> in if unwritten then mlfs_ext_mark_unwritten x else x)"

definition in_range :: "nat \<Rightarrow> nat \<Rightarrow> nat \<Rightarrow> bool" where
  "in_range b first len \<longleftrightarrow> first + len \<noteq> 0 \<and> first \<le> b \<and> b \<le> first + len - 1"

text \<open>
  The inode with the header and the entries of its root node. \<open>i_dirty\<close> tells that the inode is
  in the tree of dirty inodes.
\<close>

record kinode =
  i_type :: nat
  i_size :: nat
  i_deleting :: bool
  i_dirty :: bool
  eh_magic :: nat
  eh_max :: nat
  exts :: "extent list"

definition mark_dirty :: "kinode \<Rightarrow> kinode" where
  "mark_dirty ip = ip\<lparr>i_dirty := True\<rparr>"

text \<open>An inode has 48 bytes for extents of 12 bytes.\<close>

definition mlfs_ext_space_root :: nat where
  "mlfs_ext_space_root = (60 - 12) div 12"

definition mlfs_ext_tree_init :: "kinode \<Rightarrow> kinode" where
  "mlfs_ext_tree_init ip = mark_dirty (ip\<lparr>exts := [], eh_magic := MLFS_EXT_MAGIC, eh_max := mlfs_ext_space_root\<rparr>)"

section \<open>Searching\<close>

text \<open>The pointer \<open>r\<close> of the code is the entry before \<open>r\<close>.\<close>

function binsearch_loop :: "extent list \<Rightarrow> nat \<Rightarrow> nat \<Rightarrow> nat \<Rightarrow> nat" where
  "binsearch_loop xs block l r =
     (if l < r
      then
        let m = l + (r - 1 - l) div 2 in
        if block < ee_block (xs ! m) then binsearch_loop xs block l m else binsearch_loop xs block (m + 1) r
      else l)"
  by pat_completeness auto
termination by (relation "measure (\<lambda>(xs, block, l, r). r - l)") auto

declare binsearch_loop.simps [simp del]

definition mlfs_ext_binsearch :: "extent list \<Rightarrow> nat \<Rightarrow> nat option" where
  "mlfs_ext_binsearch xs block = (if xs = [] then None else Some (binsearch_loop xs block 1 (length xs) - 1))"

definition mlfs_ext_next_allocated_block :: "nat option \<Rightarrow> extent list \<Rightarrow> nat" where
  "mlfs_ext_next_allocated_block p_ext xs =
     (case p_ext of
        None \<Rightarrow> EXT_MAX_BLOCKS
      | Some i \<Rightarrow> if i \<noteq> length xs - 1 then ee_block (xs ! (i + 1)) else EXT_MAX_BLOCKS)"

section \<open>Merging and inserting\<close>

definition mlfs_can_extents_be_merged :: "extent \<Rightarrow> extent \<Rightarrow> bool" where
  "mlfs_can_extents_be_merged x y =
     (let m = mlfs_ext_get_actual_len x; n = mlfs_ext_get_actual_len y in
      if mlfs_ext_is_unwritten x \<noteq> mlfs_ext_is_unwritten y then False
      else if ee_block x + m \<noteq> ee_block y then False
      else if EXT_INIT_MAX_LEN < m + n then False
      else if mlfs_ext_is_unwritten x \<and> EXT_INIT_MAX_LEN - 1 < m + n then False
      else ee_start x + m = ee_start y)"

definition append_extent :: "extent \<Rightarrow> extent \<Rightarrow> extent" where
  "append_extent x y =
     set_len (mlfs_ext_is_unwritten x) (mlfs_ext_get_actual_len x + mlfs_ext_get_actual_len y) x"

definition prepend_extent :: "extent \<Rightarrow> extent \<Rightarrow> extent" where
  "prepend_extent y x =
     set_len (mlfs_ext_is_unwritten x) (mlfs_ext_get_actual_len x + mlfs_ext_get_actual_len y)
       (mlfs_ext_store_pblock (ee_start y) (x\<lparr>ee_block := ee_block y\<rparr>))"

function mlfs_ext_try_to_merge_right :: "nat \<Rightarrow> extent list \<Rightarrow> bool \<times> extent list" where
  "mlfs_ext_try_to_merge_right i xs =
     (if i + 1 < length xs \<and> mlfs_can_extents_be_merged (xs ! i) (xs ! (i + 1))
      then (True, snd (mlfs_ext_try_to_merge_right i
             (take i xs @ append_extent (xs ! i) (xs ! (i + 1)) # drop (i + 2) xs)))
      else (False, xs))"
  by pat_completeness auto
termination by (relation "measure (\<lambda>(i, xs). length xs)") auto

declare mlfs_ext_try_to_merge_right.simps [simp del]

definition mlfs_ext_try_to_merge :: "nat \<Rightarrow> extent list \<Rightarrow> extent list" where
  "mlfs_ext_try_to_merge i xs =
     (let (merge_done, xs) = (if 0 < i then mlfs_ext_try_to_merge_right (i - 1) xs else (False, xs)) in
      if merge_done then xs else snd (mlfs_ext_try_to_merge_right i xs))"

text \<open>
  The first part of \<open>mlfs_ext_insert_extent\<close>: the extent found, its right or its left neighbour
  grows by the new extent. The result is the position of the changed extent.
\<close>

definition absorb_extent :: "nat \<Rightarrow> extent \<Rightarrow> extent list \<Rightarrow> (nat \<times> extent list) option" where
  "absorb_extent i newext xs =
     (let right = i + 1 < length xs \<and>
            ee_block (xs ! i) + mlfs_ext_get_actual_len (xs ! i) < ee_block newext;
          k = (if right then i + 1
               else if 0 < i \<and> ee_block newext + mlfs_ext_get_actual_len newext < ee_block (xs ! i)
               then i - 1 else i);
          x = xs ! k in
      if \<not> right \<and> mlfs_can_extents_be_merged x newext then Some (k, xs[k := append_extent x newext])
      else if mlfs_can_extents_be_merged newext x then Some (k, xs[k := prepend_extent newext x])
      else None)"

text \<open>The second part: a new entry, when the node has room for it.\<close>

definition place_extent :: "nat option \<Rightarrow> extent \<Rightarrow> kinode \<Rightarrow> fault + nat \<times> extent list" where
  "place_extent p_ext newext ip =
     (let xs = exts ip; new = mlfs_ext_store_pblock (ee_start newext) newext in
      if length xs < eh_max ip
      then
        (case p_ext of
           None \<Rightarrow> Inr (0, new # xs)
         | Some i \<Rightarrow>
             if ee_block (xs ! i) < ee_block newext then Inr (i + 1, take (i + 1) xs @ new # drop (i + 1) xs)
             else if ee_block (xs ! i) = ee_block newext then Inl (Panic ''BUG_ON'')
             else Inr (i, take i xs @ new # drop i xs))
      else Inl (Beyond ''mlfs_ext_create_new_leaf''))"

definition mlfs_ext_insert_extent :: "bool \<Rightarrow> nat option \<Rightarrow> extent \<Rightarrow> kinode \<Rightarrow> fault + int \<times> kinode" where
  "mlfs_ext_insert_extent pre_io p_ext newext ip =
     (if mlfs_ext_get_actual_len newext = 0 then Inr (- EIO, ip)
      else
        bindF (case (case p_ext of Some i \<Rightarrow> if pre_io then None else absorb_extent i newext (exts ip) | None \<Rightarrow> None) of
                 Some r \<Rightarrow> Inr r
               | None \<Rightarrow> place_extent p_ext newext ip) (\<lambda>(nearex, xs).
          Inr (0, mark_dirty (ip\<lparr>exts := if pre_io then xs else mlfs_ext_try_to_merge nearex xs\<rparr>))))"

section \<open>Blocks from the allocator\<close>

text \<open>The superblock in memory as far as the extents change it.\<close>

record ext_sb =
  s_balloc :: super_block
  s_blk_bitmap :: block_bitmap
  used_blocks :: nat

text \<open>The result is the return value, the first block and the number of blocks.\<close>

definition mlfs_ext_alloc_blocks :: "alloc_type \<Rightarrow> nat \<Rightarrow> ext_sb \<Rightarrow> fault + int \<times> nat \<times> nat \<times> ext_sb" where
  "mlfs_ext_alloc_blocks a_type count sb =
     bindF (mlfs_new_blocks (s_balloc sb) count False a_type) (\<lambda>(ret, blockp, bal).
       let block = (case blockp of None \<Rightarrow> 0 | Some b \<Rightarrow> b) in
       if ret > 0
       then
         Inr (ret, block, nat ret,
           \<lparr>s_balloc = bal, s_blk_bitmap = bitmap_bits_set_range (s_blk_bitmap sb) block (nat ret),
            used_blocks = uadd64 (used_blocks sb) (nat ret)\<rparr>)
       else if ret = - ENOSPC then Inl (Beyond ''try_migrate_blocks'')
       else Inr (ret, block, count, sb\<lparr>s_balloc := bal\<rparr>))"

text \<open>\<open>mal\<close> is the address \<open>mlfs_alloc\<close> returns for a range node.\<close>

definition mlfs_free_blocks :: "(node_store \<Rightarrow> nat option) \<Rightarrow> nat \<Rightarrow> nat \<Rightarrow> ext_sb \<Rightarrow> fault + ext_sb" where
  "mlfs_free_blocks mal block count sb =
     bindF (mlfs_free_blocks_node (mal (range_nodes (s_balloc sb))) (s_balloc sb) block (int count) False) (\<lambda>(ret, bal).
       if ret \<noteq> 0 then Inl (Assert ''ret == 0'')
       else if \<not> count < used_blocks sb then Inl (Assert ''sb->used_blocks > count'')
       else Inr \<lparr>s_balloc = bal, s_blk_bitmap = bitmap_bits_free (s_blk_bitmap sb) block count,
                 used_blocks = usub64 (used_blocks sb) count\<rparr>)"

section \<open>Splitting and removing\<close>

text \<open>
  \<open>unwrit1\<close> and \<open>unwrit2\<close> are the bits of \<open>split_flag\<close>; the callers do not set
  \<open>MLFS_EXT_MAY_ZEROOUT\<close>.
\<close>

definition mlfs_split_extent_at :: "nat \<Rightarrow> nat \<Rightarrow> bool \<Rightarrow> bool \<Rightarrow> bool \<Rightarrow> kinode \<Rightarrow> fault + int \<times> kinode" where
  "mlfs_split_extent_at i split unwrit1 unwrit2 pre_io ip =
     (let xs = exts ip; x = xs ! i; n = mlfs_ext_get_actual_len x in
      if split < ee_block x \<or> split \<ge> ee_block x + n then Inl (Panic ''BUG_ON'')
      else if split = ee_block x
      then
        let xs = xs[i := if unwrit2 then mlfs_ext_mark_unwritten x else mlfs_ext_mark_initialized x] in
        Inr (0, mark_dirty (ip\<lparr>exts := if pre_io then xs else mlfs_ext_try_to_merge i xs\<rparr>))
      else
        let newext = set_len unwrit2 (n - (split - ee_block x))
              \<lparr>ee_block = split, ee_len = 0, ee_start = (split - ee_block x + ee_start x) mod 2 ^ 48\<rparr>;
            ip = mark_dirty (ip\<lparr>exts := xs[i := set_len unwrit1 (split - ee_block x) x]\<rparr>) in
        bindF (mlfs_ext_insert_extent pre_io (Some i) newext ip) (\<lambda>(err, ip).
          if err \<noteq> 0 then Inr (err, mark_dirty (ip\<lparr>exts := (exts ip)[i := (exts ip ! i)\<lparr>ee_len := ee_len x\<rparr>]\<rparr>))
          else Inr (0, ip)))"

definition mlfs_force_split_extent_at :: "nat \<Rightarrow> nat \<Rightarrow> kinode \<Rightarrow> fault + int \<times> kinode" where
  "mlfs_force_split_extent_at i lblk ip =
     (let unwritten = mlfs_ext_is_unwritten (exts ip ! i) in
      mlfs_split_extent_at i lblk unwritten unwritten True ip)"

definition mlfs_remove_blocks :: "(node_store \<Rightarrow> nat option) \<Rightarrow> extent \<Rightarrow> nat \<Rightarrow> nat \<Rightarrow> ext_sb \<Rightarrow> fault + ext_sb" where
  "mlfs_remove_blocks mal x a b sb =
     (let n = mlfs_ext_get_actual_len x in
      if ee_block x \<le> a \<and> b = ee_block x + n - 1
      then
        let num = ee_block x + n - a; start = ee_start x + n - num in
        mlfs_free_blocks mal start num sb
      else Inr sb)"

text \<open>
  The loop of \<open>mlfs_ext_rm_leaf\<close> from the last extent down; the first argument is the number
  of extents up to the current one.
\<close>

primrec rm_leaf_loop ::
  "nat \<Rightarrow> (node_store \<Rightarrow> nat option) \<Rightarrow> nat \<Rightarrow> nat \<Rightarrow> kinode \<Rightarrow> ext_sb \<Rightarrow> fault + int \<times> kinode \<times> ext_sb" where
  "rm_leaf_loop 0 mal start fin ip sb = Inr (0, ip, sb)"
| "rm_leaf_loop (Suc i) mal start fin ip sb =
     (let xs = exts ip; x = xs ! i; len = mlfs_ext_get_actual_len x; unwritten = mlfs_ext_is_unwritten x;
          a = (if ee_block x > start then ee_block x else start);
          b = (if ee_block x + len - 1 < fin then ee_block x + len - 1 else fin) in
      if \<not> ee_block x + len > start then Inr (0, ip, sb)
      else if fin < ee_block x then rm_leaf_loop i mal start fin ip sb
      else if b \<noteq> ee_block x + len - 1 then Inr (- EFSCORRUPTED, ip, sb)
      else
        bindF (mlfs_remove_blocks mal x a b sb) (\<lambda>sb.
          let num = (if a \<noteq> ee_block x then a - ee_block x else 0);
              x = set_len (unwritten \<and> num \<noteq> 0) num (if num = 0 then mlfs_ext_store_pblock 0 x else x);
              xs = (if num \<noteq> 0 then xs[i := x]
                    else if fin \<noteq> EXT_MAX_BLOCKS - 1 then take i xs @ drop (i + 1) xs
                    else butlast (xs[i := x])) in
          rm_leaf_loop i mal start fin (mark_dirty (ip\<lparr>exts := xs\<rparr>)) sb))"

definition mlfs_ext_rm_leaf ::
  "(node_store \<Rightarrow> nat option) \<Rightarrow> nat \<Rightarrow> nat \<Rightarrow> kinode \<Rightarrow> ext_sb \<Rightarrow> fault + int \<times> kinode \<times> ext_sb" where
  "mlfs_ext_rm_leaf mal start fin ip sb = rm_leaf_loop (length (exts ip)) mal start fin ip sb"

text \<open>
  When the range goes up to the last possible block the code uses a pointer that it has not
  initialised.
\<close>

definition mlfs_ext_remove_space ::
  "(node_store \<Rightarrow> nat option) \<Rightarrow> nat \<Rightarrow> nat \<Rightarrow> kinode \<Rightarrow> ext_sb \<Rightarrow> fault + int \<times> kinode \<times> ext_sb" where
  "mlfs_ext_remove_space mal start fin ip sb =
     (if \<not> fin < EXT_MAX_BLOCKS - 1 then Inl NullDeref
      else
        (case mlfs_ext_binsearch (exts ip) fin of
           None \<Rightarrow> Inr (0, ip, sb)
         | Some i \<Rightarrow>
             let x = exts ip ! i; ex_end = ee_block x + mlfs_ext_get_actual_len x - 1 in
             if ee_block x + mlfs_ext_get_actual_len x = 0 then Inr (0, ip, sb)
             else
               bindF (if ee_block x \<le> fin \<and> fin < ex_end then mlfs_force_split_extent_at i (fin + 1) ip
                      else Inr (0, ip)) (\<lambda>(err, ip).
                 if err < 0 then Inr (err, ip, sb)
                 else
                   bindF (mlfs_ext_rm_leaf mal start fin ip sb) (\<lambda>(err, ip, sb).
                     if exts ip = [] then Inr (0, mark_dirty (ip\<lparr>eh_max := mlfs_ext_space_root\<rparr>), sb)
                     else Inr (err, ip, sb)))))"

definition mlfs_ext_truncate ::
  "(node_store \<Rightarrow> nat option) \<Rightarrow> nat \<Rightarrow> nat \<Rightarrow> kinode \<Rightarrow> ext_sb \<Rightarrow> fault + int \<times> kinode \<times> ext_sb" where
  "mlfs_ext_truncate mal start fin ip sb =
     bindF (mlfs_ext_remove_space mal start fin ip sb) (\<lambda>(ret, ip, sb).
       Inr (ret, if ret = 0 then mark_dirty ip else ip, sb))"

section \<open>Mapping file blocks\<close>

definition mlfs_ext_convert_to_initialized :: "nat \<Rightarrow> nat \<Rightarrow> nat \<Rightarrow> kinode \<Rightarrow> fault + int \<times> kinode" where
  "mlfs_ext_convert_to_initialized i split blocks ip =
     (let x = exts ip ! i in
      if \<not> ee_block x \<le> split then Inl (Assert ''ee_block <= split'')
      else if split + blocks = ee_block x + mlfs_ext_get_actual_len x
      then mlfs_split_extent_at i split True False False ip
      else if ee_block x = split then mlfs_split_extent_at i (split + blocks) False True False ip
      else
        bindF (mlfs_split_extent_at i (split + blocks) True True False ip) (\<lambda>(err, ip).
          if err = 0 then mlfs_split_extent_at i split True False False ip else Inr (err, ip)))"

text \<open>
  \<open>mlfs_ext_get_blocks\<close> with the flag \<open>MLFS_GET_BLOCKS_CREATE\<close> and no flag in the map, as the
  digest calls it. The result is the return value and \<open>m_pblk\<close>.
\<close>

definition mlfs_ext_get_blocks ::
  "(node_store \<Rightarrow> nat option) \<Rightarrow> nat \<Rightarrow> nat \<Rightarrow> kinode \<Rightarrow> ext_sb \<Rightarrow> fault + int \<times> nat \<times> kinode \<times> ext_sb" where
  "mlfs_ext_get_blocks mal m_lblk m_len ip sb =
     (let p_ext = mlfs_ext_binsearch (exts ip) m_lblk;
          hit = (case p_ext of
                   None \<Rightarrow> None
                 | Some i \<Rightarrow>
                     if in_range m_lblk (ee_block (exts ip ! i)) (mlfs_ext_get_actual_len (exts ip ! i))
                     then Some (i, exts ip ! i) else None) in
      case hit of
        Some (i, x) \<Rightarrow>
          let allocated = mlfs_ext_get_actual_len x + ee_block x - m_lblk; newblock = m_lblk - ee_block x + ee_start x in
          bindF (if mlfs_ext_is_unwritten x then mlfs_ext_convert_to_initialized i m_lblk allocated ip else Inr (0, ip)) (\<lambda>(err, ip).
            if err \<noteq> 0 then Inr (err, 0, ip, sb) else Inr (int (min allocated m_len), newblock, ip, sb))
      | None \<Rightarrow>
          let nxt = mlfs_ext_next_allocated_block p_ext (exts ip) in
          if nxt \<le> m_lblk then Inl (Panic ''BUG_ON'')
          else
            bindF (mlfs_ext_alloc_blocks DATA (min (nxt - m_lblk) m_len) sb) (\<lambda>(err, newblock, allocated, sb).
              if newblock = 0 then Inr (if err \<noteq> 0 then err else int allocated, 0, ip, sb)
              else
                let newex = \<lparr>ee_block = m_lblk, ee_len = allocated mod 2 ^ 16, ee_start = newblock mod 2 ^ 48\<rparr> in
                bindF (mlfs_ext_insert_extent False p_ext newex ip) (\<lambda>(err, ip).
                  if err \<noteq> 0
                  then bindF (mlfs_free_blocks mal (ee_start newex) (ee_len newex) sb) (\<lambda>sb. Inr (err, 0, ip, sb))
                  else Inr (int (min allocated m_len), if mlfs_ext_is_unwritten newex then 0 else ee_start newex,
                         mark_dirty ip, sb))))"

section \<open>What the extents of a file stand for\<close>

text \<open>The pairs of a file block and the device block it is mapped to.\<close>

definition ext_pairs :: "extent \<Rightarrow> (nat \<times> nat) set" where
  "ext_pairs x = (\<lambda>k. (ee_block x + k, ee_start x + k)) ` {..<ee_len x}"

definition pairs :: "extent list \<Rightarrow> (nat \<times> nat) set" where
  "pairs xs = (\<Union>x\<in>set xs. ext_pairs x)"

text \<open>The extents of the digest are never unwritten.\<close>

definition ext_ok :: "extent \<Rightarrow> bool" where
  "ext_ok x \<longleftrightarrow> 0 < ee_len x \<and> ee_len x \<le> EXT_INIT_MAX_LEN \<and> 0 < ee_start x \<and> ee_start x + ee_len x \<le> 2 ^ 48"

definition lies_before :: "extent \<Rightarrow> extent \<Rightarrow> bool" where
  "lies_before x y \<longleftrightarrow> ee_block x + ee_len x \<le> ee_block y"

definition leaf_ok :: "extent list \<Rightarrow> bool" where
  "leaf_ok xs \<longleftrightarrow> sorted_wrt lies_before xs \<and> (\<forall>x\<in>set xs. ext_ok x)"

definition apart :: "extent \<Rightarrow> extent list \<Rightarrow> bool" where
  "apart y xs \<longleftrightarrow> (\<forall>x\<in>set xs. lies_before x y \<or> lies_before y x)"

section \<open>Lemmas on extents\<close>

lemma pairs_simps [simp]:
  "pairs [] = {}" "pairs (x # xs) = ext_pairs x \<union> pairs xs" "pairs (xs @ ys) = pairs xs \<union> pairs ys"
  by (auto simp: pairs_def)

lemma ext_pairs_iff: "(j, p) \<in> ext_pairs x \<longleftrightarrow> ee_block x \<le> j \<and> j < ee_block x + ee_len x \<and> p = ee_start x + (j - ee_block x)"
  by (auto simp: ext_pairs_def image_iff intro!: bexI [of _ "j - ee_block x"])

lemma ext_ok_simps:
  assumes "ext_ok x"
  shows "mlfs_ext_get_actual_len x = ee_len x" "\<not> mlfs_ext_is_unwritten x"
  using assms by (simp_all add: ext_ok_def mlfs_ext_get_actual_len_def mlfs_ext_is_unwritten_def)

lemma leaf_ok_simps [simp]:
  "leaf_ok []"
  "leaf_ok (x # xs) \<longleftrightarrow> ext_ok x \<and> (\<forall>y\<in>set xs. lies_before x y) \<and> leaf_ok xs"
  "leaf_ok (xs @ ys) \<longleftrightarrow> leaf_ok xs \<and> leaf_ok ys \<and> (\<forall>x\<in>set xs. \<forall>y\<in>set ys. lies_before x y)"
  by (auto simp: leaf_ok_def sorted_wrt_append)

lemma split_at: "i < length xs \<Longrightarrow> xs = take i xs @ xs ! i # drop (i + 1) xs"
  by (simp add: id_take_nth_drop)

lemma leaf_ok_nth: "leaf_ok xs \<Longrightarrow> i < length xs \<Longrightarrow> ext_ok (xs ! i)"
  by (simp add: leaf_ok_def)

lemma leaf_before: "leaf_ok xs \<Longrightarrow> i < j \<Longrightarrow> j < length xs \<Longrightarrow> lies_before (xs ! i) (xs ! j)"
  by (simp add: leaf_ok_def sorted_wrt_iff_nth_less)

lemma leaf_block_less: "leaf_ok xs \<Longrightarrow> i < j \<Longrightarrow> j < length xs \<Longrightarrow> ee_block (xs ! i) < ee_block (xs ! j)"
  using leaf_before [of xs i j] leaf_ok_nth [of xs i] by (simp add: lies_before_def ext_ok_def)

section \<open>Binary search\<close>

lemma binsearch_step:
  assumes "l < r" and "m = l + (r - 1 - l) div 2"
  shows "binsearch_loop xs block l r =
    (if block < ee_block (xs ! m) then binsearch_loop xs block l m else binsearch_loop xs block (m + 1) r)"
  using assms by (subst binsearch_loop.simps) (simp add: Let_def)

lemma binsearch_stop: "\<not> l < r \<Longrightarrow> binsearch_loop xs block l r = l"
  by (subst binsearch_loop.simps) simp

lemma binsearch_loop_range:
  assumes "l \<le> r"
  shows "l \<le> binsearch_loop xs block l r \<and> binsearch_loop xs block l r \<le> r"
  using assms
proof (induction xs block l r rule: binsearch_loop.induct)
  case (1 xs block l r)
  define m where "m = l + (r - 1 - l) div 2"
  show ?case
  proof (cases "l < r")
    case True
    then have m: "l \<le> m" "m < r" by (auto simp: m_def)
    show ?thesis
      using 1(1) [OF True m_def] 1(2) [OF True m_def] m unfolding binsearch_step [OF True m_def] by auto
  qed (use 1(3) in \<open>simp add: binsearch_stop\<close>)
qed

lemma binsearch_loop_ok:
  assumes "leaf_ok xs" and "1 \<le> l" and "l \<le> r" and "r \<le> length xs"
    and "\<And>j. 1 \<le> j \<Longrightarrow> j < l \<Longrightarrow> ee_block (xs ! j) \<le> block" and "\<And>j. r \<le> j \<Longrightarrow> j < length xs \<Longrightarrow> block < ee_block (xs ! j)"
  shows "(\<forall>j. 1 \<le> j \<and> j < binsearch_loop xs block l r \<longrightarrow> ee_block (xs ! j) \<le> block) \<and>
    (\<forall>j. binsearch_loop xs block l r \<le> j \<and> j < length xs \<longrightarrow> block < ee_block (xs ! j))"
  using assms
proof (induction xs block l r rule: binsearch_loop.induct)
  case (1 xs block l r)
  define m where "m = l + (r - 1 - l) div 2"
  show ?case
  proof (cases "l < r")
    case True
    then have m: "l \<le> m" "m < r" by (auto simp: m_def)
    have less: "ee_block (xs ! i) \<le> ee_block (xs ! j)" if "i \<le> j" "j < length xs" for i j
      using leaf_block_less [OF 1(3), of i j] that by (cases "i = j") auto
    show ?thesis
    proof (cases "block < ee_block (xs ! m)")
      case lt: True
      have "block < ee_block (xs ! j)" if "m \<le> j" "j < length xs" for j
        using less [OF that] lt by simp
      from 1(1) [OF True m_def lt 1(3,4) m(1) _ 1(7) this] m 1(6) lt show ?thesis
        unfolding binsearch_step [OF True m_def] by simp
    next
      case ge: False
      have "ee_block (xs ! j) \<le> block" if "1 \<le> j" "j < m + 1" for j
        using less [of j m] that ge m 1(6) by simp
      from 1(2) [OF True m_def ge 1(3) _ _ 1(6) this 1(8)] m ge show ?thesis
        unfolding binsearch_step [OF True m_def] by simp
    qed
  qed (use 1(5,7,8) in \<open>simp add: binsearch_stop\<close>)
qed

text \<open>The entry that is found is the last one that does not start behind the block, or the first one.\<close>

lemma binsearch_ok:
  assumes "leaf_ok xs" and "mlfs_ext_binsearch xs block = Some i"
  shows "i < length xs" "\<And>j. 0 < j \<Longrightarrow> j \<le> i \<Longrightarrow> ee_block (xs ! j) \<le> block"
    "\<And>j. i < j \<Longrightarrow> j < length xs \<Longrightarrow> block < ee_block (xs ! j)"
proof -
  have ne: "1 \<le> length xs" using assms(2) by (cases xs) (auto simp: mlfs_ext_binsearch_def)
  let ?r = "binsearch_loop xs block 1 (length xs)"
  have i: "i = ?r - 1" using assms(2) by (simp add: mlfs_ext_binsearch_def split: if_splits)
  have r: "1 \<le> ?r" "?r \<le> length xs" using binsearch_loop_range [OF ne] by auto
  have ok: "(\<forall>j. 1 \<le> j \<and> j < ?r \<longrightarrow> ee_block (xs ! j) \<le> block) \<and> (\<forall>j. ?r \<le> j \<and> j < length xs \<longrightarrow> block < ee_block (xs ! j))"
    by (rule binsearch_loop_ok [OF assms(1) _ ne]) auto
  show "i < length xs" using i r by simp
  show "ee_block (xs ! j) \<le> block" if "0 < j" "j \<le> i" for j using ok that i r by auto
  show "block < ee_block (xs ! j)" if "i < j" "j < length xs" for j using ok that i r by auto
qed

section \<open>Merging keeps what is mapped\<close>

lemma can_merge_iff:
  assumes "ext_ok x" "ext_ok y"
  shows "mlfs_can_extents_be_merged x y \<longleftrightarrow>
    ee_block x + ee_len x = ee_block y \<and> ee_len x + ee_len y \<le> EXT_INIT_MAX_LEN \<and> ee_start x + ee_len x = ee_start y"
  using assms by (auto simp: mlfs_can_extents_be_merged_def ext_ok_simps Let_def)

lemma append_extent_ok:
  assumes "ext_ok x" "ext_ok y" "mlfs_can_extents_be_merged x y"
  shows "append_extent x y = x\<lparr>ee_len := ee_len x + ee_len y\<rparr>" "ext_ok (append_extent x y)"
    "prepend_extent x y = append_extent x y"
    "ext_pairs (append_extent x y) = ext_pairs x \<union> ext_pairs y"
proof -
  note m = assms(3) [unfolded can_merge_iff [OF assms(1,2)]]
  show eq: "append_extent x y = x\<lparr>ee_len := ee_len x + ee_len y\<rparr>"
    using assms(1,2) m by (simp add: append_extent_def set_len_def ext_ok_simps)
  show "ext_ok (append_extent x y)" using assms(1,2) m unfolding eq by (simp add: ext_ok_def)
  show "prepend_extent x y = append_extent x y"
    using assms(1,2) m unfolding eq
    by (simp add: prepend_extent_def set_len_def ext_ok_simps mlfs_ext_store_pblock_def ext_ok_def add.commute)
  show "ext_pairs (append_extent x y) = ext_pairs x \<union> ext_pairs y"
    unfolding eq using m by (auto simp: ext_pairs_iff)
qed

lemma merge_right_ok:
  "leaf_ok xs \<Longrightarrow> leaf_ok (snd (mlfs_ext_try_to_merge_right i xs)) \<and> pairs (snd (mlfs_ext_try_to_merge_right i xs)) = pairs xs"
proof (induction i xs rule: mlfs_ext_try_to_merge_right.induct)
  case (1 i xs)
  show ?case
  proof (cases "i + 1 < length xs \<and> mlfs_can_extents_be_merged (xs ! i) (xs ! (i + 1))")
    case True
    define x y as bs where d: "x = xs ! i" "y = xs ! (i + 1)" "as = take i xs" "bs = drop (i + 2) xs"
    have xs: "xs = as @ x # y # bs" using True split_at [of i xs] split_at [of 0 "drop (i + 1) xs"] by (simp add: d)
    have "ext_ok x" "ext_ok y" "mlfs_can_extents_be_merged x y" using True "1.prems" by (simp_all add: leaf_ok_nth d)
    note m = append_extent_ok [OF this] this
    have ok: "leaf_ok (as @ append_extent x y # bs)" "pairs (as @ append_extent x y # bs) = pairs xs"
      using "1.prems" m unfolding xs by (auto simp: lies_before_def can_merge_iff)
    have ih: "leaf_ok (as @ append_extent x y # bs) \<Longrightarrow>
        leaf_ok (snd (mlfs_ext_try_to_merge_right i (as @ append_extent x y # bs))) \<and>
        pairs (snd (mlfs_ext_try_to_merge_right i (as @ append_extent x y # bs))) = pairs (as @ append_extent x y # bs)"
      using "1.IH" [OF True] unfolding d .
    show ?thesis using ih ok True by (subst (1 2) mlfs_ext_try_to_merge_right.simps) (simp add: d)
  next
    case False
    then have "mlfs_ext_try_to_merge_right i xs = (False, xs)" by (subst mlfs_ext_try_to_merge_right.simps) simp
    then show ?thesis using 1 by simp
  qed
qed

lemma merge_ok:
  assumes "leaf_ok xs"
  shows "leaf_ok (mlfs_ext_try_to_merge i xs)" "pairs (mlfs_ext_try_to_merge i xs) = pairs xs"
proof -
  obtain d ys where ys: "(if 0 < i then mlfs_ext_try_to_merge_right (i - 1) xs else (False, xs)) = (d, ys)" by fastforce
  then have "leaf_ok ys" "pairs ys = pairs xs"
    using merge_right_ok [OF assms, of "i - 1"] assms by (auto split: if_splits)
  then show "leaf_ok (mlfs_ext_try_to_merge i xs)" "pairs (mlfs_ext_try_to_merge i xs) = pairs xs"
    using merge_right_ok [of ys i] by (simp_all add: mlfs_ext_try_to_merge_def ys)
qed

section \<open>Insertion\<close>

text \<open>A new extent goes between those before it and those behind it.\<close>

lemma insert_between_ok:
  assumes "leaf_ok (as @ bs)" "ext_ok y" "\<forall>x\<in>set as. lies_before x y" "\<forall>x\<in>set bs. lies_before y x"
  shows "leaf_ok (as @ y # bs)" "pairs (as @ y # bs) = pairs (as @ bs) \<union> ext_pairs y"
  using assms by auto

lemma grow_ok:
  assumes "leaf_ok xs" "ext_ok y" "apart y xs" "k < length xs"
  shows "mlfs_can_extents_be_merged (xs ! k) y \<Longrightarrow>
      leaf_ok (xs[k := append_extent (xs ! k) y]) \<and> pairs (xs[k := append_extent (xs ! k) y]) = pairs xs \<union> ext_pairs y"
    and "mlfs_can_extents_be_merged y (xs ! k) \<Longrightarrow>
      leaf_ok (xs[k := prepend_extent y (xs ! k)]) \<and> pairs (xs[k := prepend_extent y (xs ! k)]) = pairs xs \<union> ext_pairs y"
proof -
  define x as bs where d: "x = xs ! k" "as = take k xs" "bs = drop (k + 1) xs"
  have xs: "xs = as @ x # bs" using split_at [OF assms(4)] by (simp add: d)
  have len: "length as = k" using assms(4) by (simp add: d)
  have upd: "xs[k := z] = as @ z # bs" "xs ! k = x" for z using xs len by (simp_all add: list_update_append nth_append)
  have x: "ext_ok x" using assms(1) xs by simp
  have all: "leaf_ok (as @ x # bs)" "pairs xs = pairs as \<union> ext_pairs x \<union> pairs bs"
    using assms(1) by (auto simp: xs)
  have near: "lies_before x b" "ext_ok b" "lies_before b y \<or> lies_before y b" if "b \<in> set bs" for b
    using assms(1,3) that unfolding xs by (auto simp: leaf_ok_def apart_def sorted_wrt_append)
  have near': "lies_before b x" "ext_ok b" "lies_before b y \<or> lies_before y b" if "b \<in> set as" for b
    using assms(1,3) that unfolding xs by (auto simp: leaf_ok_def apart_def sorted_wrt_append)
  { assume "mlfs_can_extents_be_merged (xs ! k) y"
    then have m: "mlfs_can_extents_be_merged x y" by (simp add: upd)
    note a = append_extent_ok [OF x assms(2) m] m [unfolded can_merge_iff [OF x assms(2)]]
    have "lies_before (append_extent x y) b" if "b \<in> set bs" for b
      using near [OF that] a(5) assms(2) by (auto simp: lies_before_def a(1) ext_ok_def)
    moreover have "lies_before b (append_extent x y)" if "b \<in> set as" for b
      using near' [OF that] by (simp add: lies_before_def a(1))
    ultimately show "leaf_ok (xs[k := append_extent (xs ! k) y]) \<and> pairs (xs[k := append_extent (xs ! k) y]) = pairs xs \<union> ext_pairs y"
      using all(1) a(2,4) unfolding upd all(2) by auto }
  { assume "mlfs_can_extents_be_merged y (xs ! k)"
    then have m: "mlfs_can_extents_be_merged y x" by (simp add: upd)
    note a = append_extent_ok [OF assms(2) x m] m [unfolded can_merge_iff [OF assms(2) x]]
    have "lies_before (append_extent y x) b" if "b \<in> set bs" for b
      using near [OF that] a(5) by (auto simp: lies_before_def a(1) ext_ok_def)
    moreover have "lies_before b (append_extent y x)" if "b \<in> set as" for b
      using near' [OF that] a(5) assms(2) by (auto simp: lies_before_def a(1) ext_ok_def)
    ultimately show "leaf_ok (xs[k := prepend_extent y (xs ! k)]) \<and> pairs (xs[k := prepend_extent y (xs ! k)]) = pairs xs \<union> ext_pairs y"
      using all(1) a(2,4) unfolding upd a(3) all(2) by auto }
qed

lemma absorb_ok:
  assumes "leaf_ok xs" "ext_ok y" "apart y xs" "i < length xs" "absorb_extent i y xs = Some (k, ys)"
  shows "leaf_ok ys \<and> pairs ys = pairs xs \<union> ext_pairs y"
  using assms grow_ok [OF assms(1-3)] by (auto simp: absorb_extent_def Let_def split: if_splits)

definition near :: "nat option \<Rightarrow> nat \<Rightarrow> extent list \<Rightarrow> bool" where
  "near p_ext block xs \<longleftrightarrow>
     (case p_ext of
        None \<Rightarrow> xs = []
      | Some i \<Rightarrow> i < length xs \<and> (\<forall>j. 0 < j \<and> j \<le> i \<longrightarrow> ee_block (xs ! j) \<le> block) \<and>
          (\<forall>j. i < j \<and> j < length xs \<longrightarrow> block < ee_block (xs ! j)))"

lemma binsearch_near: "leaf_ok xs \<Longrightarrow> near (mlfs_ext_binsearch xs block) block xs"
  using binsearch_ok [of xs block] by (cases "mlfs_ext_binsearch xs block") (auto simp: near_def mlfs_ext_binsearch_def split: if_splits)

lemma apart_cases:
  assumes "apart y xs" "ext_ok y" "x \<in> set xs" "ext_ok x"
  shows "ee_block x \<le> ee_block y \<Longrightarrow> lies_before x y" "ee_block y \<le> ee_block x \<Longrightarrow> lies_before y x" "ee_block x \<noteq> ee_block y"
  using assms by (fastforce simp: apart_def lies_before_def ext_ok_def)+

lemma place_ok:
  assumes "leaf_ok (exts ip)" "ext_ok y" "apart y (exts ip)" "near p_ext (ee_block y) (exts ip)" "length (exts ip) < eh_max ip"
  shows "\<exists>k ys. place_extent p_ext y ip = Inr (k, ys) \<and> leaf_ok ys \<and> pairs ys = pairs (exts ip) \<union> ext_pairs y \<and>
    set ys = insert y (set (exts ip))"
proof -
  let ?xs = "exts ip"
  have y: "mlfs_ext_store_pblock (ee_start y) y = y" using assms(2) by (simp add: mlfs_ext_store_pblock_def ext_ok_def)
  show ?thesis
  proof (cases p_ext)
    case None
    then show ?thesis using assms y by (simp add: place_extent_def near_def)
  next
    case (Some i)
    then have i: "i < length ?xs" "\<And>j. 0 < j \<Longrightarrow> j \<le> i \<Longrightarrow> ee_block (?xs ! j) \<le> ee_block y"
      "\<And>j. i < j \<Longrightarrow> j < length ?xs \<Longrightarrow> ee_block y < ee_block (?xs ! j)" using assms(4) by (auto simp: near_def)
    have nth: "ee_block (?xs ! j) \<le> ee_block y \<Longrightarrow> lies_before (?xs ! j) y" "ee_block y \<le> ee_block (?xs ! j) \<Longrightarrow> lies_before y (?xs ! j)"
      "ee_block (?xs ! j) \<noteq> ee_block y" if "j < length ?xs" for j
      using apart_cases [OF assms(3,2) nth_mem [OF that] leaf_ok_nth [OF assms(1) that]] by auto
    define k where "k = (if ee_block (?xs ! i) < ee_block y then i + 1 else i)"
    have "0 < i \<Longrightarrow> k = i + 1" using i(2) [of i] nth(3) [OF i(1)] by (auto simp: k_def)
    then have "ee_block (?xs ! j) \<le> ee_block y" if "j < k" for j
      using that i(1) i(2) [of i] leaf_block_less [OF assms(1), of j i]
      by (cases "j = i"; cases "i = 0") (auto simp: k_def split: if_splits)
    then have lo: "\<forall>x\<in>set (take k ?xs). lies_before x y"
      using nth(1) by (auto simp: in_set_conv_nth)
    have "ee_block y \<le> ee_block (?xs ! j)" if "k \<le> j" "j < length ?xs" for j
      using that i(1) i(3) [of j] by (cases "j = i") (auto simp: k_def split: if_splits)
    then have hi: "\<forall>x\<in>set (drop k ?xs). lies_before y x"
      using nth(2) by (auto simp: in_set_conv_nth)
    have "place_extent p_ext y ip = Inr (k, take k ?xs @ y # drop k ?xs)"
      using assms(5) nth(3) [OF i(1)]
      by (cases "ee_block (?xs ! i) < ee_block y") (simp_all only: place_extent_def k_def Let_def y Some option.case if_True if_False refl)
    moreover have "leaf_ok (take k ?xs @ y # drop k ?xs)" "pairs (take k ?xs @ y # drop k ?xs) = pairs ?xs \<union> ext_pairs y"
      by (rule insert_between_ok [of "take k ?xs" "drop k ?xs", unfolded append_take_drop_id, OF assms(1,2) lo hi])+
    moreover have "set (take k ?xs @ y # drop k ?xs) = insert y (set ?xs)"
      by (metis append_take_drop_id list.simps(15) set_append Un_insert_right)
    ultimately show ?thesis by blast
  qed
qed

lemma insert_extent_ok:
  assumes "leaf_ok (exts ip)" "ext_ok y" "apart y (exts ip)" "near p_ext (ee_block y) (exts ip)"
  shows "(\<exists>xs. mlfs_ext_insert_extent pre_io p_ext y ip = Inr (0, mark_dirty (ip\<lparr>exts := xs\<rparr>)) \<and> leaf_ok xs \<and>
      pairs xs = pairs (exts ip) \<union> ext_pairs y) \<or>
    mlfs_ext_insert_extent pre_io p_ext y ip = Inl (Beyond ''mlfs_ext_create_new_leaf'') \<and> eh_max ip \<le> length (exts ip)"
proof -
  have y: "mlfs_ext_get_actual_len y \<noteq> 0" using assms(2) by (simp add: ext_ok_simps) (simp add: ext_ok_def)
  let ?a = "case p_ext of Some i \<Rightarrow> if pre_io then None else absorb_extent i y (exts ip) | None \<Rightarrow> None"
  have "(\<exists>k ys. (case ?a of Some r \<Rightarrow> Inr r | None \<Rightarrow> place_extent p_ext y ip) = Inr (k, ys) \<and> leaf_ok ys \<and>
      pairs ys = pairs (exts ip) \<union> ext_pairs y) \<or>
    (case ?a of Some r \<Rightarrow> Inr r | None \<Rightarrow> place_extent p_ext y ip) = Inl (Beyond ''mlfs_ext_create_new_leaf'') \<and>
      eh_max ip \<le> length (exts ip)"
  proof (cases ?a)
    case None
    then show ?thesis using place_ok [OF assms] by (cases "length (exts ip) < eh_max ip") (auto simp: place_extent_def)
  next
    case (Some r)
    then obtain i k ys where "p_ext = Some i" "absorb_extent i y (exts ip) = Some (k, ys)" "r = (k, ys)"
      by (cases r) (auto split: option.splits if_splits)
    with Some show ?thesis using absorb_ok [OF assms(1-3), of i k ys] assms(4) by (auto simp: near_def)
  qed
  then show ?thesis
  proof (elim disjE exE conjE)
    fix k ys
    assume ys: "leaf_ok ys" "pairs ys = pairs (exts ip) \<union> ext_pairs y"
      and run: "(case ?a of Some r \<Rightarrow> Inr r | None \<Rightarrow> place_extent p_ext y ip) = Inr (k, ys)"
    show ?thesis
      using ys merge_ok [OF ys(1), of k] y
      by (intro disjI1 exI [of _ "if pre_io then ys else mlfs_ext_try_to_merge k ys"]) (simp add: mlfs_ext_insert_extent_def run)
  qed (simp add: mlfs_ext_insert_extent_def y)
qed

section \<open>Blocks of a file and free blocks\<close>

abbreviation free_of :: "ext_sb \<Rightarrow> nat set" where
  "free_of sb \<equiv> sb_free (s_balloc sb)"

definition fsb_ok :: "ext_sb \<Rightarrow> bool" where
  "fsb_ok sb \<longleftrightarrow> sb_ok (s_balloc sb) \<and> 0 \<notin> free_of sb \<and> free_of sb \<subseteq> {..<2 ^ 48}"

abbreviation blocks_of :: "extent list \<Rightarrow> nat set" where
  "blocks_of xs \<equiv> snd ` pairs xs"

text \<open>The blocks of a file are different blocks, and none of them is free.\<close>

definition file_ok :: "kinode \<Rightarrow> ext_sb \<Rightarrow> bool" where
  "file_ok ip sb \<longleftrightarrow> leaf_ok (exts ip) \<and> inj_on snd (pairs (exts ip)) \<and> blocks_of (exts ip) \<inter> free_of sb = {} \<and> fsb_ok sb"

lemma ext_pairs_snd: "snd ` ext_pairs x = {ee_start x..<ee_start x + ee_len x}"
proof (intro set_eqI iffI)
  fix p
  assume "p \<in> {ee_start x..<ee_start x + ee_len x}"
  then have "(ee_block x + (p - ee_start x), p) \<in> ext_pairs x" by (auto simp: ext_pairs_iff)
  then show "p \<in> snd ` ext_pairs x" by force
qed (auto simp: ext_pairs_def)

lemma ext_pairs_inj: "inj_on snd (ext_pairs x)"
  by (auto simp: inj_on_def ext_pairs_def)

lemma range_below: "{b..<b + n} \<subseteq> {..<m} \<Longrightarrow> 0 < n \<Longrightarrow> b + n \<le> (m::nat)"
proof -
  assume *: "{b..<b + n} \<subseteq> {..<m}" "0 < n"
  then have "b + n - 1 \<in> {..<m}" by (intro subsetD [OF *(1)]) auto
  then show ?thesis by simp
qed

lemma alloc_blocks_ok:
  assumes "fsb_ok sb" "0 < n"
  shows "mlfs_ext_alloc_blocks DATA n sb = Inl (Beyond ''try_migrate_blocks'') \<or>
    (\<exists>b sb'. mlfs_ext_alloc_blocks DATA n sb = Inr (int n, b, n, sb') \<and> 0 < b \<and> b + n \<le> 2 ^ 48 \<and> fsb_ok sb' \<and>
      {b..<b + n} \<subseteq> free_of sb \<and> free_of sb' = free_of sb - {b..<b + n} \<and>
      s_blk_bitmap sb' = bitmap_bits_set_range (s_blk_bitmap sb) b n)"
proof -
  obtain ret blocknr bal where run: "mlfs_new_blocks (s_balloc sb) n False DATA = Inr (ret, blocknr, bal)"
    and spec: "new_blocks_spec (s_balloc sb) n ret blocknr bal"
    using new_blocks_ok [of "s_balloc sb" n DATA] assms by (auto simp: fsb_ok_def)
  show ?thesis
  proof (cases blocknr)
    case None
    with run spec show ?thesis by (simp add: mlfs_ext_alloc_blocks_def new_blocks_spec_def)
  next
    case (Some b)
    with spec have *: "sb_ok bal" "ret = int n" "{b..<b + n} \<subseteq> free_of sb" "sb_free bal = free_of sb - {b..<b + n}"
      by (simp_all add: new_blocks_spec_def)
    have "b \<in> free_of sb" using *(3) assms(2) by auto
    then have "0 < b" using assms(1) by (cases b) (auto simp: fsb_ok_def)
    moreover have "b + n \<le> 2 ^ 48"
      by (rule range_below [OF order.trans [OF *(3)] assms(2)]) (use assms(1) in \<open>simp only: fsb_ok_def\<close>)
    moreover have "fsb_ok \<lparr>s_balloc = bal, s_blk_bitmap = bm, used_blocks = u\<rparr>" for bm u
      using * assms(1) by (auto simp: fsb_ok_def)
    ultimately show ?thesis using run Some * assms(2) by (simp add: mlfs_ext_alloc_blocks_def)
  qed
qed

text \<open>The digest asks for blocks from a hole up to the next extent; the code looks at the extent behind the one it found.\<close>

definition no_overlap :: "nat \<Rightarrow> nat \<Rightarrow> extent list \<Rightarrow> bool" where
  "no_overlap l n xs \<longleftrightarrow> xs = [] \<or> ee_block (hd xs) \<le> l \<or> l + n \<le> ee_block (hd xs)"

lemma hole_apart:
  assumes "leaf_ok xs" "no_overlap l n xs" "0 < n"
    and miss: "\<And>i. mlfs_ext_binsearch xs l = Some i \<Longrightarrow> \<not> in_range l (ee_block (xs ! i)) (ee_len (xs ! i))"
    and n: "n \<le> mlfs_ext_next_allocated_block (mlfs_ext_binsearch xs l) xs - l"
    and y: "ee_block y = l" "ee_len y = n"
  shows "apart y xs"
  unfolding apart_def
proof
  fix x
  assume "x \<in> set xs"
  then obtain j where j: "j < length xs" "x = xs ! j" by (auto simp: in_set_conv_nth)
  then obtain i where i: "mlfs_ext_binsearch xs l = Some i" by (cases xs) (auto simp: mlfs_ext_binsearch_def)
  note b = binsearch_ok [OF assms(1) i]
  have len: "0 < ee_len (xs ! i)" using leaf_ok_nth [OF assms(1) b(1)] by (simp add: ext_ok_def)
  have hd: "hd xs = xs ! 0" using j by (cases xs) auto
  consider "j < i" | "j = i" | "i < j" by linarith
  then show "lies_before x y \<or> lies_before y x"
  proof cases
    case 1
    then show ?thesis using leaf_before [OF assms(1) 1 b(1)] b(2) [of i] j y by (simp add: lies_before_def)
  next
    case 2
    have "ee_block (xs ! i) \<le> l \<or> i = 0" using b(2) [of i] by (cases "i = 0") auto
    with miss [OF i] assms(2) len hd 2 j y show ?thesis
      by (cases "ee_block (xs ! i) \<le> l") (auto simp: lies_before_def in_range_def no_overlap_def)
  next
    case 3
    then have "i + 1 < length xs" using j by simp
    have "ee_block (xs ! (i + 1)) \<le> ee_block (xs ! j)"
      using leaf_block_less [OF assms(1), of "i + 1" j] 3 j by (cases "j = i + 1") auto
    moreover have "mlfs_ext_next_allocated_block (Some i) xs = ee_block (xs ! (i + 1))"
    proof -
      have "i \<noteq> length xs - 1" using \<open>i + 1 < length xs\<close> by linarith
      then show ?thesis by (simp add: mlfs_ext_next_allocated_block_def)
    qed
    then have "n \<le> ee_block (xs ! (i + 1)) - l" using n i by simp
    moreover have "l < ee_block (xs ! (i + 1))" using b(3) [of "i + 1"] \<open>i + 1 < length xs\<close> by simp
    ultimately show ?thesis using j y by (simp add: lies_before_def)
  qed
qed

section \<open>Mapping file blocks\<close>

text \<open>
  What a successful \<open>mlfs_ext_get_blocks\<close> does: the file blocks it reports are mapped to
  successive device blocks, nothing else changes in the mapping, and new blocks were free.
\<close>

definition got :: "nat \<Rightarrow> nat \<Rightarrow> kinode \<Rightarrow> ext_sb \<Rightarrow> int \<Rightarrow> nat \<Rightarrow> kinode \<Rightarrow> ext_sb \<Rightarrow> bool" where
  "got l n ip sb ret p ip' sb' \<longleftrightarrow> 0 < ret \<and> ret \<le> int n \<and> 0 < p \<and> file_ok ip' sb' \<and>
     pairs (exts ip') = pairs (exts ip) \<union> (\<lambda>k. (l + k, p + k)) ` {..<nat ret} \<and>
     blocks_of (exts ip') \<subseteq> blocks_of (exts ip) \<union> free_of sb \<and> free_of sb' = free_of sb - blocks_of (exts ip') \<and>
     (\<exists>d. ip' = ip\<lparr>exts := exts ip', i_dirty := d\<rparr> \<and> (i_dirty ip \<longrightarrow> d) \<and> (exts ip' \<noteq> exts ip \<longrightarrow> d))"

lemma get_blocks_hit:
  assumes "file_ok ip sb" "0 < n" and i: "mlfs_ext_binsearch (exts ip) l = Some i"
    and x: "x = exts ip ! i" "in_range l (ee_block x) (ee_len x)"
  shows "\<exists>ret p. mlfs_ext_get_blocks mal l n ip sb = Inr (ret, p, ip, sb) \<and> got l n ip sb ret p ip sb"
proof -
  have ok: "leaf_ok (exts ip)" "i < length (exts ip)" "ext_ok x"
    using assms(1) binsearch_ok(1) [OF _ i] leaf_ok_nth x(1) by (auto simp: file_ok_def)
  note len = ext_ok_simps [OF ok(3)]
  have r: "ee_block x \<le> l" "l < ee_block x + ee_len x" using x(2) by (auto simp: in_range_def)
  define g where "g = min (ee_len x + ee_block x - l) n"
  define p where "p = l - ee_block x + ee_start x"
  have run: "mlfs_ext_get_blocks mal l n ip sb = Inr (int g, p, ip, sb)"
    using x(2) by (simp add: mlfs_ext_get_blocks_def i x(1) [symmetric] len Let_def g_def p_def)
  have "(l + k, p + k) \<in> ext_pairs x" if "k < g" for k
    using that r unfolding ext_pairs_iff g_def p_def by linarith
  then have "(\<lambda>k. (l + k, p + k)) ` {..<g} \<subseteq> pairs (exts ip)"
    using ok(2) x(1) by (auto simp: pairs_def intro!: bexI [of _ x])
  moreover have "0 < g" "g \<le> n" "0 < p" using r assms(2) ok(3) by (auto simp: g_def p_def ext_ok_def)
  moreover have "free_of sb = free_of sb - blocks_of (exts ip)" using assms(1) by (auto simp: file_ok_def)
  ultimately have "got l n ip sb (int g) p ip sb"
    using assms(1) unfolding got_def nat_int by (intro conjI exI [of _ "i_dirty ip"]) auto
  with run show ?thesis by blast
qed

lemma file_ok_grow:
  assumes "file_ok ip sb" "leaf_ok xs" "pairs xs = pairs (exts ip) \<union> ext_pairs y" "fsb_ok sb'"
    and "snd ` ext_pairs y \<subseteq> free_of sb" "free_of sb' = free_of sb - snd ` ext_pairs y"
  shows "file_ok (ip\<lparr>exts := xs, i_dirty := d\<rparr>) sb'" "free_of sb' = free_of sb - blocks_of xs"
proof -
  have dis: "blocks_of (exts ip) \<inter> snd ` ext_pairs y = {}" "blocks_of (exts ip) \<inter> free_of sb = {}"
    using assms(1,5) by (auto simp: file_ok_def)
  then have "inj_on snd (pairs xs)"
    using assms(1) ext_pairs_inj [of y] unfolding assms(3) file_ok_def by (subst inj_on_Un) blast
  then show "file_ok (ip\<lparr>exts := xs, i_dirty := d\<rparr>) sb'" "free_of sb' = free_of sb - blocks_of xs"
    using assms(2,4) dis by (auto simp: file_ok_def assms(3,6) image_Un)
qed

lemma next_block_behind:
  assumes "leaf_ok xs" "l < EXT_MAX_BLOCKS"
  shows "l < mlfs_ext_next_allocated_block (mlfs_ext_binsearch xs l) xs"
proof (cases "mlfs_ext_binsearch xs l")
  case (Some i)
  then show ?thesis using assms binsearch_ok [OF assms(1) Some] by (cases "i = length xs - 1") (auto simp: mlfs_ext_next_allocated_block_def)
qed (use assms in \<open>simp add: mlfs_ext_next_allocated_block_def\<close>)

lemma get_blocks_miss:
  assumes "file_ok ip sb" "0 < n" "n \<le> EXT_INIT_MAX_LEN" "l < EXT_MAX_BLOCKS" "no_overlap l n (exts ip)"
    and miss: "\<And>i. mlfs_ext_binsearch (exts ip) l = Some i \<Longrightarrow> \<not> in_range l (ee_block (exts ip ! i)) (ee_len (exts ip ! i))"
  shows "(\<exists>ret p ip' sb'. mlfs_ext_get_blocks mal l n ip sb = Inr (ret, p, ip', sb') \<and> got l n ip sb ret p ip' sb') \<or>
    mlfs_ext_get_blocks mal l n ip sb = Inl (Beyond ''mlfs_ext_create_new_leaf'') \<and> eh_max ip \<le> length (exts ip) \<or>
    mlfs_ext_get_blocks mal l n ip sb = Inl (Beyond ''try_migrate_blocks'')"
proof -
  let ?p = "mlfs_ext_binsearch (exts ip) l"
  have ok: "leaf_ok (exts ip)" "fsb_ok sb" using assms(1) by (auto simp: file_ok_def)
  define c where "c = min (mlfs_ext_next_allocated_block ?p (exts ip) - l) n"
  have c: "0 < c" "c \<le> n" "\<not> mlfs_ext_next_allocated_block ?p (exts ip) \<le> l"
    using next_block_behind [OF ok(1) assms(4)] assms(2) by (auto simp: c_def)
  have nohit: "(case ?p of None \<Rightarrow> None | Some i \<Rightarrow>
      if in_range l (ee_block (exts ip ! i)) (mlfs_ext_get_actual_len (exts ip ! i)) then Some (i, exts ip ! i) else None) = None"
    using miss binsearch_ok(1) [OF ok(1)] ext_ok_simps(1) [OF leaf_ok_nth [OF ok(1)]] by (auto split: option.splits)
  note unf = mlfs_ext_get_blocks_def [of mal l n ip sb, unfolded Let_def nohit option.case c_def [symmetric] if_not_P [OF c(3)]]
  show ?thesis
    using alloc_blocks_ok [OF ok(2) c(1)]
  proof (elim disjE exE conjE)
    fix b sb'
    assume run: "mlfs_ext_alloc_blocks DATA c sb = Inr (int c, b, c, sb')" and b: "0 < b" "b + c \<le> 2 ^ 48" "fsb_ok sb'"
      and fr: "{b..<b + c} \<subseteq> free_of sb" "free_of sb' = free_of sb - {b..<b + c}"
    define y where "y = \<lparr>ee_block = l, ee_len = c, ee_start = b\<rparr>"
    have y: "ext_ok y" "ee_block y = l" "ee_len y = c" "ee_start y = b" "\<not> mlfs_ext_is_unwritten y"
      using b c assms(3) by (simp_all add: y_def ext_ok_def mlfs_ext_is_unwritten_def)
    have eq: "\<lparr>ee_block = l, ee_len = c mod 2 ^ 16, ee_start = b mod 2 ^ 48\<rparr> = y"
      using b c assms(3) by (simp add: y_def)
    have "no_overlap l c (exts ip)" using assms(5) c(2) by (auto simp: no_overlap_def)
    then have ap: "apart y (exts ip)"
      by (rule hole_apart [OF ok(1) _ c(1) miss _ y(2,3)]) (simp_all add: c_def)
    have P: "ext_pairs y = (\<lambda>k. (l + k, b + k)) ` {..<c}" "snd ` ext_pairs y = {b..<b + c}"
      by (simp_all add: ext_pairs_snd y) (simp add: ext_pairs_def y)
    note unf' = unf [unfolded run bindF.simps prod.case eq]
    from insert_extent_ok [OF ok(1) y(1) ap, of ?p False] binsearch_near [OF ok(1), of l] y(2)
    have "(\<exists>xs. mlfs_ext_insert_extent False ?p y ip = Inr (0, mark_dirty (ip\<lparr>exts := xs\<rparr>)) \<and> leaf_ok xs \<and> pairs xs = pairs (exts ip) \<union> ext_pairs y) \<or>
        mlfs_ext_insert_extent False ?p y ip = Inl (Beyond ''mlfs_ext_create_new_leaf'') \<and> eh_max ip \<le> length (exts ip)" by simp
    then show ?thesis
    proof (elim disjE exE conjE)
      fix xs
      assume ins: "mlfs_ext_insert_extent False ?p y ip = Inr (0, mark_dirty (ip\<lparr>exts := xs\<rparr>))"
        and xs: "leaf_ok xs" "pairs xs = pairs (exts ip) \<union> ext_pairs y"
      let ?ip = "ip\<lparr>exts := xs, i_dirty := True\<rparr>"
      have "mlfs_ext_get_blocks mal l n ip sb = Inr (int c, b, ?ip, sb')"
        using b(1) c(2) y(4,5) unfolding unf' ins by (simp add: mark_dirty_def min_def)
      moreover have "got l n ip sb (int c) b ?ip sb'"
        using file_ok_grow [OF assms(1) xs b(3), unfolded P(2), OF fr] c b(1) xs(2) P fr(1)
        unfolding got_def by (intro conjI exI [of _ True]) (simp_all add: image_Un le_supI2)
      ultimately show ?thesis by blast
    qed (use b(1) in \<open>simp add: unf'\<close>)
  qed (simp add: unf)
qed

lemma get_blocks_ok:
  assumes "file_ok ip sb" "0 < n" "n \<le> EXT_INIT_MAX_LEN" "l < EXT_MAX_BLOCKS" "no_overlap l n (exts ip)"
  shows "(\<exists>ret p ip' sb'. mlfs_ext_get_blocks mal l n ip sb = Inr (ret, p, ip', sb') \<and> got l n ip sb ret p ip' sb') \<or>
    mlfs_ext_get_blocks mal l n ip sb = Inl (Beyond ''mlfs_ext_create_new_leaf'') \<and> eh_max ip \<le> length (exts ip) \<or>
    mlfs_ext_get_blocks mal l n ip sb = Inl (Beyond ''try_migrate_blocks'')"
proof (cases "\<exists>i. mlfs_ext_binsearch (exts ip) l = Some i \<and> in_range l (ee_block (exts ip ! i)) (ee_len (exts ip ! i))")
  case True
  then obtain i where "mlfs_ext_binsearch (exts ip) l = Some i" "in_range l (ee_block (exts ip ! i)) (ee_len (exts ip ! i))" by blast
  from get_blocks_hit [OF assms(1,2) this(1) refl this(2), of mal] show ?thesis by blast
next
  case False
  then have "\<not> in_range l (ee_block (exts ip ! i)) (ee_len (exts ip ! i))" if "mlfs_ext_binsearch (exts ip) l = Some i" for i
    using that by blast
  from get_blocks_miss [OF assms this, of mal] show ?thesis .
qed

section \<open>Removal\<close>

text \<open>\<open>mlfs_alloc\<close> returns an address that is not in use, or null.\<close>

definition mal_ok :: "(node_store \<Rightarrow> nat option) \<Rightarrow> bool" where
  "mal_ok mal \<longleftrightarrow> (\<forall>h a. mal h = Some a \<longrightarrow> h a = None)"

definition no_memory :: "(node_store \<Rightarrow> nat option) \<Rightarrow> fault + 'a \<Rightarrow> bool" where
  "no_memory mal r \<longleftrightarrow> r = Inl (Assert ''ret == 0'') \<and> (\<exists>h. mal h = None)"

lemma free_blocks_ext_ok:
  assumes "fsb_ok sb" "mal_ok mal" "0 < n" "0 < b" "b + n \<le> 2 ^ 48" "{b..<b + n} \<inter> free_of sb = {}"
    and "n < used_blocks sb" "used_blocks sb < 2 ^ 64"
  shows "no_memory mal (mlfs_free_blocks mal b n sb) \<or>
    (\<exists>sb'. mlfs_free_blocks mal b n sb = Inr sb' \<and> fsb_ok sb' \<and> free_of sb' = free_of sb \<union> {b..<b + n} \<and>
      used_blocks sb' = used_blocks sb - n)"
proof (cases "mal (range_nodes (s_balloc sb))")
  case None
  then have "mlfs_free_blocks mal b n sb = Inl (Assert ''ret == 0'')"
    using assms(1,3) by (simp add: mlfs_free_blocks_def mlfs_free_blocks_node_def fsb_ok_def sb_ok_def)
  with None show ?thesis by (auto simp: no_memory_def)
next
  case (Some a)
  have "b + n < 2 ^ 64" using assms(5) by simp
  then obtain bal where run: "mlfs_free_blocks_node (Some a) (s_balloc sb) b (int n) False = Inr (0, bal)"
    and bal: "sb_ok bal" "sb_free bal = free_of sb \<union> {b..<b + n}"
    using free_blocks_node_ok [of "s_balloc sb" a "int n" b False] assms Some by (auto simp: fsb_ok_def mal_ok_def)
  have "fsb_ok \<lparr>s_balloc = bal, s_blk_bitmap = bm, used_blocks = u\<rparr>" for bm u
    using assms(1,4,5) bal by (auto simp: fsb_ok_def)
  then show ?thesis using run Some bal(2) assms(7,8) by (simp add: mlfs_free_blocks_def usub64_small)
qed

lemma remove_blocks_ok:
  assumes "fsb_ok sb" "mal_ok mal" "ext_ok x" "ee_block x \<le> a" "a < ee_block x + ee_len x" "snd ` ext_pairs x \<inter> free_of sb = {}"
    and "ee_len x < used_blocks sb" "used_blocks sb < 2 ^ 64"
  shows "no_memory mal (mlfs_remove_blocks mal x a (ee_block x + ee_len x - 1) sb) \<or>
    (\<exists>sb'. mlfs_remove_blocks mal x a (ee_block x + ee_len x - 1) sb = Inr sb' \<and> fsb_ok sb' \<and>
      free_of sb' = free_of sb \<union> snd ` {jp \<in> ext_pairs x. a \<le> fst jp} \<and>
      used_blocks sb' = used_blocks sb - (ee_block x + ee_len x - a))"
proof -
  define n b where d: "n = ee_block x + ee_len x - a" "b = ee_start x + ee_len x - n"
  have n: "0 < n" "n \<le> ee_len x" "b + n = ee_start x + ee_len x" "ee_start x \<le> b" "b = ee_start x + (a - ee_block x)"
    using assms(4,5) by (auto simp: d)
  have set: "snd ` {jp \<in> ext_pairs x. a \<le> fst jp} = {b..<b + n}"
  proof (intro set_eqI iffI)
    fix p
    assume "p \<in> {b..<b + n}"
    then have "(ee_block x + (p - ee_start x), p) \<in> {jp \<in> ext_pairs x. a \<le> fst jp}"
      using n assms(4) by (auto simp: ext_pairs_iff)
    then show "p \<in> snd ` {jp \<in> ext_pairs x. a \<le> fst jp}" by force
  qed (use n assms(4) in \<open>auto simp: ext_pairs_iff\<close>)
  have "{b..<b + n} \<inter> free_of sb = {}" using assms(6) unfolding set [symmetric] by auto
  moreover have "0 < b" "b + n \<le> 2 ^ 48" using assms(3) n by (simp_all add: ext_ok_def)
  ultimately have "no_memory mal (mlfs_free_blocks mal b n sb) \<or>
    (\<exists>sb'. mlfs_free_blocks mal b n sb = Inr sb' \<and> fsb_ok sb' \<and> free_of sb' = free_of sb \<union> {b..<b + n} \<and>
      used_blocks sb' = used_blocks sb - n)"
    using free_blocks_ext_ok [OF assms(1,2) n(1)] n(2) assms(7,8) by simp
  moreover have "mlfs_remove_blocks mal x a (ee_block x + ee_len x - 1) sb = mlfs_free_blocks mal b n sb"
    using assms(4) by (simp add: mlfs_remove_blocks_def ext_ok_simps [OF assms(3)] Let_def d)
  ultimately show ?thesis using set d(1) by simp
qed

definition kept :: "nat \<Rightarrow> nat \<Rightarrow> (nat \<times> nat) set \<Rightarrow> (nat \<times> nat) set" where
  "kept start fin P = {jp \<in> P. \<not> (start \<le> fst jp \<and> fst jp \<le> fin)}"

text \<open>No extent goes over the end of the range that is removed.\<close>

definition uncut :: "nat \<Rightarrow> extent list \<Rightarrow> bool" where
  "uncut fin xs \<longleftrightarrow> (\<forall>x\<in>set xs. ee_block x + ee_len x \<le> fin + 1 \<or> fin < ee_block x)"

definition rm_ready :: "nat \<Rightarrow> extent list \<Rightarrow> extent list \<Rightarrow> ext_sb \<Rightarrow> bool" where
  "rm_ready fin xs ys sb \<longleftrightarrow> leaf_ok (xs @ ys) \<and> uncut fin xs \<and> fsb_ok sb \<and> blocks_of xs \<inter> free_of sb = {} \<and>
     inj_on snd (pairs xs) \<and> (\<Sum>x\<leftarrow>xs. ee_len x) < used_blocks sb \<and> used_blocks sb < 2 ^ 64"

definition removed :: "nat \<Rightarrow> nat \<Rightarrow> extent list \<Rightarrow> extent list \<Rightarrow> ext_sb \<Rightarrow> extent list \<Rightarrow> ext_sb \<Rightarrow> bool" where
  "removed start fin xs ys sb xs' sb' \<longleftrightarrow> leaf_ok (xs' @ ys) \<and> pairs xs' = kept start fin (pairs xs) \<and> fsb_ok sb' \<and>
     free_of sb' = free_of sb \<union> snd ` (pairs xs - pairs xs')"

lemma kept_simps [simp]:
  "kept start fin (P \<union> Q) = kept start fin P \<union> kept start fin Q" "kept start fin {} = {}"
  by (auto simp: kept_def)

lemma kept_all: "(\<And>jp. jp \<in> P \<Longrightarrow> fst jp < start \<or> fin < fst jp) \<Longrightarrow> kept start fin P = P"
  by (fastforce simp: kept_def)

lemma ext_pairs_fst: "jp \<in> ext_pairs x \<Longrightarrow> ee_block x \<le> fst jp \<and> fst jp < ee_block x + ee_len x"
  by (auto simp: ext_pairs_def)

lemma before_disjoint: "lies_before x y \<Longrightarrow> ext_pairs x \<inter> ext_pairs y = {}"
  by (auto simp: lies_before_def ext_pairs_def)

lemma rm_ready_snoc:
  assumes "rm_ready fin (cs @ [x]) ys sb"
  shows "rm_ready fin cs (x # ys) sb" "ext_ok x" "snd ` ext_pairs x \<inter> free_of sb = {}" "ee_len x < used_blocks sb"
    "snd ` ext_pairs x \<inter> blocks_of cs = {}" "fsb_ok sb"
proof -
  have r: "leaf_ok (cs @ x # ys)" "uncut fin (cs @ [x])" "fsb_ok sb" "blocks_of (cs @ [x]) \<inter> free_of sb = {}"
    "inj_on snd (pairs cs \<union> ext_pairs x)" "(\<Sum>x\<leftarrow>cs. ee_len x) + ee_len x < used_blocks sb" "used_blocks sb < 2 ^ 64"
    using assms by (simp_all add: rm_ready_def)
  have "ext_pairs c \<inter> ext_pairs x = {}" if "c \<in> set cs" for c
    using r(1) that by (intro before_disjoint) simp
  then have "pairs cs \<inter> ext_pairs x = {}" by (auto simp: pairs_def)
  with r(5) have "snd ` (pairs cs - ext_pairs x) \<inter> snd ` (ext_pairs x - pairs cs) = {}" by (subst (asm) inj_on_Un) blast
  with \<open>pairs cs \<inter> ext_pairs x = {}\<close> show "snd ` ext_pairs x \<inter> blocks_of cs = {}" by (simp add: Diff_triv Int_commute)
  show "rm_ready fin cs (x # ys) sb"
    using r inj_on_subset [OF r(5)] unfolding rm_ready_def uncut_def by (intro conjI) auto
  show "ext_ok x" "snd ` ext_pairs x \<inter> free_of sb = {}" "ee_len x < used_blocks sb" "fsb_ok sb"
    using r by auto
qed

text \<open>The extent behind the others is dropped, or its tail is, and the blocks are free.\<close>

lemma shrink_extent:
  assumes "0 < m" "m \<le> ee_len x"
  shows "lies_before x y \<Longrightarrow> lies_before (x\<lparr>ee_len := m\<rparr>) y" "lies_before y (x\<lparr>ee_len := m\<rparr>) = lies_before y x"
    "ext_ok x \<Longrightarrow> ext_ok (x\<lparr>ee_len := m\<rparr>)"
  using assms by (simp_all add: lies_before_def ext_ok_def)

lemma rm_ready_drop:
  assumes "rm_ready fin (cs @ [x]) ys sb" "fsb_ok sb'" "free_of sb' = free_of sb \<union> F" "F \<subseteq> snd ` ext_pairs x"
    and "used_blocks sb' = used_blocks sb - n" "n \<le> ee_len x" "ys' = ys \<or> ys' = x\<lparr>ee_len := m\<rparr> # ys" "0 < m" "m \<le> ee_len x"
  shows "rm_ready fin cs ys' sb'"
proof -
  note s = rm_ready_snoc [OF assms(1)]
  have "blocks_of cs \<inter> free_of sb' = {}" using s(1,5) assms(3,4) by (auto simp: rm_ready_def)
  moreover have "leaf_ok (cs @ ys')"
    using assms(1,7) shrink_extent [OF assms(8,9)] unfolding rm_ready_def by auto
  moreover have "(\<Sum>x\<leftarrow>cs. ee_len x) < used_blocks sb'" "used_blocks sb' < 2 ^ 64"
    using assms(1,5,6) unfolding rm_ready_def by (auto intro: le_less_trans [OF diff_le_self])
  ultimately show ?thesis using s(1) assms(2) unfolding rm_ready_def by blast
qed

lemma removed_id:
  assumes "rm_ready fin xs ys sb" "\<And>jp. jp \<in> pairs xs \<Longrightarrow> fst jp < start \<or> fin < fst jp"
  shows "removed start fin xs ys sb xs sb"
  using assms kept_all [of "pairs xs"] by (simp add: removed_def rm_ready_def)

lemma removed_cut:
  assumes "removed start fin cs ys' sb1 cs' sb'" "ys' = ts @ ys" "pairs ts = kept start fin (ext_pairs x)"
    and "free_of sb1 = free_of sb \<union> snd ` (ext_pairs x - kept start fin (ext_pairs x))"
    and "ext_pairs x \<inter> pairs cs = {}"
  shows "removed start fin (cs @ [x]) ys sb (cs' @ ts) sb'"
proof -
  have "kept start fin P \<subseteq> P" for P by (auto simp: kept_def)
  with assms(5) have "pairs cs \<union> ext_pairs x - (kept start fin (pairs cs) \<union> kept start fin (ext_pairs x)) =
      (pairs cs - kept start fin (pairs cs)) \<union> (ext_pairs x - kept start fin (ext_pairs x))" by blast
  then show ?thesis using assms(1-4) by (auto simp: removed_def image_Un)
qed

lemma removed_keep:
  assumes "removed start fin cs (x # ys) sb cs' sb'" "fin < ee_block x" "ext_pairs x \<inter> pairs cs = {}"
  shows "removed start fin (cs @ [x]) ys sb (cs' @ [x]) sb'"
proof -
  have "kept start fin (ext_pairs x) = ext_pairs x" using assms(2) ext_pairs_fst by (intro kept_all) fastforce
  then show ?thesis by (intro removed_cut [OF assms(1) _ _ _ assms(3)]) simp_all
qed

lemma kept_extent:
  assumes "ee_block x \<le> a" "ee_block x + ee_len x \<le> fin + 1" "a = max (ee_block x) start" "start < ee_block x + ee_len x"
  shows "kept start fin (ext_pairs x) = {jp \<in> ext_pairs x. fst jp < a}"
    and "ext_pairs x - kept start fin (ext_pairs x) = {jp \<in> ext_pairs x. a \<le> fst jp}"
    and "ext_pairs (x\<lparr>ee_len := a - ee_block x\<rparr>) = {jp \<in> ext_pairs x. fst jp < a}"
  using assms ext_pairs_fst [of _ x] by (fastforce simp: kept_def ext_pairs_def)+

declare rm_leaf_loop.simps(2) [simp del]

lemma rm_step_stop:
  assumes "exts ip ! i = x" "ext_ok x" "ee_block x + ee_len x \<le> start"
  shows "rm_leaf_loop (Suc i) mal start fin ip sb = Inr (0, ip, sb)"
  using assms(3) by (simp add: rm_leaf_loop.simps assms(1) ext_ok_simps [OF assms(2)])

lemma rm_step_skip:
  assumes "exts ip ! i = x" "ext_ok x" "start < ee_block x + ee_len x" "fin < ee_block x"
  shows "rm_leaf_loop (Suc i) mal start fin ip sb = rm_leaf_loop i mal start fin ip sb"
  using assms(3,4) by (simp add: rm_leaf_loop.simps assms(1) ext_ok_simps [OF assms(2)])

lemma rm_step_cut:
  assumes "exts ip = cs @ x # ys" "length cs = i" "ext_ok x" "start < ee_block x + ee_len x" "ee_block x \<le> fin"
    and "ee_block x + ee_len x \<le> fin + 1" "fin < EXT_MAX_BLOCKS - 1" "a = max (ee_block x) start"
  shows "rm_leaf_loop (Suc i) mal start fin ip sb =
    bindF (mlfs_remove_blocks mal x a (ee_block x + ee_len x - 1) sb)
      (rm_leaf_loop i mal start fin
         (mark_dirty (ip\<lparr>exts := cs @ (if a = ee_block x then [] else [x\<lparr>ee_len := a - ee_block x\<rparr>]) @ ys\<rparr>)))"
proof -
  have x: "exts ip ! i = x" using assms(1,2) by (simp add: nth_append)
  have upd: "(exts ip)[i := z] = cs @ z # ys" "take i (exts ip) = cs" "drop (i + 1) (exts ip) = ys" for z
    using assms(1,2) by (simp_all add: list_update_append)
  have b: "(if ee_block x + ee_len x - 1 < fin then ee_block x + ee_len x - 1 else fin) = ee_block x + ee_len x - 1"
    using assms(6) by (auto simp: not_less)
  have a: "(if start < ee_block x then ee_block x else start) = a" "(if a \<noteq> ee_block x then a - ee_block x else 0) = a - ee_block x"
    using assms(8) by auto
  have num: "set_len False (a - ee_block x) x = x\<lparr>ee_len := a - ee_block x\<rparr>" "a - ee_block x = 0 \<longleftrightarrow> a = ee_block x"
    using assms(3,4,8) by (auto simp: set_len_def ext_ok_def)
  have ge: "ee_block x \<le> a" using assms(8) by simp
  note len = ext_ok_simps [OF assms(3)]
  show ?thesis
    using assms(4,5,7) ge unfolding rm_leaf_loop.simps Let_def x len(1) upd b a by (cases "a = ee_block x") (simp_all add: num len(2))
qed

lemma rm_cut_ok:
  assumes "rm_ready fin (cs @ [x]) ys sb" "mal_ok mal" "start < ee_block x + ee_len x" "ee_block x + ee_len x \<le> fin + 1"
    and "a = max (ee_block x) start" "ts = (if a = ee_block x then [] else [x\<lparr>ee_len := a - ee_block x\<rparr>])"
  shows "no_memory mal (mlfs_remove_blocks mal x a (ee_block x + ee_len x - 1) sb) \<or>
    (\<exists>sb1. mlfs_remove_blocks mal x a (ee_block x + ee_len x - 1) sb = Inr sb1 \<and> rm_ready fin cs (ts @ ys) sb1 \<and>
       (\<forall>cs' sb'. removed start fin cs (ts @ ys) sb1 cs' sb' \<longrightarrow> removed start fin (cs @ [x]) ys sb (cs' @ ts) sb'))"
proof -
  note s = rm_ready_snoc [OF assms(1)]
  have a: "ee_block x \<le> a" "a < ee_block x + ee_len x" using assms(3,5) s(2) by (auto simp: ext_ok_def)
  note k = kept_extent [OF a(1) assms(4,5,3)]
  have ts: "pairs ts = kept start fin (ext_pairs x)"
    unfolding k(1) using k(3) ext_pairs_fst [of _ x] by (cases "a = ee_block x") (fastforce simp: assms(6))+
  have dis: "ext_pairs x \<inter> pairs cs = {}" using s(5) by blast
  have "used_blocks sb < 2 ^ 64" using assms(1) by (simp only: rm_ready_def)
  from remove_blocks_ok [OF s(6) assms(2) s(2) a s(3,4) this] show ?thesis
  proof (elim disjE exE conjE)
    fix sb1
    assume run: "mlfs_remove_blocks mal x a (ee_block x + ee_len x - 1) sb = Inr sb1" and sb1: "fsb_ok sb1"
      and fr: "free_of sb1 = free_of sb \<union> snd ` {jp \<in> ext_pairs x. a \<le> fst jp}"
      and u: "used_blocks sb1 = used_blocks sb - (ee_block x + ee_len x - a)"
    define m where "m = (if a = ee_block x then ee_len x else a - ee_block x)"
    have m: "0 < m" "m \<le> ee_len x" "ts @ ys = ys \<or> ts @ ys = x\<lparr>ee_len := m\<rparr> # ys"
      using a s(2) by (auto simp: m_def ext_ok_def assms(6))
    have "rm_ready fin cs (ts @ ys) sb1"
      by (rule rm_ready_drop [OF assms(1) sb1 fr _ u _ m(3,1,2)]) (use a in auto)
    moreover have "removed start fin (cs @ [x]) ys sb (cs' @ ts) sb'" if "removed start fin cs (ts @ ys) sb1 cs' sb'" for cs' sb'
      using removed_cut [OF that refl ts _ dis] fr unfolding k(2) by blast
    ultimately show ?thesis using run by blast
  qed blast
qed

lemma rm_leaf_loop_ok:
  assumes "exts ip = xs @ ys" "length xs = i" "rm_ready fin xs ys sb" "fin < EXT_MAX_BLOCKS - 1" "mal_ok mal"
  shows "no_memory mal (rm_leaf_loop i mal start fin ip sb) \<or>
    (\<exists>xs' sb' d. rm_leaf_loop i mal start fin ip sb = Inr (0, ip\<lparr>exts := xs' @ ys, i_dirty := d\<rparr>, sb') \<and>
       removed start fin xs ys sb xs' sb')"
  using assms
proof (induction i arbitrary: xs ys ip sb)
  case 0
  then have "removed start fin [] ys sb [] sb" by (intro removed_id) auto
  with 0 show ?case by (intro disjI2 exI [of _ "[]"] exI [of _ sb] exI [of _ "i_dirty ip"]) simp
next
  case (Suc i)
  then obtain cs x where xs: "xs = cs @ [x]" "length cs = i" by (cases xs rule: rev_cases) auto
  have ip: "exts ip = cs @ x # ys" "exts ip ! i = x" using Suc.prems(1) xs by (simp_all add: nth_append)
  note s = rm_ready_snoc [OF Suc.prems(3) [unfolded xs]]
  have dis: "ext_pairs x \<inter> pairs cs = {}" using s(5) by blast
  consider (stop) "ee_block x + ee_len x \<le> start" | (skip) "start < ee_block x + ee_len x" "fin < ee_block x"
    | (cut) "start < ee_block x + ee_len x" "ee_block x \<le> fin" by linarith
  then show ?case
  proof cases
    case stop
    have "removed start fin xs ys sb xs sb"
    proof (rule removed_id [OF Suc.prems(3)])
      fix jp
      assume "jp \<in> pairs xs"
      then obtain c where c: "c \<in> set xs" "jp \<in> ext_pairs c" by (auto simp: pairs_def)
      have "ee_block c + ee_len c \<le> ee_block x + ee_len x"
        using c(1) Suc.prems(3) by (auto simp: xs rm_ready_def lies_before_def)
      then show "fst jp < start \<or> fin < fst jp" using ext_pairs_fst [OF c(2)] stop by simp
    qed
    then show ?thesis
      using Suc.prems(1) rm_step_stop [OF ip(2) s(2) stop]
      by (intro disjI2 exI [of _ xs] exI [of _ sb] exI [of _ "i_dirty ip"]) simp
  next
    case skip
    from Suc.IH [OF ip(1) xs(2) s(1) Suc.prems(4,5)] show ?thesis
    proof (elim disjE exE conjE)
      fix xs' sb' d
      assume "rm_leaf_loop i mal start fin ip sb = Inr (0, ip\<lparr>exts := xs' @ x # ys, i_dirty := d\<rparr>, sb')" "removed start fin cs (x # ys) sb xs' sb'"
      then show ?thesis using removed_keep [OF _ skip(2) dis] xs(1)
        by (intro disjI2 exI [of _ "xs' @ [x]"] exI [of _ sb'] exI [of _ d]) (simp add: rm_step_skip [OF ip(2) s(2) skip])
    qed (simp add: rm_step_skip [OF ip(2) s(2) skip])
  next
    case cut
    then have le: "ee_block x + ee_len x \<le> fin + 1" using Suc.prems(3) by (simp add: rm_ready_def uncut_def xs)
    define a ts where d: "a = max (ee_block x) start" "ts = (if a = ee_block x then [] else [x\<lparr>ee_len := a - ee_block x\<rparr>])"
    note step = rm_step_cut [OF ip(1) xs(2) s(2) cut le Suc.prems(4) d(1), folded d(2)]
    from rm_cut_ok [OF Suc.prems(3) [unfolded xs(1)] Suc.prems(5) cut(1) le d] show ?thesis
    proof (elim disjE exE conjE)
      fix sb1
      assume run: "mlfs_remove_blocks mal x a (ee_block x + ee_len x - 1) sb = Inr sb1" and ready: "rm_ready fin cs (ts @ ys) sb1"
        and cont: "\<forall>cs' sb'. removed start fin cs (ts @ ys) sb1 cs' sb' \<longrightarrow> removed start fin (cs @ [x]) ys sb (cs' @ ts) sb'"
      let ?ip = "mark_dirty (ip\<lparr>exts := cs @ ts @ ys\<rparr>)"
      have "exts ?ip = cs @ ts @ ys" by (simp add: mark_dirty_def)
      from Suc.IH [OF this xs(2) ready Suc.prems(4,5)] show ?thesis
        unfolding step run bindF.simps
      proof (elim disjE exE conjE)
        fix xs' sb' d
        assume "rm_leaf_loop i mal start fin ?ip sb1 = Inr (0, ?ip\<lparr>exts := xs' @ ts @ ys, i_dirty := d\<rparr>, sb')" "removed start fin cs (ts @ ys) sb1 xs' sb'"
        then show "no_memory mal (rm_leaf_loop i mal start fin ?ip sb1) \<or>
            (\<exists>xs' sb' d. rm_leaf_loop i mal start fin ?ip sb1 = Inr (0, ip\<lparr>exts := xs' @ ys, i_dirty := d\<rparr>, sb') \<and> removed start fin xs ys sb xs' sb')"
          using cont xs(1) by (intro disjI2 exI [of _ "xs' @ ts"] exI [of _ sb'] exI [of _ d]) (simp add: mark_dirty_def)
      qed blast
    qed (simp add: step no_memory_def)
  qed
qed

lemma uncut_at:
  assumes "leaf_ok xs" "i < length xs" "\<And>j. i < j \<Longrightarrow> j < length xs \<Longrightarrow> fin < ee_block (xs ! j)"
    and "ee_block (xs ! i) + ee_len (xs ! i) \<le> fin + 1 \<or> fin < ee_block (xs ! i) \<and> i = 0"
  shows "uncut fin xs"
  unfolding uncut_def
proof
  fix x
  assume "x \<in> set xs"
  then obtain j where j: "j < length xs" "x = xs ! j" by (auto simp: in_set_conv_nth)
  consider "j < i" | "j = i" | "i < j" by linarith
  then show "ee_block x + ee_len x \<le> fin + 1 \<or> fin < ee_block x"
  proof cases
    case 1
    then show ?thesis using leaf_before [OF assms(1) 1 assms(2)] assms(4) j by (auto simp: lies_before_def)
  qed (use assms(3,4) j in auto)
qed

lemma leaf_sum: "leaf_ok xs \<Longrightarrow> (\<Sum>x\<leftarrow>xs. ee_len x) = card (pairs xs)"
proof (induction xs)
  case (Cons x xs)
  have fin: "finite (ext_pairs y)" for y by (simp add: ext_pairs_def)
  have "ext_pairs x \<inter> ext_pairs y = {}" if "y \<in> set xs" for y
    using Cons.prems that by (intro before_disjoint) simp
  then have "ext_pairs x \<inter> pairs xs = {}" "finite (pairs xs)" by (auto simp: pairs_def fin)
  moreover have "card (ext_pairs x) = ee_len x" unfolding ext_pairs_def by (subst card_image) (auto simp: inj_on_def)
  ultimately show ?case using Cons fin by (simp add: card_Un_disjoint)
qed simp

lemma pairs_update:
  assumes "i < length xs" "ext_pairs z \<union> P = ext_pairs (xs ! i)"
  shows "pairs (xs[i := z]) \<union> P = pairs xs"
proof -
  have "xs[i := z] = take i xs @ z # drop (i + 1) xs" using assms(1) by (simp add: upd_conv_take_nth_drop)
  moreover have "pairs xs = pairs (take i xs @ xs ! i # drop (i + 1) xs)" using split_at [OF assms(1)] by simp
  ultimately show ?thesis using assms(2) by auto
qed

lemma leaf_ok_shrink:
  assumes "leaf_ok xs" "i < length xs" "0 < m" "m \<le> ee_len (xs ! i)"
  shows "leaf_ok (xs[i := (xs ! i)\<lparr>ee_len := m\<rparr>])"
proof -
  have eq: "xs[i := z] = take i xs @ z # drop (i + 1) xs" for z using assms(2) by (simp add: upd_conv_take_nth_drop)
  have "leaf_ok (take i xs @ xs ! i # drop (i + 1) xs)" using assms(1) split_at [OF assms(2)] by simp
  then show ?thesis using shrink_extent [OF assms(3,4)] unfolding eq leaf_ok_simps by auto
qed

text \<open>Splitting an extent changes the entries but not the mapping.\<close>

lemma force_split_ok:
  assumes ok: "leaf_ok (exts ip)" and i: "mlfs_ext_binsearch (exts ip) fin = Some i" and x: "x = exts ip ! i"
    and fin: "ee_block x \<le> fin" "fin < ee_block x + ee_len x - 1"
  shows "(\<exists>xs. mlfs_force_split_extent_at i (fin + 1) ip = Inr (0, ip\<lparr>exts := xs, i_dirty := True\<rparr>) \<and> leaf_ok xs \<and>
      pairs xs = pairs (exts ip) \<and> uncut fin xs) \<or>
    mlfs_force_split_extent_at i (fin + 1) ip = Inl (Beyond ''mlfs_ext_create_new_leaf'') \<and> eh_max ip \<le> length (exts ip)"
proof -
  let ?xs = "exts ip"
  note b = binsearch_ok [OF ok i]
  have okx: "ext_ok x" using leaf_ok_nth [OF ok b(1)] x by simp
  define m where "m = fin + 1 - ee_block x"
  define y where "y = \<lparr>ee_block = fin + 1, ee_len = ee_len x - m, ee_start = m + ee_start x\<rparr>"
  define ms where "ms = ?xs[i := x\<lparr>ee_len := m\<rparr>]"
  have m: "0 < m" "m < ee_len x" using fin by (auto simp: m_def)
  have ms: "leaf_ok ms" "length ms = length ?xs" "ms ! i = x\<lparr>ee_len := m\<rparr>" "\<And>j. j \<noteq> i \<Longrightarrow> ms ! j = ?xs ! j"
    using leaf_ok_shrink [OF ok b(1), of m] m b(1) x by (auto simp: ms_def)
  have y: "ext_ok y" "ee_block y = fin + 1" "ee_len y = ee_len x - m"
    using okx m by (auto simp: y_def ext_ok_def)
  have pm: "pairs ms \<union> ext_pairs y = pairs ?xs"
    unfolding ms_def using m fin by (intro pairs_update [OF b(1)]) (auto simp: x [symmetric] ext_pairs_iff y_def m_def)
  have behind: "lies_before y (ms ! j)" if "i < j" "j < length ms" for j
    using leaf_before [OF ok, of i j] that ms fin x by (auto simp: lies_before_def y_def m_def)
  have ahead: "lies_before (ms ! j) y" if "j \<le> i" for j
    using leaf_before [OF ok, of j i] that ms b(1) fin x by (cases "j = i") (auto simp: lies_before_def y_def m_def)
  have ap: "apart y ms" unfolding apart_def
    using behind ahead by (metis in_set_conv_nth linorder_not_less)
  have near: "near (Some i) (ee_block y) ms"
    using behind ahead ms(2) b(1) y m by (fastforce simp: near_def lies_before_def)
  have un: "uncut fin (y # ms)"
    using uncut_at [OF ms(1), of i fin] b ms fin by (auto simp: uncut_def y_def m_def)
  let ?ip = "ip\<lparr>exts := ms, i_dirty := True\<rparr>"
  have new: "set_len False (ee_len x - (fin + 1 - ee_block x))
      \<lparr>ee_block = fin + 1, ee_len = 0, ee_start = (fin + 1 - ee_block x + ee_start x) mod 2 ^ 48\<rparr> = y"
    "set_len False (fin + 1 - ee_block x) x = x\<lparr>ee_len := m\<rparr>"
    using okx m unfolding m_def [symmetric] by (auto simp: set_len_def y_def ext_ok_def intro!: mod_less)
  have run: "mlfs_force_split_extent_at i (fin + 1) ip =
      bindF (mlfs_ext_insert_extent True (Some i) y ?ip) (\<lambda>(err, ip).
        if err \<noteq> 0 then Inr (err, mark_dirty (ip\<lparr>exts := (exts ip)[i := (exts ip ! i)\<lparr>ee_len := ee_len x\<rparr>]\<rparr>)) else Inr (0, ip))"
  proof -
    have c: "\<not> (fin + 1 < ee_block x \<or> ee_block x + ee_len x \<le> fin + 1)" "fin + 1 \<noteq> ee_block x" "mlfs_ext_is_unwritten x = False"
      using fin ext_ok_simps(2) [OF okx] by auto
    show ?thesis
      unfolding mlfs_force_split_extent_at_def mlfs_split_extent_at_def Let_def x [symmetric] ext_ok_simps(1) [OF okx] c(3)
        if_not_P [OF c(1)] if_not_P [OF c(2)] new by (simp add: ms_def mark_dirty_def)
  qed
  have ins: "mlfs_ext_insert_extent True (Some i) y ?ip = bindF (place_extent (Some i) y ?ip) (\<lambda>(k, xs). Inr (0, mark_dirty (?ip\<lparr>exts := xs\<rparr>)))"
    using y(1,3) m by (simp add: mlfs_ext_insert_extent_def ext_ok_simps)
  show ?thesis
  proof (cases "length ?xs < eh_max ip")
    case True
    then obtain k ys where p: "place_extent (Some i) y ?ip = Inr (k, ys)" "leaf_ok ys" "pairs ys = pairs ?xs" "set ys = insert y (set ms)"
      using place_ok [of ?ip y "Some i"] ms y(1) ap near pm by auto
    have "uncut fin ys" using un p(4) by (auto simp: uncut_def)
    with p show ?thesis
      unfolding run ins by (intro disjI1 exI [of _ ys]) (simp add: mark_dirty_def)
  next
    case False
    then have "place_extent (Some i) y ?ip = Inl (Beyond ''mlfs_ext_create_new_leaf'')" using ms(2) by (simp add: place_extent_def)
    with False show ?thesis unfolding run ins by simp
  qed
qed

text \<open>The two ways on from the search: with a split and without one.\<close>

lemma remove_split_ok:
  assumes ok: "leaf_ok (exts ip)" and i: "mlfs_ext_binsearch (exts ip) fin = Some i" and x: "x = exts ip ! i"
  defines "r \<equiv> if ee_block x \<le> fin \<and> fin < ee_block x + ee_len x - 1 then mlfs_force_split_extent_at i (fin + 1) ip else Inr (0, ip)"
  shows "(\<exists>xs d. r = Inr (0, ip\<lparr>exts := xs, i_dirty := d\<rparr>) \<and> leaf_ok xs \<and> pairs xs = pairs (exts ip) \<and> uncut fin xs) \<or>
    r = Inl (Beyond ''mlfs_ext_create_new_leaf'') \<and> eh_max ip \<le> length (exts ip)"
proof (cases "ee_block x \<le> fin \<and> fin < ee_block x + ee_len x - 1")
  case True
  then show ?thesis using force_split_ok [OF ok i x] unfolding r_def by auto
next
  case False
  have "uncut fin (exts ip)"
    using False x binsearch_ok [OF ok i] binsearch_ok(2) [OF ok i, of i] by (intro uncut_at [OF ok, of i]) auto
  with False ok show ?thesis unfolding r_def by (intro disjI1 exI [of _ "exts ip"] exI [of _ "i_dirty ip"]) auto
qed

text \<open>What a successful \<open>mlfs_ext_truncate\<close> does.\<close>

definition truncated :: "nat \<Rightarrow> nat \<Rightarrow> kinode \<Rightarrow> ext_sb \<Rightarrow> kinode \<Rightarrow> ext_sb \<Rightarrow> bool" where
  "truncated start fin ip sb ip' sb' \<longleftrightarrow> file_ok ip' sb' \<and> pairs (exts ip') = kept start fin (pairs (exts ip)) \<and>
     free_of sb' = free_of sb \<union> snd ` (pairs (exts ip) - pairs (exts ip')) \<and>
     (\<exists>xs m. ip' = ip\<lparr>exts := xs, eh_max := m, i_dirty := True\<rparr>)"

lemma removed_truncated:
  assumes "file_ok ip sb" "pairs xs = pairs (exts ip)" "removed start fin xs [] sb xs' sb'"
  shows "truncated start fin ip sb (ip\<lparr>exts := xs', eh_max := m, i_dirty := True\<rparr>) sb'"
proof -
  have r: "leaf_ok xs'" "pairs xs' = kept start fin (pairs (exts ip))" "fsb_ok sb'"
    "free_of sb' = free_of sb \<union> snd ` (pairs (exts ip) - pairs xs')" "pairs xs' \<subseteq> pairs (exts ip)"
    using assms(2,3) by (auto simp: removed_def kept_def)
  have inj: "inj_on snd (pairs (exts ip))" and dis: "blocks_of (exts ip) \<inter> free_of sb = {}" using assms(1) by (auto simp: file_ok_def)
  have "blocks_of xs' \<inter> snd ` (pairs (exts ip) - pairs xs') = {}"
    using inj_on_image_Int [OF inj r(5), of "pairs (exts ip) - pairs xs'"] by auto
  moreover have "blocks_of xs' \<subseteq> blocks_of (exts ip)" using r(5) by (rule image_mono)
  ultimately have "blocks_of xs' \<inter> free_of sb' = {}" using dis r(4) by blast
  then show ?thesis using r inj_on_subset [OF inj r(5)] unfolding truncated_def file_ok_def
    by (intro conjI exI [of _ xs'] exI [of _ m]) auto
qed

lemma truncate_ok:
  assumes "file_ok ip sb" "mal_ok mal" "fin < EXT_MAX_BLOCKS - 1"
    and "card (pairs (exts ip)) < used_blocks sb" "used_blocks sb < 2 ^ 64"
  shows "(\<exists>ip' sb'. mlfs_ext_truncate mal start fin ip sb = Inr (0, ip', sb') \<and> truncated start fin ip sb ip' sb') \<or>
    mlfs_ext_truncate mal start fin ip sb = Inl (Beyond ''mlfs_ext_create_new_leaf'') \<and> eh_max ip \<le> length (exts ip) \<or>
    no_memory mal (mlfs_ext_truncate mal start fin ip sb)"
proof (cases "mlfs_ext_binsearch (exts ip) fin")
  case None
  then have "exts ip = []" by (simp add: mlfs_ext_binsearch_def split: if_splits)
  have run: "mlfs_ext_truncate mal start fin ip sb = Inr (0, mark_dirty ip, sb)"
    using None assms(3) by (simp add: mlfs_ext_truncate_def mlfs_ext_remove_space_def)
  have "removed start fin [] [] sb [] sb" using assms(1) by (simp add: removed_def file_ok_def)
  moreover have "ip\<lparr>exts := [], eh_max := eh_max ip, i_dirty := True\<rparr> = mark_dirty ip"
    using \<open>exts ip = []\<close> by (cases ip) (simp add: mark_dirty_def)
  ultimately have "truncated start fin ip sb (mark_dirty ip) sb"
    using removed_truncated [OF assms(1), of "[]" start fin "[]" sb "eh_max ip"] \<open>exts ip = []\<close> by simp
  with run show ?thesis by blast
next
  case (Some i)
  define x where "x = exts ip ! i"
  have ok: "leaf_ok (exts ip)" "fsb_ok sb" using assms(1) by (auto simp: file_ok_def)
  have okx: "ext_ok x" using leaf_ok_nth [OF ok(1) binsearch_ok(1) [OF ok(1) Some]] by (simp add: x_def)
  define r where "r = (if ee_block x \<le> fin \<and> fin < ee_block x + ee_len x - 1 then mlfs_force_split_extent_at i (fin + 1) ip else Inr (0, ip))"
  have ne: "\<not> ee_block x + ee_len x = 0" using okx by (simp add: ext_ok_def)
  have run: "mlfs_ext_truncate mal start fin ip sb = bindF (bindF r (\<lambda>(err, ip).
      if err < 0 then Inr (err, ip, sb)
      else bindF (mlfs_ext_rm_leaf mal start fin ip sb) (\<lambda>(err, ip, sb).
        if exts ip = [] then Inr (0, mark_dirty (ip\<lparr>eh_max := mlfs_ext_space_root\<rparr>), sb) else Inr (err, ip, sb))))
    (\<lambda>(ret, ip, sb). Inr (ret, if ret = 0 then mark_dirty ip else ip, sb))"
    unfolding mlfs_ext_truncate_def mlfs_ext_remove_space_def Some option.case Let_def x_def [symmetric] ext_ok_simps(1) [OF okx]
      if_not_P [OF ne] r_def [symmetric] using assms(3) by simp
  from remove_split_ok [OF ok(1) Some x_def, folded r_def] show ?thesis
  proof (elim disjE exE conjE)
    fix xs d
    assume r: "r = Inr (0, ip\<lparr>exts := xs, i_dirty := d\<rparr>)" and xs: "leaf_ok xs" "pairs xs = pairs (exts ip)" "uncut fin xs"
    let ?ip = "ip\<lparr>exts := xs, i_dirty := d\<rparr>"
    have "rm_ready fin xs [] sb"
      using xs ok assms(1,4,5) leaf_sum [OF xs(1)] unfolding rm_ready_def file_ok_def by simp
    moreover have "exts ?ip = xs @ []" by simp
    ultimately have "no_memory mal (rm_leaf_loop (length xs) mal start fin ?ip sb) \<or>
        (\<exists>xs' sb' d'. rm_leaf_loop (length xs) mal start fin ?ip sb = Inr (0, ?ip\<lparr>exts := xs' @ [], i_dirty := d'\<rparr>, sb') \<and>
           removed start fin xs [] sb xs' sb')"
      using assms(2,3) by (intro rm_leaf_loop_ok) auto
    then show ?thesis
    proof (elim disjE exE conjE)
      fix xs' sb' d'
      assume "rm_leaf_loop (length xs) mal start fin ?ip sb = Inr (0, ?ip\<lparr>exts := xs' @ [], i_dirty := d'\<rparr>, sb')"
        and rem: "removed start fin xs [] sb xs' sb'"
      then have "mlfs_ext_truncate mal start fin ip sb =
          Inr (0, ip\<lparr>exts := xs', eh_max := if xs' = [] then mlfs_ext_space_root else eh_max ip, i_dirty := True\<rparr>, sb')"
        unfolding run r by (simp add: mlfs_ext_rm_leaf_def mark_dirty_def)
      with removed_truncated [OF assms(1) xs(2) rem] show ?thesis by blast
    qed (simp_all add: run r mlfs_ext_rm_leaf_def no_memory_def)
  qed (simp add: run)
qed

section \<open>The bitmap and the free lists\<close>







section \<open>Properties\<close>

text \<open>A file with two blocks, and a file with a hole at its start, on the device of the examples of the allocator.\<close>

definition two_blocks :: kinode where
  "two_blocks = \<lparr>i_type = 1, i_size = 8192, i_deleting = False, i_dirty = False, eh_magic = MLFS_EXT_MAGIC, eh_max = 4,
     exts = [\<lparr>ee_block = 0, ee_len = 2, ee_start = 20\<rparr>]\<rparr>"

definition hole_first :: kinode where
  "hole_first = two_blocks\<lparr>exts := [\<lparr>ee_block = 2, ee_len = 1, ee_start = 20\<rparr>]\<rparr>"

definition small_fsb :: ext_sb where
  "small_fsb = \<lparr>s_balloc = small_sb, s_blk_bitmap = small_bitmap, used_blocks = 5\<rparr>"


text \<open>The address 8 is free in the examples.\<close>

definition small_mal :: "node_store \<Rightarrow> nat option" where
  "small_mal h = (if h 8 = None then Some 8 else None)"

lemma small_mal_ok: "mal_ok small_mal"
  by (simp add: mal_ok_def small_mal_def)

lemma small_fsb_ok: "fsb_ok small_fsb" "free_of small_fsb = {2..9}"
  using small_sb_ok by (auto simp: fsb_ok_def small_fsb_def)




lemma two_blocks_ok: "file_ok two_blocks small_fsb" "pairs (exts two_blocks) = {(0, 20), (1, 21)}"
proof -
  show p: "pairs (exts two_blocks) = {(0, 20), (1, 21)}"
    by (auto simp: two_blocks_def ext_pairs_def lessThan_Suc numeral_2_eq_2)
  show "file_ok two_blocks small_fsb"
    using small_fsb_ok unfolding file_ok_def p by (auto simp: two_blocks_def ext_ok_def)
qed

lemma alloc_example:
  assumes "s_balloc sb = small_sb"
  shows "\<exists>sb'. mlfs_ext_alloc_blocks DATA 3 sb = Inr (3, 2, 3, sb')"
proof -
  obtain bal where "mlfs_new_blocks (s_balloc sb) 3 False DATA = Inr (3, Some 2, bal)"
    using small_sb_alloc assms by auto
  then show ?thesis by (simp add: mlfs_ext_alloc_blocks_def)
qed

lemma small_alloc: "\<exists>sb. mlfs_ext_alloc_blocks DATA 3 small_fsb = Inr (3, 2, 3, sb)"
  by (rule alloc_example) (simp add: small_fsb_def)


lemma small_free: "\<exists>sb. mlfs_free_blocks small_mal 21 1 small_fsb = Inr sb"
proof -
  have "small_mal (range_nodes small_sb) = Some 8" "range_nodes small_sb 8 = None" by (simp_all add: small_mal_def small_sb_def)
  moreover have "{21..<21 + nat 1} \<inter> sb_free small_sb = {}" unfolding small_sb_ok(2) by auto
  ultimately obtain bal where "mlfs_free_blocks_node (Some 8) small_sb 21 1 False = Inr (0, bal)"
    using free_blocks_node_ok [OF small_sb_ok(1), of 8 1 21 False] by auto
  then show ?thesis using \<open>small_mal (range_nodes small_sb) = Some 8\<close> by (simp add: mlfs_free_blocks_def small_fsb_def)
qed

text \<open>
  C3: with the flag for creating blocks \<open>mlfs_ext_get_blocks\<close> reports at least one block and at
  most as many as asked for; the blocks it reports are then mapped one behind the other, what
  was mapped stays mapped, new blocks were free and are no longer free, and the blocks of the
  file stay different from each other. It ends otherwise only when the inode has no room for
  another extent or the device has no free blocks. The range must not reach from a hole at
  the start of the file into the first extent.
\<close>

theorem ext_get_blocks_correct:
  assumes "file_ok ip sb" and "0 < n" and "n \<le> EXT_INIT_MAX_LEN" and "l < EXT_MAX_BLOCKS" and "no_overlap l n (exts ip)"
  shows "(\<exists>g p ip' sb'. mlfs_ext_get_blocks mal l n ip sb = Inr (int g, p, ip', sb') \<and> 0 < g \<and> g \<le> n \<and> file_ok ip' sb' \<and>
      pairs (exts ip') = pairs (exts ip) \<union> {(l + k, p + k) | k. k < g} \<and>
      blocks_of (exts ip') \<subseteq> blocks_of (exts ip) \<union> free_of sb \<and> free_of sb' = free_of sb - blocks_of (exts ip')) \<or>
    mlfs_ext_get_blocks mal l n ip sb = Inl (Beyond ''mlfs_ext_create_new_leaf'') \<and> eh_max ip \<le> length (exts ip) \<or>
    mlfs_ext_get_blocks mal l n ip sb = Inl (Beyond ''try_migrate_blocks'')"
proof -
  have *: "\<exists>g p ip' sb'. mlfs_ext_get_blocks mal l n ip sb = Inr (int g, p, ip', sb') \<and> 0 < g \<and> g \<le> n \<and> file_ok ip' sb' \<and>
      pairs (exts ip') = pairs (exts ip) \<union> {(l + k, p + k) | k. k < g} \<and>
      blocks_of (exts ip') \<subseteq> blocks_of (exts ip) \<union> free_of sb \<and> free_of sb' = free_of sb - blocks_of (exts ip')"
    if run: "mlfs_ext_get_blocks mal l n ip sb = Inr (ret, p, ip', sb')" and g: "got l n ip sb ret p ip' sb'" for ret p ip' sb'
  proof -
    have "{(l + k, p + k) | k. k < nat ret} = (\<lambda>k. (l + k, p + k)) ` {..<nat ret}" by auto
    moreover have "nat ret \<le> n" using g by (simp add: got_def nat_le_iff)
    ultimately show ?thesis using run g unfolding got_def
      by (rule_tac exI [of _ "nat ret"], rule_tac exI [of _ p], rule_tac exI [of _ ip'], rule_tac exI [of _ sb']) simp
  qed
  from get_blocks_ok [OF assms, of mal] show ?thesis
    by (elim disjE exE conjE) (rule disjI1, rule *, assumption+, rule disjI2, rule disjI1, rule conjI, assumption+, rule disjI2, rule disjI2, assumption)
qed

theorem ext_get_blocks_correct_witness:
  "\<exists>g p ip' sb'. mlfs_ext_get_blocks small_mal 2 3 two_blocks small_fsb = Inr (int g, p, ip', sb') \<and> file_ok ip' sb' \<and>
     pairs (exts ip') = {(0, 20), (1, 21)} \<union> {(2 + k, p + k) | k. k < g}"
proof -
  obtain sb where "mlfs_ext_alloc_blocks DATA 3 small_fsb = Inr (3, 2, 3, sb)" using small_alloc by blast
  then have "\<exists>r. mlfs_ext_get_blocks small_mal 2 3 two_blocks small_fsb = Inr r"
    by (simp add: mlfs_ext_get_blocks_def mlfs_ext_binsearch_def binsearch_loop.simps two_blocks_def in_range_def
        mlfs_ext_get_actual_len_def mlfs_ext_next_allocated_block_def mlfs_ext_insert_extent_def absorb_extent_def
        mlfs_can_extents_be_merged_def mlfs_ext_is_unwritten_def place_extent_def)
  moreover have "no_overlap 2 3 (exts two_blocks)" by (simp add: no_overlap_def two_blocks_def)
  ultimately show ?thesis
    using ext_get_blocks_correct [OF two_blocks_ok(1), of 3 2 small_mal] two_blocks_ok(2) by auto
qed

text \<open>
  C36: \<open>mlfs_ext_truncate\<close> removes exactly the file blocks of the range, both ends included, and
  exactly the device blocks of these become free; the other blocks of the file stay where
  they are. It ends otherwise only when the extent that goes over the end of the range has to
  be split in an inode without room, or when there is no memory.
\<close>

theorem ext_truncate_correct:
  assumes "file_ok ip sb" and "mal_ok mal" and "fin < EXT_MAX_BLOCKS - 1"
    and "card (pairs (exts ip)) < used_blocks sb" and "used_blocks sb < 2 ^ 64"
  shows "(\<exists>ip' sb'. mlfs_ext_truncate mal start fin ip sb = Inr (0, ip', sb') \<and> file_ok ip' sb' \<and>
      pairs (exts ip') = {jp \<in> pairs (exts ip). \<not> (start \<le> fst jp \<and> fst jp \<le> fin)} \<and>
      free_of sb' = free_of sb \<union> snd ` {jp \<in> pairs (exts ip). start \<le> fst jp \<and> fst jp \<le> fin}) \<or>
    mlfs_ext_truncate mal start fin ip sb = Inl (Beyond ''mlfs_ext_create_new_leaf'') \<and> eh_max ip \<le> length (exts ip) \<or>
    no_memory mal (mlfs_ext_truncate mal start fin ip sb)"
proof -
  have *: "P - kept start fin P = {jp \<in> P. start \<le> fst jp \<and> fst jp \<le> fin}" for P by (auto simp: kept_def)
  from truncate_ok [OF assms, of start] show ?thesis
    unfolding truncated_def
  proof (elim disjE exE conjE)
    fix ip' sb'
    assume "mlfs_ext_truncate mal start fin ip sb = Inr (0, ip', sb')" "file_ok ip' sb'"
      and p: "pairs (exts ip') = kept start fin (pairs (exts ip))" "free_of sb' = free_of sb \<union> snd ` (pairs (exts ip) - pairs (exts ip'))"
    then show ?thesis using p(1) p(2) [unfolded p(1) *] by (intro disjI1 exI [of _ ip'] exI [of _ sb']) (simp add: kept_def)
  qed simp_all
qed

theorem ext_truncate_correct_witness:
  "\<exists>ip' sb'. mlfs_ext_truncate small_mal 1 5 two_blocks small_fsb = Inr (0, ip', sb') \<and> file_ok ip' sb' \<and>
     pairs (exts ip') = {(0, 20)} \<and> free_of sb' = {2..9} \<union> {21}"
proof -
  obtain sb where "mlfs_free_blocks small_mal 21 1 small_fsb = Inr sb" using small_free by blast
  then have "\<exists>r. mlfs_ext_truncate small_mal 1 5 two_blocks small_fsb = Inr r"
    by (simp add: mlfs_ext_truncate_def mlfs_ext_remove_space_def mlfs_ext_binsearch_def binsearch_loop.simps two_blocks_def
        mlfs_ext_get_actual_len_def mlfs_ext_rm_leaf_def rm_leaf_loop.simps mlfs_ext_is_unwritten_def mlfs_remove_blocks_def
        Let_def mark_dirty_def)
  moreover have "card (pairs (exts two_blocks)) < used_blocks small_fsb" "used_blocks small_fsb < 2 ^ 64"
    unfolding two_blocks_ok(2) by (simp_all add: small_fsb_def)
  moreover have "{jp \<in> {(0::nat, 20::nat), (1, 21)}. \<not> (1 \<le> fst jp \<and> fst jp \<le> 5)} = {(0, 20)}"
    "{jp \<in> {(0::nat, 20::nat), (1, 21)}. 1 \<le> fst jp \<and> fst jp \<le> 5} = {(1, 21)}" by auto
  ultimately show ?thesis
    using ext_truncate_correct [OF two_blocks_ok(1) small_mal_ok, of 5 1]
    unfolding two_blocks_ok(2) small_fsb_ok(2) by (auto simp: no_memory_def)
qed

text \<open>
  C39: when a range starts in a hole before the first extent and reaches into that extent,
  \<open>mlfs_ext_get_blocks\<close> maps the whole range to new blocks and keeps the old extent, so that
  one file block is mapped twice: the call reports the new block of it, and every later call
  finds the old one.
\<close>

theorem ext_get_blocks_overlap:
  assumes "exts ip = [x]" and "ext_ok x" and "l < ee_block x" and "ee_block x < l + n" and "l + n \<le> EXT_INIT_MAX_LEN"
    and "1 < eh_max ip" and "mlfs_ext_alloc_blocks DATA n sb = Inr (int n, b, n, sb')" and "0 < b" and "b + n \<le> 2 ^ 48"
  shows "\<exists>ip'. mlfs_ext_get_blocks mal l n ip sb = Inr (int n, b, ip', sb') \<and>
    (ee_block x, b + (ee_block x - l)) \<in> pairs (exts ip') \<and> (ee_block x, ee_start x) \<in> pairs (exts ip') \<and>
    mlfs_ext_get_blocks mal (ee_block x) 1 ip' sb' = Inr (1, ee_start x, ip', sb')"
proof -
  define y where "y = \<lparr>ee_block = l, ee_len = n, ee_start = b\<rparr>"
  have y: "ext_ok y" "\<lparr>ee_block = l, ee_len = n mod 2 ^ 16, ee_start = b mod 2 ^ 48\<rparr> = y"
    using assms(3-5,8,9) by (auto simp: y_def ext_ok_def intro!: mod_less)
  have nomerge: "\<not> mlfs_can_extents_be_merged x y" "\<not> mlfs_can_extents_be_merged y x"
    using assms(2-4) y(1) by (simp_all add: can_merge_iff) (simp_all add: y_def)
  have bs: "mlfs_ext_binsearch [x] l = Some 0" "mlfs_ext_binsearch [y, x] (ee_block x) = Some 1"
    using assms(3) by (simp_all add: mlfs_ext_binsearch_def binsearch_loop.simps)
  have keep: "mlfs_ext_store_pblock b y = y" "snd (mlfs_ext_try_to_merge_right 0 [y, x]) = [y, x]" "0 < n" "ee_block y = l" "ee_len y = n" "ee_start y = b"
    using assms(3,4) y(1) nomerge(2) by (simp_all add: mlfs_ext_try_to_merge_right.simps) (simp_all add: y_def mlfs_ext_store_pblock_def ext_ok_def)
  have ins: "mlfs_ext_insert_extent False (Some 0) y ip = Inr (0, ip\<lparr>exts := [y, x], i_dirty := True\<rparr>)"
    using assms(1,3,6) nomerge
    by (simp add: mlfs_ext_insert_extent_def ext_ok_simps(1) [OF y(1)] absorb_extent_def place_extent_def mlfs_ext_try_to_merge_def
        mark_dirty_def keep Let_def)
  have nxt: "\<not> mlfs_ext_next_allocated_block (Some 0) [x] \<le> l" "min (mlfs_ext_next_allocated_block (Some 0) [x] - l) n = n"
    using assms(5) by (simp_all add: mlfs_ext_next_allocated_block_def)
  have miss: "\<not> in_range l (ee_block x) (ee_len x)" using assms(3) by (simp add: in_range_def)
  have "mlfs_ext_get_blocks mal l n ip sb = Inr (int n, b, ip\<lparr>exts := [y, x], i_dirty := True\<rparr>, sb')"
    unfolding mlfs_ext_get_blocks_def Let_def assms(1) bs(1) option.case
    using miss nxt assms(2,7,8) y ins keep(6) by (simp add: ext_ok_simps mark_dirty_def)
  moreover have "(ee_block x, b + (ee_block x - l)) \<in> pairs [y, x]" "(ee_block x, ee_start x) \<in> pairs [y, x]"
    using assms(2-4) by (simp_all add: ext_pairs_iff y_def ext_ok_def)
  moreover have "mlfs_ext_get_blocks mal (ee_block x) 1 (ip\<lparr>exts := [y, x], i_dirty := True\<rparr>) sb' =
      Inr (1, ee_start x, ip\<lparr>exts := [y, x], i_dirty := True\<rparr>, sb')"
  proof -
    have "in_range (ee_block x) (ee_block x) (ee_len x)" "0 < ee_len x" using assms(2) by (auto simp: in_range_def ext_ok_def)
    then show ?thesis using assms(2) bs(2) by (simp add: mlfs_ext_get_blocks_def ext_ok_simps)
  qed
  ultimately show ?thesis by (intro exI [of _ "ip\<lparr>exts := [y, x], i_dirty := True\<rparr>"]) simp
qed

theorem ext_get_blocks_overlap_witness:
  "\<exists>ip' sb'. mlfs_ext_get_blocks small_mal 0 3 hole_first small_fsb = Inr (3, 2, ip', sb') \<and>
     (2, 4) \<in> pairs (exts ip') \<and> (2, 20) \<in> pairs (exts ip') \<and> mlfs_ext_get_blocks small_mal 2 1 ip' sb' = Inr (1, 20, ip', sb')"
proof -
  obtain sb where sb: "mlfs_ext_alloc_blocks DATA 3 small_fsb = Inr (int 3, 2, 3, sb)" using small_alloc by auto
  show ?thesis
    using ext_get_blocks_overlap [OF _ _ _ _ _ _ sb, of hole_first "\<lparr>ee_block = 2, ee_len = 1, ee_start = 20\<rparr>" 0 small_mal]
    by (auto simp: hole_first_def two_blocks_def ext_ok_def)
qed

text \<open>
  C37: inserting an extent that does not touch the blocks of the others keeps the extents of
  an inode well formed, whether it is merged with its neighbours or gets an entry of its own:
  in order, without overlap, none of them empty or longer than an extent can be; and it adds
  exactly the blocks of the new extent. It fails only when the inode has no room.
\<close>

theorem ext_insert_wellformed:
  assumes "leaf_ok (exts ip)" and "ext_ok y" and "apart y (exts ip)"
  shows "(\<exists>ip'. mlfs_ext_insert_extent pre_io (mlfs_ext_binsearch (exts ip) (ee_block y)) y ip = Inr (0, ip') \<and>
      leaf_ok (exts ip') \<and> pairs (exts ip') = pairs (exts ip) \<union> ext_pairs y) \<or>
    mlfs_ext_insert_extent pre_io (mlfs_ext_binsearch (exts ip) (ee_block y)) y ip = Inl (Beyond ''mlfs_ext_create_new_leaf'') \<and>
      eh_max ip \<le> length (exts ip)"
  using insert_extent_ok [OF assms binsearch_near [OF assms(1)], of pre_io]
proof (elim disjE exE conjE)
  fix xs
  assume "mlfs_ext_insert_extent pre_io (mlfs_ext_binsearch (exts ip) (ee_block y)) y ip = Inr (0, mark_dirty (ip\<lparr>exts := xs\<rparr>))"
    "leaf_ok xs" "pairs xs = pairs (exts ip) \<union> ext_pairs y"
  then show ?thesis by (intro disjI1 exI [of _ "mark_dirty (ip\<lparr>exts := xs\<rparr>)"]) (simp add: mark_dirty_def)
qed simp

theorem ext_insert_wellformed_witness:
  "\<exists>ip'. mlfs_ext_insert_extent False (mlfs_ext_binsearch (exts two_blocks) 2) \<lparr>ee_block = 2, ee_len = 4, ee_start = 22\<rparr> two_blocks = Inr (0, ip') \<and>
     leaf_ok (exts ip') \<and> pairs (exts ip') = pairs (exts two_blocks) \<union> ext_pairs \<lparr>ee_block = 2, ee_len = 4, ee_start = 22\<rparr>"
  using ext_insert_wellformed [of two_blocks "\<lparr>ee_block = 2, ee_len = 4, ee_start = 22\<rparr>" False]
  by (simp add: two_blocks_def ext_ok_def apart_def lies_before_def)



end
