(* ===== verification/Digest.thy ===== *)
theory Digest
  imports Map_Table Log_Ring Extents
begin

text \<open>
  What the kernel file system does with the entries of a committed transaction
  (\<open>src/kernfs/fs.c\<close>): \<open>digest_each_log_entries\<close> and the handlers \<open>digest_inode\<close>,
  \<open>digest_file\<close>, \<open>digest_unlink\<close> and \<open>digest_allocate\<close>. The blocks of a file entry are not
  copied: the map table exchanges the log block and the block of the file; only parts of
  blocks are copied. Log device and root device are the same device.
\<close>

section \<open>State\<close>

text \<open>
  The map table and the blocks of the device, the inodes in memory (\<open>icache\<close>) and on the
  device, and the superblock.
\<close>

record kfs =
  ktab :: map_table
  kblocks :: "nat \<Rightarrow> u8 list"
  kcache :: "nat \<Rightarrow> kinode option"
  kondisk :: "nat \<Rightarrow> kinode"
  ksb :: ext_sb

text \<open>
  The outside of the digest: the superblock on the device, the addresses that \<open>mlfs_alloc\<close>
  returns, and the fields \<open>itype\<close> and \<open>size\<close> of the \<open>struct dinode\<close> in the bytes of a block.
\<close>

record kenv =
  dsb :: disk_superblock
  mal :: "node_store \<Rightarrow> nat option"
  dinode_of :: "u8 list \<Rightarrow> nat \<times> nat"

definition put_inode :: "nat \<Rightarrow> kinode \<Rightarrow> kfs \<Rightarrow> kfs" where
  "put_inode ino ip s = s\<lparr>kcache := (kcache s)(ino \<mapsto> ip)\<rparr>"

text \<open>An inode that is read from the device is new in memory: its flags are clear.\<close>

definition read_ondisk_inode :: "nat \<Rightarrow> kfs \<Rightarrow> kinode" where
  "read_ondisk_inode ino s = (kondisk s ino)\<lparr>i_deleting := False, i_dirty := False\<rparr>"

text \<open>\<open>icache_find\<close>, and the inode from the device when it is not in the cache.\<close>

definition find_inode :: "nat \<Rightarrow> kfs \<Rightarrow> fault + kinode \<times> kfs" where
  "find_inode ino s =
     (case kcache s ino of
        Some ip \<Rightarrow> Inr (ip, s)
      | None \<Rightarrow>
          let ip = read_ondisk_inode ino s in
          if i_type ip = 0 then Inl (Assert ''dip.itype != 0'') else Inr (ip, put_inode ino ip s))"

text \<open>\<open>lblk2pblk\<close> in this state, and a copy of bytes between two physical blocks.\<close>

definition phys :: "kenv \<Rightarrow> nat \<Rightarrow> kfs \<Rightarrow> nat \<times> kfs" where
  "phys env l s = (let (p, t) = lblk2pblk (dsb env) (ktab s) l KERNFS_ID in (p, s\<lparr>ktab := t\<rparr>))"

definition copy_bytes :: "nat \<Rightarrow> nat \<Rightarrow> nat \<Rightarrow> nat \<Rightarrow> kfs \<Rightarrow> kfs" where
  "copy_bytes from to ofs len s =
     s\<lparr>kblocks := (kblocks s)(to := splice (kblocks s to) ofs (take len (drop ofs (kblocks s from))))\<rparr>"

section \<open>File entries\<close>

definition usub32 :: "nat \<Rightarrow> nat \<Rightarrow> nat" where
  "usub32 a b = (a + (2 ^ 32 - b mod 2 ^ 32)) mod 2 ^ 32"

text \<open>A file block number has 32 bits.\<close>

definition lblk :: "nat \<Rightarrow> nat" where
  "lblk ofs = ofs div g_block_size_bytes mod 2 ^ 32"

definition digest_nr_blocks :: "nat \<Rightarrow> nat" where
  "digest_nr_blocks len =
     (if len < g_block_size_bytes then 1
      else if len mod g_block_size_bytes \<noteq> 0 then len div g_block_size_bytes + 1 else len div g_block_size_bytes)"

text \<open>The first block of an entry that is smaller than a block or does not start at a block boundary.\<close>

definition digest_head :: "kenv \<Rightarrow> nat \<Rightarrow> nat \<Rightarrow> nat \<Rightarrow> kinode \<Rightarrow> kfs \<Rightarrow> fault + kinode \<times> kfs" where
  "digest_head env ofs len blk ip s =
     bindF (mlfs_ext_get_blocks (mal env) (lblk ofs) 1 ip (ksb s)) (\<lambda>(ret, pblk, ip, sb).
       if ret \<noteq> 1 then Inl (Assert ''ret == 1'')
       else
         let (kernfs_pblk, s) = phys env pblk (s\<lparr>ksb := sb\<rparr>);
             (libfs_pblk, s) = phys env blk s;
             b = ofs mod g_block_size_bytes
         in Inr (ip, copy_bytes libfs_pblk kernfs_pblk b (min len (g_block_size_bytes - b)) s))"

text \<open>\<open>limit\<close> is the end of the log area of the process. The blocks are exchanged one by one.\<close>

primrec remap_blocks :: "disk_superblock \<Rightarrow> nat \<Rightarrow> nat \<Rightarrow> nat \<Rightarrow> nat \<Rightarrow> map_table \<Rightarrow> fault + map_table" where
  "remap_blocks sb limit k l 0 t = Inr t"
| "remap_blocks sb limit k l (Suc n) t =
     bindF (remap_blocks sb limit k l n t) (\<lambda>t.
       if l + n < limit then Inr (update_map_table sb t (k + n) (l + n) KERNFS_ID)
       else Inl (Assert ''libfs_lblk''))"

text \<open>The last block of the blocks that were found is copied when the entry ends in it.\<close>

definition digest_last :: "kenv \<Rightarrow> nat \<Rightarrow> nat \<Rightarrow> nat \<Rightarrow> nat \<Rightarrow> nat \<Rightarrow> kfs \<Rightarrow> fault + kfs" where
  "digest_last env limit k l g len s =
     (let i = g - 1 in
      if g * g_block_size_bytes > len
      then
        let (kernfs_pblk, s) = phys env (k + i) s in
        if \<not> l + i < limit then Inl (Assert ''libfs_lblk'')
        else
          let (libfs_pblk, s) = phys env (l + i) s in
          Inr (copy_bytes libfs_pblk kernfs_pblk 0 (usub32 len (i * g_block_size_bytes)) s)
      else if \<not> l + i < limit then Inl (Assert ''libfs_lblk'')
      else Inr (s\<lparr>ktab := update_map_table (dsb env) (ktab s) (k + i) (l + i) KERNFS_ID\<rparr>))"

text \<open>
  The loop over the remaining \<open>n\<close> blocks. \<open>data\<close> is the byte address of the log data and
  \<open>len\<close> the number of bytes left.
\<close>

function digest_blocks :: "kenv \<Rightarrow> nat \<Rightarrow> nat \<Rightarrow> nat \<Rightarrow> nat \<Rightarrow> nat \<Rightarrow> kinode \<Rightarrow> kfs \<Rightarrow> fault + kinode \<times> kfs" where
  "digest_blocks env limit n cur data len ip s =
     (if n = 0 then Inr (ip, s)
      else if cur mod g_block_size_bytes \<noteq> 0 then Inl (Assert ''cur_offset'')
      else
        (case mlfs_ext_get_blocks (mal env) (lblk cur) n ip (ksb s) of
           Inl e \<Rightarrow> Inl e
         | Inr (ret, pblk, ip, sb) \<Rightarrow>
             if pblk = 0 then Inl (Assert ''m_pblk'')
             else if \<not> (ret \<le> int n \<and> 0 < ret) then Inl (Assert ''nr_block_get'')
             else
               let g = nat ret; l = data div g_block_size_bytes in
               bindF (remap_blocks (dsb env) limit pblk l (g - 1) (ktab s)) (\<lambda>t.
               bindF (digest_last env limit pblk l g len (s\<lparr>ksb := sb, ktab := t\<rparr>)) (\<lambda>s.
                 digest_blocks env limit (n - g) (cur + g * g_block_size_bytes) (data + g * g_block_size_bytes)
                   (usub32 len (g * g_block_size_bytes)) ip s))))"
  by pat_completeness auto
termination
  by (relation "measure (\<lambda>(env, limit, n, cur, data, len, ip, s). n)") auto

declare digest_blocks.simps [simp del]

definition digest_file :: "kenv \<Rightarrow> nat \<Rightarrow> nat \<Rightarrow> nat \<Rightarrow> nat \<Rightarrow> nat \<Rightarrow> kfs \<Rightarrow> fault + kfs" where
  "digest_file env libfs_id ino ofs len blk s =
     (let limit = log_start (dsb env) + (libfs_id + 1) * g_log_size;
          nr = digest_nr_blocks len;
          head = (len < g_block_size_bytes \<or> ofs mod g_block_size_bytes \<noteq> 0);
          first = min len (g_block_size_bytes - ofs mod g_block_size_bytes) in
      bindF (find_inode ino s) (\<lambda>(ip, s).
        let ip = (if i_size ip < uadd64 ofs len then mark_dirty (ip\<lparr>i_size := uadd64 ofs len\<rparr>) else ip) in
        bindF (if head then digest_head env ofs len blk ip s else Inr (ip, s)) (\<lambda>(ip, s).
        bindF (if head
               then digest_blocks env limit (nr - 1) (ofs + first) (blk * g_block_size_bytes + first) (usub32 len first) ip s
               else digest_blocks env limit nr ofs (blk * g_block_size_bytes) len ip s) (\<lambda>(ip, s).
          Inr (put_inode ino ip s)))))"

section \<open>Inode, unlink and allocation entries\<close>

text \<open>
  \<open>ialloc\<close> for an inode that is not in the cache: the inode of the device unless it is free
  there. For the inode number 0 it looks for a free inode.
\<close>

definition zero_inode :: "nat \<Rightarrow> kinode \<Rightarrow> kinode" where
  "zero_inode itype ip = ip\<lparr>i_type := itype, i_size := 0, eh_magic := 0, eh_max := 0, exts := []\<rparr>"

definition ialloc :: "kenv \<Rightarrow> nat \<Rightarrow> nat \<Rightarrow> kfs \<Rightarrow> fault + nat \<times> kinode" where
  "ialloc env itype ino s =
     (if ino = 0
      then
        (case find (\<lambda>i. i_type (kondisk s i) = 0) [1..<ninodes (dsb env)] of
           None \<Rightarrow> Inl (Panic ''ialloc: no inodes'')
         | Some i \<Rightarrow> Inr (i, zero_inode itype (case kcache s i of Some ip \<Rightarrow> ip | None \<Rightarrow> read_ondisk_inode i s)))
      else
        let ip = read_ondisk_inode ino s in
        Inr (ino, if i_type ip = 0 then zero_inode itype ip else ip))"

definition digest_inode :: "kenv \<Rightarrow> nat \<Rightarrow> nat \<Rightarrow> kfs \<Rightarrow> fault + kfs" where
  "digest_inode env ino blk s =
     (let (pblk, s) = phys env blk s; (itype, sz) = dinode_of env (kblocks s pblk) in
      bindF (case kcache s ino of Some ip \<Rightarrow> Inr (ino, ip) | None \<Rightarrow> ialloc env itype ino s) (\<lambda>(ino, ip).
        let ip = (if i_deleting ip then ip\<lparr>i_deleting := False, i_type := itype\<rparr> else ip);
            tree = (i_type ip = T_FILE \<or> i_type ip = T_DIR);
            ip = (if tree \<and> eh_magic ip \<noteq> MLFS_EXT_MAGIC then mlfs_ext_tree_init ip else ip) in
        bindF (if i_type ip = T_FILE \<and> sz < i_size ip
               then
                 bindF (mlfs_ext_truncate (mal env)
                          (sz div g_block_size_bytes + (if sz mod g_block_size_bytes \<noteq> 0 then 1 else 0))
                          (i_size ip div g_block_size_bytes) ip (ksb s)) (\<lambda>(ret, ip, sb).
                   if ret \<noteq> 0 then Inl (Assert ''!ret'') else Inr (ip, sb))
               else Inr (ip, ksb s)) (\<lambda>(ip, sb).
          Inr (put_inode ino (mark_dirty (ip\<lparr>i_size := sz\<rparr>)) (s\<lparr>ksb := sb\<rparr>)))))"

text \<open>The inode is cleared together with the root of its extent tree.\<close>

definition digest_unlink :: "kenv \<Rightarrow> nat \<Rightarrow> kfs \<Rightarrow> fault + kfs" where
  "digest_unlink env ino s =
     (let ip = (case kcache s ino of Some ip \<Rightarrow> ip | None \<Rightarrow> read_ondisk_inode ino s) in
      bindF (if i_size ip > 0
             then
               let fin = lblk (i_size ip) in
               bindF (mlfs_ext_truncate (mal env) 0 (if fin = 0 then fin else fin - 1) ip (ksb s)) (\<lambda>(ret, ip, sb).
                 if ret \<noteq> 0 then Inl (Assert ''!ret'') else Inr (ip, sb))
             else Inr (ip, ksb s)) (\<lambda>(ip, sb).
        Inr (put_inode ino (mark_dirty ((zero_inode 0 ip)\<lparr>i_deleting := True\<rparr>)) (s\<lparr>ksb := sb\<rparr>))))"

text \<open>\<open>ALLOC_SIZE\<close> blocks at a time; all pieces have to lie behind each other.\<close>

abbreviation (input) ALLOC_SIZE :: nat where "ALLOC_SIZE \<equiv> 32768"

function allocate_loop :: "kenv \<Rightarrow> nat \<Rightarrow> nat \<Rightarrow> nat \<Rightarrow> kinode \<Rightarrow> ext_sb \<Rightarrow> fault + kinode \<times> ext_sb" where
  "allocate_loop env goal blk_alloced first ip sb =
     (if goal \<le> blk_alloced then Inr (ip, sb)
      else
        (case mlfs_ext_get_blocks (mal env) (blk_alloced mod 2 ^ 32) (min ALLOC_SIZE (goal - blk_alloced)) ip sb of
           Inl e \<Rightarrow> Inl e
         | Inr (ret, pblk, ip, sb) \<Rightarrow>
             if ret \<le> 0 then Inl (Panic ''fallocate'')
             else
               let first = (if blk_alloced mod 2 ^ 32 = 0 then pblk else first) in
               if blk_alloced mod 2 ^ 32 \<noteq> 0 \<and> pblk \<noteq> first + blk_alloced then Inl (Panic ''fallocate'')
               else allocate_loop env goal (blk_alloced + nat ret) first ip sb))"
  by pat_completeness auto
termination
  by (relation "measure (\<lambda>(env, goal, blk_alloced, first, ip, sb). goal - blk_alloced)") auto

declare allocate_loop.simps [simp del]

definition digest_allocate :: "kenv \<Rightarrow> nat \<Rightarrow> nat \<Rightarrow> kfs \<Rightarrow> fault + kfs" where
  "digest_allocate env ino len s =
     bindF (find_inode ino s) (\<lambda>(ip, s).
       if i_size ip \<ge> len then Inl (Panic ''error: fallocate to smaller size!'')
       else
         bindF (allocate_loop env
                  (len div g_block_size_bytes + (if len mod g_block_size_bytes \<noteq> 0 then 1 else 0)) 0 0 ip (ksb s)) (\<lambda>(ip, sb).
           Inr (put_inode ino (mark_dirty ip) (s\<lparr>ksb := sb\<rparr>))))"

section \<open>Transactions\<close>

definition digest_entry :: "kenv \<Rightarrow> nat \<Rightarrow> nat \<Rightarrow> log_entry \<Rightarrow> kfs \<Rightarrow> fault + kfs" where
  "digest_entry env libfs_id hdr_blk x s =
     (if le_type x = L_TYPE_INODE_CREATE \<or> le_type x = L_TYPE_INODE_UPDATE
      then digest_inode env (le_inum x) (le_block x + hdr_blk) s
      else if file_type (le_type x)
      then digest_file env libfs_id (le_inum x) (le_data x) (le_length x) (le_block x + hdr_blk) s
      else if le_type x = L_TYPE_UNLINK then digest_unlink env (le_inum x) s
      else if le_type x = L_TYPE_ALLOC then digest_allocate env (le_inum x) (le_data x) s
      else Inl (Panic ''unsupported type of operation''))"

primrec digest_entries :: "kenv \<Rightarrow> nat \<Rightarrow> nat \<Rightarrow> log_entry list \<Rightarrow> kfs \<Rightarrow> fault + kfs" where
  "digest_entries env libfs_id hdr_blk [] s = Inr s"
| "digest_entries env libfs_id hdr_blk (x # xs) s =
     bindF (digest_entry env libfs_id hdr_blk x s) (digest_entries env libfs_id hdr_blk xs)"

definition digest_each_log_entries :: "kenv \<Rightarrow> nat \<Rightarrow> nat \<Rightarrow> loghdr \<Rightarrow> kfs \<Rightarrow> fault + kfs" where
  "digest_each_log_entries env libfs_id hdr_blk lh s = digest_entries env libfs_id hdr_blk (entries lh) s"

section \<open>Contents of logical blocks\<close>









section \<open>Exchanging blocks\<close>




section \<open>The blocks of one extent\<close>


lemma lblk_small: "ofs div g_block_size_bytes < EXT_MAX_BLOCKS \<Longrightarrow> lblk ofs = ofs div g_block_size_bytes"
  by (simp add: lblk_def)




section \<open>The loop over the blocks\<close>


















section \<open>File entries\<close>







section \<open>Properties\<close>

text \<open>The file with two blocks on the device of the examples, with a log that has an entry of three blocks.\<close>

definition small_env :: kenv where
  "small_env = \<lparr>dsb = tiny_dsb, mal = small_mal, dinode_of = \<lambda>_. (2, 0)\<rparr>"

definition small_kfs :: "kinode \<Rightarrow> kfs" where
  "small_kfs ip = \<lparr>ktab = fresh_table, kblocks = \<lambda>b. replicate g_block_size_bytes (of_nat b),
     kcache = (\<lambda>_. None)(5 \<mapsto> ip), kondisk = \<lambda>_. ip, ksb = small_fsb\<rparr>"

definition part_block :: kinode where
  "part_block = two_blocks\<lparr>i_size := 5000, exts := [\<lparr>ee_block = 0, ee_len = 2, ee_start = 21\<rparr>]\<rparr>"



lemma part_block_ok: "file_ok part_block small_fsb" "pairs (exts part_block) = {(0, 21), (1, 22)}"
proof -
  show p: "pairs (exts part_block) = {(0, 21), (1, 22)}"
    by (auto simp: part_block_def ext_pairs_def lessThan_Suc numeral_2_eq_2)
  show "file_ok part_block small_fsb"
    using small_fsb_ok unfolding file_ok_def p by (auto simp: part_block_def two_blocks_def ext_ok_def)
qed


lemma part_block_split:
  "mlfs_force_split_extent_at 0 1 part_block = Inr (0, mark_dirty (part_block\<lparr>exts :=
     [\<lparr>ee_block = 0, ee_len = 1, ee_start = 21\<rparr>, \<lparr>ee_block = 1, ee_len = 1, ee_start = 22\<rparr>]\<rparr>))"
  by (simp add: mlfs_force_split_extent_at_def mlfs_split_extent_at_def set_len_def part_block_def two_blocks_def mlfs_ext_get_actual_len_def
      mlfs_ext_is_unwritten_def mlfs_ext_mark_unwritten_def mlfs_ext_insert_extent_def absorb_extent_def mlfs_can_extents_be_merged_def place_extent_def
      mlfs_ext_next_allocated_block_def mlfs_ext_store_pblock_def Let_def mark_dirty_def)

lemma part_block_truncate: "\<exists>ip sb. mlfs_ext_truncate small_mal 0 0 part_block small_fsb = Inr (0, ip, sb)"
proof -
  define ip where "ip = mark_dirty (part_block\<lparr>exts :=
     [\<lparr>ee_block = 0, ee_len = 1, ee_start = 21\<rparr>, \<lparr>ee_block = 1, ee_len = 1, ee_start = 22\<rparr>]\<rparr>)"
  obtain sb where "mlfs_free_blocks small_mal 21 1 small_fsb = Inr sb" using small_free by blast
  then have "\<exists>ip' sb'. mlfs_ext_rm_leaf small_mal 0 0 ip small_fsb = Inr (0, ip', sb') \<and> exts ip' \<noteq> []"
    by (simp add: mlfs_ext_rm_leaf_def rm_leaf_loop.simps ip_def mark_dirty_def mlfs_ext_get_actual_len_def mlfs_ext_is_unwritten_def
        mlfs_remove_blocks_def Let_def)
  then show ?thesis
    using part_block_split
    by (auto simp: mlfs_ext_truncate_def mlfs_ext_remove_space_def mlfs_ext_binsearch_def binsearch_loop.simps part_block_def
        mlfs_ext_get_actual_len_def Let_def ip_def)
qed



text \<open>
  C40: digesting the unlink of a file empties its inode and gives its blocks back up to the
  block before the last one. When the size is larger than a block and no multiple of the
  block size, the last block of the file is then neither mapped by the inode nor free.
\<close>

theorem digest_unlink_leaks:
  assumes "kcache s ino = Some ip" and "file_ok ip (ksb s)" and "mal_ok (mal env)"
    and "0 < i_size ip" and "i_size ip div g_block_size_bytes < EXT_MAX_BLOCKS" and "length (exts ip) < eh_max ip"
    and "card (pairs (exts ip)) < used_blocks (ksb s)" and "used_blocks (ksb s) < 2 ^ 64"
  shows "no_memory (mal env) (digest_unlink env ino s) \<or>
    (\<exists>s' ip'. digest_unlink env ino s = Inr s' \<and> kcache s' = (kcache s)(ino \<mapsto> ip') \<and> exts ip' = [] \<and> i_deleting ip' \<and> i_dirty ip' \<and>
       free_of (ksb s') = free_of (ksb s) \<union>
         snd ` {jp \<in> pairs (exts ip). fst jp < max 1 (i_size ip div g_block_size_bytes)} \<and>
       (g_block_size_bytes < i_size ip \<longrightarrow> i_size ip mod g_block_size_bytes \<noteq> 0 \<longrightarrow>
          (\<forall>c. (i_size ip div g_block_size_bytes, c) \<in> pairs (exts ip) \<longrightarrow> c \<notin> free_of (ksb s'))))"
proof -
  define f where "f = i_size ip div g_block_size_bytes"
  define fin where "fin = (if f = 0 then f else f - 1)"
  have f: "lblk (i_size ip) = f" "f < EXT_MAX_BLOCKS" using assms(5) lblk_small by (simp_all add: f_def)
  then have fin: "fin < EXT_MAX_BLOCKS - 1" by (cases f) (simp_all add: fin_def)
  have run: "digest_unlink env ino s = bindF (mlfs_ext_truncate (mal env) 0 fin ip (ksb s)) (\<lambda>(ret, ip, sb).
      if ret \<noteq> 0 then Inl (Assert ''!ret'')
      else Inr (put_inode ino (mark_dirty ((zero_inode 0 ip)\<lparr>i_deleting := True\<rparr>)) (s\<lparr>ksb := sb\<rparr>)))"
    using assms(1,4) f(1) by (cases "mlfs_ext_truncate (mal env) 0 fin ip (ksb s)") (auto simp: digest_unlink_def Let_def fin_def)
  from truncate_ok [OF assms(2,3) fin assms(7,8), of 0] assms(6)
  consider ip' sb' where "mlfs_ext_truncate (mal env) 0 fin ip (ksb s) = Inr (0, ip', sb')" "truncated 0 fin ip (ksb s) ip' sb'"
    | "no_memory (mal env) (mlfs_ext_truncate (mal env) 0 fin ip (ksb s))" by fastforce
  then show ?thesis
  proof cases
    case 1
    let ?ip = "mark_dirty ((zero_inode 0 ip')\<lparr>i_deleting := True\<rparr>)"
    have "pairs (exts ip) - kept 0 fin (pairs (exts ip)) = {jp \<in> pairs (exts ip). fst jp < max 1 f}" by (auto simp: kept_def fin_def)
    then have free: "free_of sb' = free_of (ksb s) \<union> snd ` {jp \<in> pairs (exts ip). fst jp < max 1 f}"
      using 1(2) by (simp add: truncated_def)
    have "c \<notin> free_of sb'" if "(f, c) \<in> pairs (exts ip)" "1 \<le> f" for c
    proof
      note fc = that
      assume "c \<in> free_of sb'"
      moreover have "c \<notin> free_of (ksb s)" using fc(1) assms(2) by (force simp: file_ok_def)
      ultimately obtain j where "(j, c) \<in> pairs (exts ip)" "j < f" using free fc(2) by auto
      then show False using fc(1) assms(2) inj_onD [of snd "pairs (exts ip)" "(j, c)" "(f, c)"] by (simp add: file_ok_def)
    qed
    moreover have "1 \<le> f" if "g_block_size_bytes < i_size ip" using that by (simp add: f_def)
    ultimately show ?thesis unfolding run 1(1) f_def [symmetric] using free
      by (intro disjI2 exI [of _ "put_inode ino ?ip (s\<lparr>ksb := sb'\<rparr>)"] exI [of _ ?ip]) (simp add: put_inode_def mark_dirty_def zero_inode_def)
  qed (simp add: run no_memory_def)
qed

theorem digest_unlink_leaks_witness:
  "\<exists>s' ip'. digest_unlink small_env 5 (small_kfs part_block) = Inr s' \<and> kcache s' 5 = Some ip' \<and> exts ip' = [] \<and>
     21 \<in> free_of (ksb s') \<and> 22 \<notin> free_of (ksb s')"
proof -
  have e: "kcache (small_kfs part_block) 5 = Some part_block" "mal small_env = small_mal" "ksb (small_kfs part_block) = small_fsb"
    "i_size part_block = 5000" "length (exts part_block) < eh_max part_block"
    by (simp_all add: small_kfs_def small_env_def part_block_def two_blocks_def)
  have "card (pairs (exts part_block)) < used_blocks small_fsb" "used_blocks small_fsb < 2 ^ 64"
    unfolding part_block_ok(2) by (simp_all add: small_fsb_def)
  moreover have "\<not> no_memory (mal small_env) (digest_unlink small_env 5 (small_kfs part_block))"
    using part_block_truncate e by (auto simp: no_memory_def digest_unlink_def lblk_def Let_def)
  ultimately obtain s' ip' where s': "digest_unlink small_env 5 (small_kfs part_block) = Inr s'"
      "kcache s' = (kcache (small_kfs part_block))(5 \<mapsto> ip')" "exts ip' = []"
      "free_of (ksb s') = free_of small_fsb \<union> snd ` {jp \<in> {(0, 21), (1, 22)}. fst jp < max 1 (i_size part_block div g_block_size_bytes)}"
      "22 \<notin> free_of (ksb s')"
    using digest_unlink_leaks [of "small_kfs part_block" 5 part_block small_env] part_block_ok small_mal_ok e by auto
  have "21 \<in> free_of (ksb s')" unfolding s'(4) e(4) by force
  then show ?thesis using s' by simp
qed

end
