(* ===== verification/Spec2Isabelle.thy ===== *)
theory Spec2Isabelle
  imports Rbtree Balloc_Sb Block_Bitmap Map_Table Log_Ring File_Write Buffer_Cache Dirty_Inodes Digest
begin

text \<open>
  Verification of Assise, a distributed file system for non-volatile memory.

  \<^bold>\<open>The program.\<close> A process uses the file system through a library, LibFS (\<open>src/libfs\<close>). A
  write becomes a transaction in the update log of the process. The kernel file system, KernFS
  (\<open>src/kernfs\<close>), digests the log: it walks over the committed transactions and applies their
  entries to the shared area of the device, where inodes have extent trees, a block allocator
  hands out blocks, and a bitmap on the device records which blocks are in use. In this
  repository a map table translates logical to physical blocks, so that a digest exchanges
  the block of a file and the block of the log instead of copying the data.

  \<^bold>\<open>Theories and code.\<close>
  \<^item> \<open>Prelude\<close>: faults as values, unsigned 64-bit arithmetic, and the locales \<open>walk_order\<close>
    (walks over an ordered collection) and \<open>machine\<close> (invariants of step relations). The locale
    \<open>comparator\<close> of \<open>Rbtree\<close> is what \<open>rb_insert\<close> needs of a comparison function.
  \<^item> \<open>Rbtree\<close>: \<open>src/libfs/src/ds/rbtree.c\<close>. A node and its parents are a tree with the path to
    its root; insertion, erasure, replacement and the walks keep the structure of the code.
  \<^item> \<open>Balloc\<close>, \<open>Balloc_Sb\<close>: the free lists of \<open>src/libfs/src/io/balloc.c\<close>, with the range nodes
    in an explicit store of addresses.
  \<^item> \<open>Bitmap\<close>: \<open>src/libfs/src/ds/bitmap.c\<close> on lists of 64-bit words. \<open>Block_Bitmap\<close>: the bitmap
    of the device in \<open>balloc.c\<close>.
  \<^item> \<open>Layout\<close>: the regions of the device as \<open>src/libfs/src/mkfs/mkfs.c\<close> computes them.
  \<^item> \<open>Map_Table\<close>: \<open>src/libfs/src/log/map_table.c\<close>.
  \<^item> \<open>Log\<close>: building and committing a transaction, \<open>src/libfs/src/log/log.c\<close>. \<open>Log_Ring\<close>: the log
    area as a ring with the digest requests of the process and the answers of
    \<open>src/kernfs/fs.c\<close>, as a step relation.
  \<^item> \<open>File_Write\<close>: \<open>mlfs_file_write\<close> and \<open>mlfs_file_fallocate\<close> of
    \<open>src/libfs/src/filesystem/file.c\<close>.
  \<^item> \<open>Buffer_Cache\<close>: \<open>src/libfs/src/io/block_io.c\<close> and \<open>src/kernfs/extents_bh.c\<close>.
  \<^item> \<open>Dirty_Inodes\<close>: the tree of changed inodes that the end of a digest writes.
  \<^item> \<open>Extents\<close>: \<open>src/kernfs/extents.c\<close> for trees of depth 0, over the allocator and the bitmap.
  \<^item> \<open>Digest\<close>: \<open>digest_each_log_entries\<close> and its handlers in \<open>src/kernfs/fs.c\<close>, over the extents
    and the map table.

  State is a record that the operations take and return. Panics, failed assertions and null
  pointers are values of type \<open>fault\<close>; the error codes of the code are negative integers.

  \<^bold>\<open>What the theorems show.\<close>
  \<^item> Data structures: the trees stay red-black trees of logarithmic height, erasure and the walks
    are right; the word-wise bitmap functions agree with their bit-wise meaning.
  \<^item> Blocks: no block is allocated twice, what is freed can be allocated again, a second free is
    refused, and the bitmap agrees with the free lists.
  \<^item> Layout and map table: the regions of the device do not overlap, and the map table stays a
    permutation of the blocks in which an update exchanges two places.
  \<^item> Log: a write becomes entries that are exactly its data, a commit stores them, blocks that are
    handed out are beside undigested transactions, and transactions are digested once and in
    order under the conditions that the theorem states.
  \<^item> Digest: the extents of a file map every block of a request and keep what was mapped;
    truncation gives back exactly the blocks of its range; digesting a file entry publishes its
    data and nothing else; changed inodes are written; the buffer cache is transparent.
  \<^item> Theorems about faults of the code: a transaction lost or a writer stuck after a wrap-around
    of the log, \<open>fallocate\<close> that does not return, bits that are freed and not stored, a used bit
    that is reported free, a tree allocation beyond its range, a lost count of free blocks, map
    entries outside the table on devices above 4 GiB, a file block that is mapped twice, and a
    block that is lost by an unlink.

  \<^bold>\<open>Bounds.\<close> Most loops are recursive functions that terminate by the structure of their data
  or a measure. Fuel is used where the code need not return, and running out of it is the fault
  \<open>Diverges\<close>: the scan of the free ranges (\<open>alloc_scan\<close>, as many rounds as the tree has nodes),
  the loop over the dirty inodes (the theorem asks for more rounds than inodes) and the calls
  between \<open>mlfs_file_write\<close> and \<open>mlfs_file_fallocate\<close> (the theorem holds for every depth). Numbers of the code are
  natural numbers, with the wrap-around written out (\<open>uadd64\<close>, \<open>usub64\<close>, \<open>usub32\<close>, \<open>lblk\<close>) where a
  theorem depends on it; bitmaps are machine words. Numbers of file blocks and lengths in
  \<open>Extents\<close> are assumed to be small enough that sums of 32 bits do not wrap around, as the
  hypotheses on them state.

  \<^bold>\<open>Not modelled.\<close>
  \<^item> Extent trees with index nodes. \<open>mlfs_ext_create_new_leaf\<close> is the end of a run of the model
    (\<open>Beyond\<close>), as is \<open>try_migrate_blocks\<close>; the theorems on extents name these outcomes.
  \<^item> \<open>src/kernfs/migrate.c\<close> and the LRU lists, which need several devices.
  \<^item> Leases, replication and RPC (\<open>src/libfs/src/experimental\<close>, \<open>src/libfs/src/distributed\<close>):
    exchanges of messages whose transport is RDMA hardware and third-party code.
  \<^item> Directories, path lookup and reading in LibFS, which combine caches that several threads
    share, hash tables of third parties and leases.
  \<^item> The optimised digest and the coalescing of log entries, which the build leaves out
    (\<open>DIGEST_OPT\<close>, \<open>LOG_OPT\<close>).
  \<^item> The storage engines, thread pools, slab allocator, system call interception, checksums and
    vendored libraries. What the models need of them is a parameter: the addresses of allocated
    memory and the fields of a \<open>struct dinode\<close> in the bytes of a block.
\<close>

end
